(* ===== verification/Prelude.thy ===== *)
theory Prelude
  imports Main "HOL-Library.Multiset" "HOL-Library.Word"
begin

text \<open>
  What every component shares: the result type that carries assertion failures and
  undefined behaviour as values, its sequencing operator, the theorem collections of the
  development and the generic facts on lists and multisets.
\<close>

section \<open>Collections\<close>

named_theorems res_simps \<open>equations of the result type and of the accessors\<close>
named_theorems frame_simps \<open>what an operation leaves unchanged\<close>
named_theorems wf_intros \<open>operations keep the structural invariant\<close>

section \<open>Results\<close>

text \<open>
  A fault is a way in which the C code stops or loses its meaning: a failed \<open>ASSERT\<close>
  (the text is the asserted expression), a pointer that is null or dangles and is followed, an
  intrusive list element linked a second time while it is still linked, signed overflow, a division
  by zero.
\<close>

datatype fault =
    Assert_Failed string
  | Bad_Pointer
  | List_Corrupt
  | Signed_Overflow
  | Div_By_Zero

type_synonym 'a res = "fault + 'a"

fun bind_res :: "'a res \<Rightarrow> ('a \<Rightarrow> 'b res) \<Rightarrow> 'b res" where
  "bind_res (Inl e) f = Inl e"
| "bind_res (Inr x) f = f x"

lemma bind_res_cong [fundef_cong]:
  "m = m' \<Longrightarrow> (\<And>x. m' = Inr x \<Longrightarrow> f x = g x) \<Longrightarrow> bind_res m f = bind_res m' g"
  by (cases m') simp_all

definition assert_res :: "bool \<Rightarrow> string \<Rightarrow> 'a res \<Rightarrow> 'a res" where
  "assert_res b msg m = (if b then m else Inl (Assert_Failed msg))"

lemma bind_res_Inr_iff [res_simps]:
  "bind_res m f = Inr y \<longleftrightarrow> (\<exists>x. m = Inr x \<and> f x = Inr y)"
  by (cases m) auto

lemma bind_res_Inl_iff [res_simps]:
  "bind_res m f = Inl e \<longleftrightarrow> m = Inl e \<or> (\<exists>x. m = Inr x \<and> f x = Inl e)"
  by (cases m) auto

lemma assert_res_Inr_iff [res_simps]:
  "assert_res b msg m = Inr y \<longleftrightarrow> b \<and> m = Inr y"
  by (simp add: assert_res_def)

lemma assert_res_Inl_iff [res_simps]:
  "assert_res b msg m = Inl e \<longleftrightarrow> (if b then m = Inl e else e = Assert_Failed msg)"
  by (auto simp: assert_res_def)

lemma assert_res_True [simp]: "assert_res True msg m = m"
  by (simp add: assert_res_def)

lemma assert_res_False [simp]: "assert_res False msg m = Inl (Assert_Failed msg)"
  by (simp add: assert_res_def)

lemma bind_res_assoc: "bind_res (bind_res m f) g = bind_res m (\<lambda>x. bind_res (f x) g)"
  by (cases m) auto

lemma bind_res_elim:
  assumes "bind_res m f = Inr y"
  obtains x where "m = Inr x" and "f x = Inr y"
  using assms by (auto simp: res_simps)

text \<open>A fold of a fallible operation over a list: a C loop that visits every element.\<close>

fun fold_res :: "('a \<Rightarrow> 's \<Rightarrow> 's res) \<Rightarrow> 'a list \<Rightarrow> 's \<Rightarrow> 's res" where
  "fold_res f [] s = Inr s"
| "fold_res f (x # xs) s = bind_res (f x s) (fold_res f xs)"

lemma fold_res_invariant:
  assumes "fold_res f xs s = Inr s'" and "P s"
    and "\<And>x s s'. x \<in> set xs \<Longrightarrow> P s \<Longrightarrow> f x s = Inr s' \<Longrightarrow> P s'"
  shows "P s'"
  using assms
proof (induction xs arbitrary: s)
  case Nil
  then show ?case by simp
next
  case (Cons x xs)
  from Cons.prems(1) obtain s1 where s1: "f x s = Inr s1" and rest: "fold_res f xs s1 = Inr s'"
    by (auto simp: res_simps)
  have "P s1" using Cons.prems(2,3) s1 by auto
  with rest show ?case using Cons.IH Cons.prems(3) by (meson list.set_intros(2))
qed

text \<open>What holds of the result if there is one.\<close>

definition ensures :: "('a \<Rightarrow> bool) \<Rightarrow> 'a res \<Rightarrow> bool" where
  "ensures P m \<longleftrightarrow> (\<forall>x. m = Inr x \<longrightarrow> P x)"

named_theorems ensures_intros \<open>rules for the constructs of results\<close>

lemma ensures_rules [ensures_intros]:
  "ensures P (Inl e)"
  "P x \<Longrightarrow> ensures P (Inr x)"
  "(b \<Longrightarrow> ensures P m) \<Longrightarrow> ensures P (assert_res b msg m)"
  by (auto simp: ensures_def res_simps)

lemma ensures_bind [ensures_intros]:
  "(\<And>x. m = Inr x \<Longrightarrow> ensures P (f x)) \<Longrightarrow> ensures P (bind_res m f)"
  by (auto simp: ensures_def res_simps)

lemma ensuresD: "ensures P m \<Longrightarrow> m = Inr x \<Longrightarrow> P x"
  by (simp add: ensures_def)

lemma ensuresI: "(\<And>x. m = Inr x \<Longrightarrow> P x) \<Longrightarrow> ensures P m"
  by (simp add: ensures_def)

section \<open>Signed integers\<close>

text \<open>
  \<open>int64_t\<close> and \<open>int\<close> values are integers in the range of the type; an addition that leaves the range
  is undefined in C and a fault here.
\<close>

definition in_int64 :: "int \<Rightarrow> bool" where
  "in_int64 x \<longleftrightarrow> - (2 ^ 63) \<le> x \<and> x < 2 ^ 63"

definition add_int64 :: "int \<Rightarrow> int \<Rightarrow> int res" where
  "add_int64 a b = (if in_int64 (a + b) then Inr (a + b) else Inl Signed_Overflow)"

definition add_int32 :: "int \<Rightarrow> int \<Rightarrow> int res" where
  "add_int32 a b =
     (if - (2 ^ 31) \<le> a + b \<and> a + b < 2 ^ 31 then Inr (a + b) else Inl Signed_Overflow)"

definition mul_int64 :: "int \<Rightarrow> int \<Rightarrow> int res" where
  "mul_int64 a b = (if in_int64 (a * b) then Inr (a * b) else Inl Signed_Overflow)"

lemma mul_int64_Inr_iff [res_simps]:
  "mul_int64 a b = Inr c \<longleftrightarrow> in_int64 (a * b) \<and> c = a * b"
  by (auto simp: mul_int64_def)

lemma add_int32_Inr_iff [res_simps]:
  "add_int32 a b = Inr c \<longleftrightarrow> - (2 ^ 31) \<le> a + b \<and> a + b < 2 ^ 31 \<and> c = a + b"
  by (auto simp: add_int32_def)

lemma add_int64_Inr_iff [res_simps]:
  "add_int64 a b = Inr c \<longleftrightarrow> in_int64 (a + b) \<and> c = a + b"
  by (auto simp: add_int64_def)

section \<open>Lists\<close>

lemma distinct_mset_transfer:
  "mset xs = mset ys \<Longrightarrow> distinct xs \<longleftrightarrow> distinct ys"
  by (rule mset_eq_imp_distinct_iff)

lemma set_mset_transfer: "mset xs = mset ys \<Longrightarrow> set xs = set ys"
  by (rule mset_eq_setD)

end
