(* ===== verification/Pintos_List.thy ===== *)
theory Pintos_List
  imports Prelude
begin

text \<open>
  The interface to the kernel list library (\<open>list.h\<close>), which is not part of the
  repository. A \<open>struct list\<close> is the HOL list of the structures its elements are embedded
  in; a structure is named by its address. The elementary operations (\<open>list_push_back\<close>,
  \<open>list_pop_front\<close>, \<open>list_remove\<close>, \<open>list_empty\<close>, \<open>list_front\<close> and
  iteration) are the list operations. The documentation of \<open>list_insert_ordered\<close> and of
  \<open>list_sort\<close> leaves the order of equal elements open, so these two are parameters: the type
  \<open>listlib\<close> holds every pair of functions that meets the documented contract
  \<open>list_library\<close>, and the kernel's definitions take one of them as an argument.
\<close>

section \<open>The contract of the ordered operations\<close>

type_synonym tptr = nat
type_synonym less_fn = "tptr \<Rightarrow> tptr \<Rightarrow> bool"

definition weak_order :: "less_fn \<Rightarrow> bool" where
  "weak_order lt \<longleftrightarrow>
     (\<forall>a b. lt a b \<longrightarrow> \<not> lt b a) \<and> (\<forall>a b c. lt a c \<longrightarrow> lt a b \<or> lt b c)"

definition sorted_by :: "less_fn \<Rightarrow> tptr list \<Rightarrow> bool" where
  "sorted_by lt = sorted_wrt (\<lambda>a b. \<not> lt b a)"

text \<open>
  \<open>list_insert_ordered\<close> puts the element somewhere in the list, and in its proper position
  when the list is sorted; \<open>list_sort\<close> permutes the list into sorted order.
\<close>

definition list_library ::
  "(less_fn \<Rightarrow> tptr \<Rightarrow> tptr list \<Rightarrow> tptr list) \<times> (less_fn \<Rightarrow> tptr list \<Rightarrow> tptr list) \<Rightarrow> bool" where
  "list_library lib \<longleftrightarrow>
     (\<forall>lt x xs. \<exists>ys zs. xs = ys @ zs \<and> fst lib lt x xs = ys @ x # zs) \<and>
     (\<forall>lt x xs. weak_order lt \<longrightarrow> sorted_by lt xs \<longrightarrow> sorted_by lt (fst lib lt x xs)) \<and>
     (\<forall>lt xs. weak_order lt \<longrightarrow>
        mset (snd lib lt xs) = mset xs \<and> sorted_by lt (snd lib lt xs))"

section \<open>A library that meets the contract\<close>

fun insert_before :: "less_fn \<Rightarrow> tptr \<Rightarrow> tptr list \<Rightarrow> tptr list" where
  "insert_before lt x [] = [x]"
| "insert_before lt x (y # ys) = (if lt x y then x # y # ys else y # insert_before lt x ys)"

definition insertion_sort :: "less_fn \<Rightarrow> tptr list \<Rightarrow> tptr list" where
  "insertion_sort lt xs = fold (insert_before lt) xs []"

lemma insert_before_split:
  "\<exists>ys zs. xs = ys @ zs \<and> insert_before lt x xs = ys @ x # zs"
proof (induction xs)
  case Nil
  then show ?case by simp
next
  case (Cons y xs)
  then obtain ys zs where "xs = ys @ zs" and "insert_before lt x xs = ys @ x # zs" by blast
  then have "y # xs = (y # ys) @ zs \<and> y # insert_before lt x xs = (y # ys) @ x # zs" by simp
  then show ?case by (metis append_Nil insert_before.simps(2))
qed

lemma set_insert_before: "set (insert_before lt x xs) = insert x (set xs)"
  by (induction xs) auto

lemma mset_insert_before: "mset (insert_before lt x xs) = add_mset x (mset xs)"
  by (induction xs) auto

lemma sorted_insert_before:
  "weak_order lt \<Longrightarrow> sorted_by lt xs \<Longrightarrow> sorted_by lt (insert_before lt x xs)"
  by (induction xs) (auto simp: sorted_by_def weak_order_def set_insert_before, blast+)

lemma insertion_sort_correct:
  assumes "weak_order lt"
  shows "mset (insertion_sort lt xs) = mset xs \<and> sorted_by lt (insertion_sort lt xs)"
proof -
  have "mset (fold (insert_before lt) xs acc) = mset xs + mset acc
      \<and> sorted_by lt (fold (insert_before lt) xs acc)" if "sorted_by lt acc" for acc
    using that assms by (induction xs arbitrary: acc) (auto simp: mset_insert_before sorted_insert_before)
  from this[of "[]"] show ?thesis by (simp add: insertion_sort_def sorted_by_def)
qed

lemma list_library_reference: "list_library (insert_before, insertion_sort)"
  by (auto simp: list_library_def insert_before_split sorted_insert_before insertion_sort_correct)

section \<open>The type of all such libraries\<close>

typedef listlib = "Collect list_library"
  using list_library_reference by blast

setup_lifting type_definition_listlib

lift_definition list_insert_ordered :: "listlib \<Rightarrow> less_fn \<Rightarrow> tptr \<Rightarrow> tptr list \<Rightarrow> tptr list"
  is fst .

lift_definition list_sort :: "listlib \<Rightarrow> less_fn \<Rightarrow> tptr list \<Rightarrow> tptr list"
  is snd .

lift_definition stable_lib :: listlib is "(insert_before, insertion_sort)"
  using list_library_reference by simp

lemma stable_lib_insert [simp]: "list_insert_ordered stable_lib = insert_before"
  by transfer simp

lemma stable_lib_sort [simp]: "list_sort stable_lib = insertion_sort"
  by transfer simp

lemma insert_ordered_split:
  obtains ys zs where "xs = ys @ zs" and "list_insert_ordered L lt x xs = ys @ x # zs"
  by transfer (metis (mono_tags, lifting) list_library_def mem_Collect_eq)

lemma mset_insert_ordered [simp]:
  "mset (list_insert_ordered L lt x xs) = add_mset x (mset xs)"
  by (rule insert_ordered_split[of xs L lt x]) simp

lemma set_insert_ordered [simp]:
  "set (list_insert_ordered L lt x xs) = insert x (set xs)"
  by (rule insert_ordered_split[of xs L lt x]) auto

lemma distinct_insert_ordered [simp]:
  "distinct (list_insert_ordered L lt x xs) \<longleftrightarrow> x \<notin> set xs \<and> distinct xs"
  by (rule insert_ordered_split[of xs L lt x]) auto

lemma insert_ordered_neq_Nil [simp]: "list_insert_ordered L lt x xs \<noteq> []"
  by (rule insert_ordered_split[of xs L lt x]) auto

lemma insert_ordered_Nil [simp]: "list_insert_ordered L lt x [] = [x]"
  by (rule insert_ordered_split[of "[]" L lt x]) auto

lemma sort_weak:
  assumes "weak_order lt"
  shows mset_sort_weak: "mset (list_sort L lt xs) = mset xs"
    and sorted_sort_weak: "sorted_by lt (list_sort L lt xs)"
  using assms by (transfer; auto simp: list_library_def)+

section \<open>The comparator contract\<close>

text \<open>
  What the library relies on: the comparator a component passes is a strict weak order. Each
  component provides its comparator as an interpretation; the facts about its queue follow.
\<close>

locale less_func =
  fixes lt :: less_fn
  assumes asym: "lt a b \<Longrightarrow> \<not> lt b a"
    and cotrans: "lt a c \<Longrightarrow> lt a b \<or> lt b c"
begin

lemma weak_order: "weak_order lt"
  unfolding weak_order_def using asym cotrans by blast

lemma sorted_insert: "sorted_by lt xs \<Longrightarrow> sorted_by lt (list_insert_ordered L lt x xs)"
  using weak_order by transfer (auto simp: list_library_def)

lemma sorted_sort: "sorted_by lt (list_sort L lt xs)"
  using weak_order by (rule sorted_sort_weak)

lemma mset_sort: "mset (list_sort L lt xs) = mset xs"
  using weak_order by (rule mset_sort_weak)

lemma set_sort: "set (list_sort L lt xs) = set xs"
  using mset_sort by (rule set_mset_transfer)

lemma distinct_sort: "distinct (list_sort L lt xs) \<longleftrightarrow> distinct xs"
  using mset_sort by (rule distinct_mset_transfer)

lemma sort_Nil_iff: "list_sort L lt xs = [] \<longleftrightarrow> xs = []"
  using mset_sort[of L xs] by (metis mset_zero_iff)

lemma sorted_hd_least:
  "sorted_by lt (x # xs) \<Longrightarrow> y \<in> set (x # xs) \<Longrightarrow> \<not> lt y x"
  using asym by (auto simp: sorted_by_def)

lemma sort_hd_least:
  "list_sort L lt xs = x # ys \<Longrightarrow> y \<in> set xs \<Longrightarrow> \<not> lt y x"
  using sorted_sort[of L xs] set_sort[of L xs] by (metis sorted_hd_least)

end

end
