(* ===== verification/Kernel_State.thy ===== *)
theory Kernel_State
  imports Pintos_List
begin

text \<open>
  The state of the Lab 2 kernel: \<open>struct thread\<close> of \<open>Lab2/thread.h\<close>, the semaphores,
  locks and condition variables its synchronisation code keeps, the static variables of
  \<open>thread.c\<close> and \<open>timer.c\<close>, the interrupt flags, and for every thread the control stack
  of calls it is inside. A pointer to a \<open>struct thread\<close> is the address of its page.
\<close>

section \<open>Threads\<close>

datatype thread_status = THREAD_RUNNING | THREAD_READY | THREAD_BLOCKED | THREAD_DYING

definition PRI_MIN :: int where "PRI_MIN = 0"
definition PRI_DEFAULT :: int where "PRI_DEFAULT = 31"
definition PRI_MAX :: int where "PRI_MAX = 63"
definition THREAD_MAGIC :: "32 word" where "THREAD_MAGIC = 0xcd6abf4b"
definition TIME_SLICE :: "32 word" where "TIME_SLICE = 4"
definition PGSIZE :: nat where "PGSIZE = 4096"

text \<open>
  The list elements embedded in the structure are the membership of its address in the
  corresponding list. \<open>p_elem\<close> records the thread whose \<open>priority_list\<close> the element is
  linked into, because the code can link it while it is still linked elsewhere.
\<close>

record thread =
  tid :: int
  status :: thread_status
  name :: string
  stack :: nat
  priority :: int
  waiting_time :: int
  prev_priority :: int
  lock_temp :: "nat option"
  lock_acquired :: "nat option"
  p_elem :: "tptr option"
  priority_list :: "tptr list"
  donee :: "tptr option"
  magic :: "32 word"

section \<open>Synchronisation objects\<close>

text \<open>
  A semaphore is a global object of a client, the semaphore embedded in a lock, the local
  semaphore of a \<open>condvar_wait\<close> call (named by the waiting thread) or the local semaphore of
  \<open>thread_start\<close>.
\<close>

datatype semref = Sema nat | Lock_Sema nat | Waiter tptr | Idle_Started

record semaphore =
  sema_value :: "32 word"
  waiters :: "tptr list"

record lock =
  holder :: "tptr option"
  donor :: "tptr option"

text \<open>
  The elements of a condition variable's list are local semaphores of waiting threads, so the
  list is the list of these threads.
\<close>

record condvar =
  cond_waiters :: "tptr list"

section \<open>Control points\<close>

text \<open>
  One datatype per C function that can be preempted or can block inside: its constructors are
  the points of the body at which the function continues. A frame is a function together with
  its arguments, its live local variables and the point at which it continues.
\<close>

datatype thread_func = Client | Idle semref

datatype down_point = SD_Enter | SD_Loop bool
datatype up_point = SU_Enter | SU_Preempt tptr | SU_Scan | SU_Restore
datatype acquire_point = LA_Enter | LA_Mark | LA_Enlist | LA_Donate | LA_Chain | LA_Donee | LA_Own
datatype release_point = LR_Enter | LR_Clear
datatype wait_point = CW_Enter | CW_Return
datatype create_point =
    TC_Enter string int thread_func
  | TC_Tid tptr
  | TC_Store tptr int
  | TC_Ready tptr thread_func
  | TC_Preempt tptr
datatype start_point = TS_Enter | TS_Enable | TS_Return
datatype idle_point = IP_Enter semref | IP_Sort | IP_Loop | IP_Halt
datatype sleep_point = SL_Enter | SL_Mark int | SL_Block

datatype frame =
    Kernel_Thread thread_func
  | Client_Body
  | Idle_At idle_point
  | Thread_Yield
  | Intr_Set_Level bool
  | Thread_Exit
  | Set_Priority int
  | Thread_Create create_point
  | Thread_Start start_point
  | Sema_Down down_point semref
  | Sema_Up up_point semref
  | Lock_Acquire acquire_point nat
  | Lock_Release release_point nat
  | Cond_Wait wait_point nat nat
  | Cond_Signal nat nat
  | Cond_Broadcast nat nat
  | Timer_Sleep sleep_point int

section \<open>The kernel\<close>

record kernel =
  threads :: "tptr \<Rightarrow> thread option"
  cur :: tptr
  frames :: "tptr \<Rightarrow> frame list"
  ready_list :: "tptr list"
  all_list :: "tptr list"
  idle_thread :: "tptr option"
  initial_thread :: tptr
  next_tid :: int
  thread_ticks :: "32 word"
  idle_ticks :: int
  kernel_ticks :: int
  sems :: "semref \<Rightarrow> semaphore option"
  locks :: "nat \<Rightarrow> lock option"
  condvars :: "nat \<Rightarrow> condvar option"
  thread_list :: "tptr list"
  ticks :: int
  intr_on :: bool
  intr_context :: bool
  yield_on_return :: bool

text \<open>The lock that protects \<open>next_tid\<close>.\<close>

definition tid_lock :: nat where "tid_lock = 0"

text \<open>
  What the kernel takes from outside the repository: the list library, the sizes of the two stack
  frames of \<open>switch.h\<close>, the eight bytes that a comparator reads where it looks for
  \<open>waiting_time\<close> at a wrong offset (see \<open>list_wake_sort\<close> in \<open>Timer\<close>), and the
  answer of the page allocator.
\<close>

record env =
  lib :: listlib
  switch_entry_frame_size :: nat
  switch_threads_frame_size :: nat
  misread :: "tptr \<Rightarrow> int"
  palloc_get_page :: "tptr option"

text \<open>The allocator gives out a page that holds no live thread, or null.\<close>

definition palloc_ok :: "env \<Rightarrow> kernel \<Rightarrow> bool" where
  "palloc_ok E k = (case palloc_get_page E of None \<Rightarrow> True | Some t \<Rightarrow> threads k t = None)"

section \<open>Access\<close>

definition get_thread :: "tptr \<Rightarrow> kernel \<Rightarrow> thread res" where
  "get_thread t k = (case threads k t of None \<Rightarrow> Inl Bad_Pointer | Some th \<Rightarrow> Inr th)"

definition upd_thread :: "tptr \<Rightarrow> (thread \<Rightarrow> thread) \<Rightarrow> kernel \<Rightarrow> kernel" where
  "upd_thread t f k = k\<lparr>threads := (threads k)(t := map_option f (threads k t))\<rparr>"

definition get_sema :: "semref \<Rightarrow> kernel \<Rightarrow> semaphore res" where
  "get_sema s k = (case sems k s of None \<Rightarrow> Inl Bad_Pointer | Some sm \<Rightarrow> Inr sm)"

definition put_sema :: "semref \<Rightarrow> semaphore \<Rightarrow> kernel \<Rightarrow> kernel" where
  "put_sema s sm k = k\<lparr>sems := (sems k)(s \<mapsto> sm)\<rparr>"

definition get_lock :: "nat \<Rightarrow> kernel \<Rightarrow> lock res" where
  "get_lock l k = (case locks k l of None \<Rightarrow> Inl Bad_Pointer | Some lk \<Rightarrow> Inr lk)"

definition put_lock :: "nat \<Rightarrow> lock \<Rightarrow> kernel \<Rightarrow> kernel" where
  "put_lock l lk k = k\<lparr>locks := (locks k)(l \<mapsto> lk)\<rparr>"

definition get_condvar :: "nat \<Rightarrow> kernel \<Rightarrow> condvar res" where
  "get_condvar c k = (case condvars k c of None \<Rightarrow> Inl Bad_Pointer | Some cv \<Rightarrow> Inr cv)"

definition put_condvar :: "nat \<Rightarrow> condvar \<Rightarrow> kernel \<Rightarrow> kernel" where
  "put_condvar c cv k = k\<lparr>condvars := (condvars k)(c \<mapsto> cv)\<rparr>"

text \<open>A field of a pointer that is followed, null included.\<close>

definition deref :: "tptr option \<Rightarrow> kernel \<Rightarrow> thread res" where
  "deref p k = (case p of None \<Rightarrow> Inl Bad_Pointer | Some t \<Rightarrow> get_thread t k)"

definition push :: "frame list \<Rightarrow> kernel \<Rightarrow> kernel" where
  "push fs k = k\<lparr>frames := (frames k)(cur k := fs @ frames k (cur k))\<rparr>"

text \<open>The priority a comparator reads, and the state of a thread, if it exists.\<close>

definition prio :: "kernel \<Rightarrow> tptr \<Rightarrow> int" where
  "prio k t = (case threads k t of None \<Rightarrow> 0 | Some th \<Rightarrow> priority th)"

definition state_of :: "kernel \<Rightarrow> tptr \<Rightarrow> thread_status option" where
  "state_of k t = map_option status (threads k t)"

lemma get_thread_Inr_iff [res_simps]: "get_thread t k = Inr th \<longleftrightarrow> threads k t = Some th"
  by (auto simp: get_thread_def split: option.splits)

lemma get_sema_Inr_iff [res_simps]: "get_sema s k = Inr sm \<longleftrightarrow> sems k s = Some sm"
  by (auto simp: get_sema_def split: option.splits)

lemma get_lock_Inr_iff [res_simps]: "get_lock l k = Inr lk \<longleftrightarrow> locks k l = Some lk"
  by (auto simp: get_lock_def split: option.splits)

lemma get_condvar_Inr_iff [res_simps]: "get_condvar c k = Inr cv \<longleftrightarrow> condvars k c = Some cv"
  by (auto simp: get_condvar_def split: option.splits)

lemma deref_Inr_iff [res_simps]:
  "deref p k = Inr th \<longleftrightarrow> (\<exists>t. p = Some t \<and> threads k t = Some th)"
  by (auto simp: deref_def res_simps split: option.splits)

lemma get_Inl_iff [res_simps]:
  "get_thread t k = Inl e \<longleftrightarrow> threads k t = None \<and> e = Bad_Pointer"
  "get_sema s k = Inl e \<longleftrightarrow> sems k s = None \<and> e = Bad_Pointer"
  "get_lock l k = Inl e \<longleftrightarrow> locks k l = None \<and> e = Bad_Pointer"
  "get_condvar c k = Inl e \<longleftrightarrow> condvars k c = None \<and> e = Bad_Pointer"
  by (auto simp: get_thread_def get_sema_def get_lock_def get_condvar_def split: option.splits)

lemma threads_upd_thread: "threads (upd_thread t f k) = (threads k)(t := map_option f (threads k t))"
  by (simp add: upd_thread_def)

lemma upd_thread_frame [frame_simps]:
  "cur (upd_thread t f k) = cur k"
  "frames (upd_thread t f k) = frames k"
  "ready_list (upd_thread t f k) = ready_list k"
  "all_list (upd_thread t f k) = all_list k"
  "idle_thread (upd_thread t f k) = idle_thread k"
  "initial_thread (upd_thread t f k) = initial_thread k"
  "next_tid (upd_thread t f k) = next_tid k"
  "sems (upd_thread t f k) = sems k"
  "locks (upd_thread t f k) = locks k"
  "condvars (upd_thread t f k) = condvars k"
  "thread_list (upd_thread t f k) = thread_list k"
  "ticks (upd_thread t f k) = ticks k"
  "intr_on (upd_thread t f k) = intr_on k"
  "intr_context (upd_thread t f k) = intr_context k"
  "yield_on_return (upd_thread t f k) = yield_on_return k"
  "thread_ticks (upd_thread t f k) = thread_ticks k"
  by (simp_all add: upd_thread_def)

lemma push_frame [frame_simps]:
  "cur (push fs k) = cur k"
  "threads (push fs k) = threads k"
  "ready_list (push fs k) = ready_list k"
  "all_list (push fs k) = all_list k"
  "idle_thread (push fs k) = idle_thread k"
  "initial_thread (push fs k) = initial_thread k"
  "next_tid (push fs k) = next_tid k"
  "sems (push fs k) = sems k"
  "locks (push fs k) = locks k"
  "condvars (push fs k) = condvars k"
  "thread_list (push fs k) = thread_list k"
  "ticks (push fs k) = ticks k"
  "intr_on (push fs k) = intr_on k"
  "intr_context (push fs k) = intr_context k"
  "yield_on_return (push fs k) = yield_on_return k"
  by (simp_all add: push_def)

lemma frames_push:
  "frames (push fs k) = (frames k)(cur k := fs @ frames k (cur k))"
  by (simp add: push_def)

lemma put_frame [frame_simps]:
  "threads (put_sema s sm k) = threads k" "threads (put_lock l lk k) = threads k"
  "threads (put_condvar c cv k) = threads k"
  "cur (put_sema s sm k) = cur k" "cur (put_lock l lk k) = cur k" "cur (put_condvar c cv k) = cur k"
  "frames (put_sema s sm k) = frames k" "frames (put_lock l lk k) = frames k"
  "frames (put_condvar c cv k) = frames k"
  "ready_list (put_sema s sm k) = ready_list k" "ready_list (put_lock l lk k) = ready_list k"
  "ready_list (put_condvar c cv k) = ready_list k"
  "idle_thread (put_sema s sm k) = idle_thread k" "idle_thread (put_lock l lk k) = idle_thread k"
  "idle_thread (put_condvar c cv k) = idle_thread k"
  "thread_list (put_sema s sm k) = thread_list k" "thread_list (put_lock l lk k) = thread_list k"
  "thread_list (put_condvar c cv k) = thread_list k"
  "locks (put_sema s sm k) = locks k" "locks (put_condvar c cv k) = locks k"
  "sems (put_lock l lk k) = sems k" "sems (put_condvar c cv k) = sems k"
  "condvars (put_sema s sm k) = condvars k" "condvars (put_lock l lk k) = condvars k"
  "intr_on (put_sema s sm k) = intr_on k" "intr_on (put_lock l lk k) = intr_on k"
  "intr_on (put_condvar c cv k) = intr_on k"
  "intr_context (put_sema s sm k) = intr_context k" "intr_context (put_lock l lk k) = intr_context k"
  "intr_context (put_condvar c cv k) = intr_context k"
  "initial_thread (put_sema s sm k) = initial_thread k" "initial_thread (put_lock l lk k) = initial_thread k"
  "initial_thread (put_condvar c cv k) = initial_thread k"
  "all_list (put_sema s sm k) = all_list k" "all_list (put_lock l lk k) = all_list k"
  "all_list (put_condvar c cv k) = all_list k"
  "next_tid (put_sema s sm k) = next_tid k" "next_tid (put_lock l lk k) = next_tid k"
  "next_tid (put_condvar c cv k) = next_tid k"
  "ticks (put_sema s sm k) = ticks k" "ticks (put_lock l lk k) = ticks k"
  "ticks (put_condvar c cv k) = ticks k"
  "yield_on_return (put_sema s sm k) = yield_on_return k" "yield_on_return (put_lock l lk k) = yield_on_return k"
  "yield_on_return (put_condvar c cv k) = yield_on_return k"
  "thread_ticks (put_sema s sm k) = thread_ticks k" "thread_ticks (put_lock l lk k) = thread_ticks k"
  "thread_ticks (put_condvar c cv k) = thread_ticks k"
  by (simp_all add: put_sema_def put_lock_def put_condvar_def)

lemma sems_put_sema: "sems (put_sema s sm k) = (sems k)(s \<mapsto> sm)"
  by (simp add: put_sema_def)

lemma locks_put_lock: "locks (put_lock l lk k) = (locks k)(l \<mapsto> lk)"
  by (simp add: put_lock_def)

lemma condvars_put_condvar: "condvars (put_condvar c cv k) = (condvars k)(c \<mapsto> cv)"
  by (simp add: put_condvar_def)

lemma state_of_upd_thread:
  "state_of (upd_thread t f k) x =
     (if x = t then map_option (status \<circ> f) (threads k t) else state_of k x)"
  by (auto simp: state_of_def threads_upd_thread option.map_comp)

lemma state_of_same [frame_simps]:
  "state_of (push fs k) = state_of k"
  "state_of (put_sema s sm k) = state_of k"
  "state_of (put_lock l lk k) = state_of k"
  "state_of (put_condvar c cv k) = state_of k"
  by (simp_all add: state_of_def fun_eq_iff frame_simps)

end
