(* ===== verification/Thread.thy ===== *)
theory Thread
  imports Kernel_State
begin

text \<open>
  \<open>Lab2/thread.c\<close>: the life cycle of a thread, the ready list ordered by priority, the
  scheduler and preemption. The operations that can switch threads end in \<open>schedule\<close>; what the
  caller does when it runs again is the frame pushed before the switch. The second half states
  the structural invariant of the kernel's queues and shows that every operation keeps it.
\<close>

section \<open>The running thread\<close>

definition is_thread :: "tptr option \<Rightarrow> kernel \<Rightarrow> bool" where
  "is_thread p k =
     (case p of None \<Rightarrow> False
      | Some t \<Rightarrow> (case threads k t of None \<Rightarrow> False | Some th \<Rightarrow> magic th = THREAD_MAGIC))"

definition thread_current :: "kernel \<Rightarrow> thread res" where
  "thread_current k =
     assert_res (is_thread (Some (cur k)) k) ''is_thread(t)''
       (bind_res (get_thread (cur k) k) (\<lambda>th.
          assert_res (status th = THREAD_RUNNING) ''t->status == THREAD_RUNNING'' (Inr th)))"

definition thread_tid :: "kernel \<Rightarrow> int res" where
  "thread_tid k = bind_res (thread_current k) (\<lambda>th. Inr (tid th))"

definition thread_name :: "kernel \<Rightarrow> string res" where
  "thread_name k = bind_res (thread_current k) (\<lambda>th. Inr (name th))"

definition thread_get_priority :: "kernel \<Rightarrow> int res" where
  "thread_get_priority k = bind_res (thread_current k) (\<lambda>th. Inr (priority th))"

section \<open>Creation\<close>

definition list_priority_sort :: "kernel \<Rightarrow> less_fn" where
  "list_priority_sort k a b = (if prio k a > prio k b then True else False)"

interpretation ready_order: less_func "list_priority_sort k" for k
  by unfold_locales (auto simp: list_priority_sort_def split: if_splits)

definition init_thread :: "tptr \<Rightarrow> string \<Rightarrow> int \<Rightarrow> kernel \<Rightarrow> kernel res" where
  "init_thread t nm pri k =
     assert_res (PRI_MIN \<le> pri \<and> pri \<le> PRI_MAX) ''PRI_MIN <= priority && priority <= PRI_MAX''
       (Inr (k\<lparr>threads := (threads k)(t \<mapsto>
                 \<lparr>tid = 0, status = THREAD_BLOCKED, name = take 15 nm, stack = t + PGSIZE,
                  priority = pri, waiting_time = 0, prev_priority = pri, lock_temp = None,
                  lock_acquired = None, p_elem = None, priority_list = [], donee = None,
                  magic = THREAD_MAGIC\<rparr>),
               all_list := all_list k @ [t]\<rparr>))"

definition alloc_frame :: "tptr \<Rightarrow> nat \<Rightarrow> kernel \<Rightarrow> kernel res" where
  "alloc_frame t sz k =
     assert_res (is_thread (Some t) k) ''is_thread(t)''
       (assert_res (sz mod 4 = 0) ''size % sizeof (uint32_t) == 0''
         (Inr (upd_thread t (\<lambda>th. th\<lparr>stack := stack th - sz\<rparr>) k)))"

section \<open>Switching threads\<close>

definition next_thread_to_run :: "kernel \<Rightarrow> tptr option \<times> kernel" where
  "next_thread_to_run k =
     (case ready_list k of
        [] \<Rightarrow> (idle_thread k, k)
      | t # ts \<Rightarrow> (Some t, k\<lparr>ready_list := ts\<rparr>))"

definition palloc_free_page :: "tptr \<Rightarrow> kernel \<Rightarrow> kernel" where
  "palloc_free_page t k = k\<lparr>threads := (threads k)(t := None), frames := (frames k)(t := [])\<rparr>"

definition thread_schedule_tail :: "tptr option \<Rightarrow> kernel \<Rightarrow> kernel res" where
  "thread_schedule_tail prev k =
     assert_res (\<not> intr_on k) ''intr_get_level() == INTR_OFF''
       (let k = upd_thread (cur k) (\<lambda>th. th\<lparr>status := THREAD_RUNNING\<rparr>) k;
            k = k\<lparr>thread_ticks := 0\<rparr>
        in case prev of
             None \<Rightarrow> Inr k
           | Some p \<Rightarrow>
               if state_of k p = Some THREAD_DYING \<and> p \<noteq> initial_thread k
               then assert_res (p \<noteq> cur k) ''prev != cur'' (Inr (palloc_free_page p k))
               else Inr k)"

definition schedule :: "kernel \<Rightarrow> kernel res" where
  "schedule k =
     (case next_thread_to_run k of (nxt, k) \<Rightarrow>
       assert_res (\<not> intr_on k) ''intr_get_level() == INTR_OFF''
        (assert_res (state_of k (cur k) \<noteq> Some THREAD_RUNNING) ''cur->status != THREAD_RUNNING''
          (assert_res (is_thread nxt k) ''is_thread(next)''
            (case nxt of
               None \<Rightarrow> Inl Bad_Pointer
             | Some n \<Rightarrow>
                 if cur k \<noteq> n then thread_schedule_tail (Some (cur k)) (k\<lparr>cur := n\<rparr>)
                 else thread_schedule_tail None k))))"

definition thread_block :: "kernel \<Rightarrow> kernel res" where
  "thread_block k =
     assert_res (\<not> intr_context k) ''!intr_context()''
       (assert_res (\<not> intr_on k) ''intr_get_level() == INTR_OFF''
         (bind_res (thread_current k) (\<lambda>_.
            schedule (upd_thread (cur k) (\<lambda>th. th\<lparr>status := THREAD_BLOCKED\<rparr>) k))))"

definition thread_unblock :: "env \<Rightarrow> tptr \<Rightarrow> kernel \<Rightarrow> kernel res" where
  "thread_unblock E t k =
     assert_res (is_thread (Some t) k) ''is_thread(t)''
       (assert_res (state_of k t = Some THREAD_BLOCKED) ''t->status == THREAD_BLOCKED''
         (let k = k\<lparr>ready_list :=
                 list_insert_ordered (lib E) (list_priority_sort k) t (ready_list k)\<rparr>
          in Inr (upd_thread t (\<lambda>th. th\<lparr>status := THREAD_READY\<rparr>) k)))"

definition thread_yield :: "env \<Rightarrow> kernel \<Rightarrow> kernel res" where
  "thread_yield E k =
     bind_res (thread_current k) (\<lambda>_.
       assert_res (\<not> intr_context k) ''!intr_context()''
         (let old_level = intr_on k;
              k = push [Intr_Set_Level old_level] (k\<lparr>intr_on := False\<rparr>);
              k = (if Some (cur k) \<noteq> idle_thread k
                   then k\<lparr>ready_list := list_insert_ordered (lib E) (list_priority_sort k) (cur k)
                             (ready_list k)\<rparr>
                   else k);
              k = upd_thread (cur k) (\<lambda>th. th\<lparr>status := THREAD_READY\<rparr>) k
          in schedule k))"

definition thread_exit :: "kernel \<Rightarrow> kernel res" where
  "thread_exit k =
     assert_res (\<not> intr_context k) ''!intr_context()''
       (let k = k\<lparr>intr_on := False\<rparr>
        in bind_res (thread_current k) (\<lambda>_.
             let k = k\<lparr>all_list := remove1 (cur k) (all_list k)\<rparr>
             in schedule (upd_thread (cur k) (\<lambda>th. th\<lparr>status := THREAD_DYING\<rparr>) k)))"

section \<open>Creating and starting threads\<close>

text \<open>
  \<open>thread_create\<close>, point by point: the page given by the allocator, the identifier taken
  under \<open>tid_lock\<close> (\<open>allocate_tid\<close>), the three stack frames and the wake-up, the
  preemption by the new thread. Its stack makes the new thread start in \<open>kernel_thread\<close>.
\<close>

definition allocate_tid :: "tptr \<Rightarrow> kernel \<Rightarrow> kernel res" where
  "allocate_tid t k =
     bind_res (add_int32 (next_tid k) 1) (\<lambda>n.
       Inr (push [Lock_Release LR_Enter tid_lock, Thread_Create (TC_Store t (next_tid k))]
              (k\<lparr>next_tid := n\<rparr>)))"

definition kernel_thread_frame_size :: nat where "kernel_thread_frame_size = 12"

fun thread_create :: "env \<Rightarrow> create_point \<Rightarrow> kernel \<Rightarrow> kernel res" where
  "thread_create E (TC_Enter nm pri func) k =
     (case palloc_get_page E of
        None \<Rightarrow> Inr k
      | Some t \<Rightarrow>
          bind_res (init_thread t nm pri k) (\<lambda>k.
            Inr (push [Lock_Acquire LA_Enter tid_lock, Thread_Create (TC_Tid t),
                       Thread_Create (TC_Ready t func)] k)))"
| "thread_create E (TC_Tid t) k = allocate_tid t k"
| "thread_create E (TC_Store t i) k =
     bind_res (get_thread t k) (\<lambda>_. Inr (upd_thread t (\<lambda>th. th\<lparr>tid := i\<rparr>) k))"
| "thread_create E (TC_Ready t func) k =
     bind_res (alloc_frame t kernel_thread_frame_size k) (\<lambda>k.
     bind_res (alloc_frame t (switch_entry_frame_size E) k) (\<lambda>k.
     bind_res (alloc_frame t (switch_threads_frame_size E) k) (\<lambda>k.
     bind_res (thread_unblock E t (k\<lparr>frames := (frames k)(t := [Kernel_Thread func])\<rparr>)) (\<lambda>k.
       Inr (push [Thread_Create (TC_Preempt t)] k)))))"
| "thread_create E (TC_Preempt t) k =
     bind_res (get_thread t k) (\<lambda>th.
     bind_res (thread_get_priority k) (\<lambda>p.
       Inr (if priority th > p then push [Thread_Yield] k else k)))"

text \<open>\<open>function(aux)\<close> runs with interrupts on and the thread exits when it returns.\<close>

definition kernel_thread :: "thread_func \<Rightarrow> kernel \<Rightarrow> kernel" where
  "kernel_thread func k =
     push (case func of Client \<Rightarrow> [Client_Body, Thread_Exit]
                      | Idle s \<Rightarrow> [Idle_At (IP_Enter s), Thread_Exit]) (k\<lparr>intr_on := True\<rparr>)"

text \<open>\<open>sti; hlt\<close> waits for an interrupt; the model lets it resume at any time.\<close>

fun idle :: "env \<Rightarrow> idle_point \<Rightarrow> kernel \<Rightarrow> kernel res" where
  "idle E (IP_Enter s) k =
     bind_res (thread_current k) (\<lambda>_.
       Inr (push [Sema_Up SU_Enter s, Idle_At IP_Sort] (k\<lparr>idle_thread := Some (cur k)\<rparr>)))"
| "idle E IP_Sort k =
     Inr (push [Idle_At IP_Loop]
            (k\<lparr>ready_list := list_sort (lib E) (list_priority_sort k) (ready_list k)\<rparr>))"
| "idle E IP_Loop k = thread_block (push [Idle_At IP_Halt] (k\<lparr>intr_on := False\<rparr>))"
| "idle E IP_Halt k = Inr (push [Idle_At IP_Loop] (k\<lparr>intr_on := True\<rparr>))"

text \<open>The semaphore of \<open>thread_start\<close> is a local variable: it is gone when the call returns.\<close>

fun thread_start :: "start_point \<Rightarrow> kernel \<Rightarrow> kernel res" where
  "thread_start TS_Enter k =
     Inr (push [Thread_Create (TC_Enter ''idle'' PRI_MIN (Idle Idle_Started)),
                Thread_Start TS_Enable]
            (put_sema Idle_Started \<lparr>sema_value = 0, waiters = []\<rparr> k))"
| "thread_start TS_Enable k =
     Inr (push [Sema_Down SD_Enter Idle_Started, Thread_Start TS_Return] (k\<lparr>intr_on := True\<rparr>))"
| "thread_start TS_Return k = Inr (k\<lparr>sems := (sems k)(Idle_Started := None)\<rparr>)"

section \<open>Priorities and ticks\<close>

definition thread_set_priority :: "int \<Rightarrow> kernel \<Rightarrow> kernel res" where
  "thread_set_priority new_priority k =
     bind_res (thread_current k) (\<lambda>_.
       let k = upd_thread (cur k) (\<lambda>th. th\<lparr>prev_priority := new_priority\<rparr>) k
       in bind_res (thread_current k) (\<lambda>th.
            if priority_list th \<noteq> [] then Inr k
            else let k = upd_thread (cur k) (\<lambda>th. th\<lparr>priority := new_priority\<rparr>) k
                 in if list_ex (\<lambda>t. prio k t > prio k (cur k)) (ready_list k)
                    then Inr (push [Thread_Yield] k)
                    else Inr k))"

definition thread_tick :: "kernel \<Rightarrow> kernel res" where
  "thread_tick k =
     bind_res (thread_current k) (\<lambda>_.
       let k = (if Some (cur k) = idle_thread k then k\<lparr>idle_ticks := idle_ticks k + 1\<rparr>
                else k\<lparr>kernel_ticks := kernel_ticks k + 1\<rparr>);
           k = k\<lparr>thread_ticks := thread_ticks k + 1\<rparr>
       in Inr (if TIME_SLICE \<le> thread_ticks k then k\<lparr>yield_on_return := True\<rparr> else k))"

definition thread_foreach :: "(tptr \<Rightarrow> kernel \<Rightarrow> kernel res) \<Rightarrow> kernel \<Rightarrow> kernel res" where
  "thread_foreach func k =
     assert_res (\<not> intr_on k) ''intr_get_level() == INTR_OFF'' (fold_res func (all_list k) k)"

definition thread_set_nice :: "int \<Rightarrow> kernel \<Rightarrow> kernel" where "thread_set_nice n k = k"
definition thread_get_nice :: "kernel \<Rightarrow> int" where "thread_get_nice k = 0"
definition thread_get_load_avg :: "kernel \<Rightarrow> int" where "thread_get_load_avg k = 0"
definition thread_get_recent_cpu :: "kernel \<Rightarrow> int" where "thread_get_recent_cpu k = 0"

end
