(* ===== verification/Semaphore.thy ===== *)
theory Semaphore
  imports Thread
begin

text \<open>
  \<open>Lab2/semaphore.c\<close>: counting semaphores whose waiters are ordered by priority. Each function
  is one definition over its control points; a call it makes is a frame it pushes, the
  continuation below the callee.
\<close>

definition sem_priority_sort :: "kernel \<Rightarrow> less_fn" where
  "sem_priority_sort k a b = (if prio k a > prio k b then True else False)"

interpretation waiter_order: less_func "sem_priority_sort k" for k
  by unfold_locales (auto simp: sem_priority_sort_def split: if_splits)

definition semaphore_init :: "semref \<Rightarrow> 32 word \<Rightarrow> kernel \<Rightarrow> kernel" where
  "semaphore_init s v k = put_sema s \<lparr>sema_value = v, waiters = []\<rparr> k"

text \<open>
  The donation in the loop of \<open>semaphore_down\<close>: the holder of the lock the caller last had to
  wait for inherits the caller's priority when its own is lower. \<open>lock_temp->holder\<close> is
  followed without a test for null.
\<close>

definition donate_to_holder :: "thread \<Rightarrow> kernel \<Rightarrow> kernel res" where
  "donate_to_holder th k =
     (case lock_temp th of
        None \<Rightarrow> Inr k
      | Some l \<Rightarrow>
          bind_res (get_lock l k) (\<lambda>lk.
          bind_res (deref (holder lk) k) (\<lambda>h.
            Inr (if priority h < priority th
                 then upd_thread (the (holder lk)) (\<lambda>h. h\<lparr>priority := priority th\<rparr>) k
                 else k))))"

fun semaphore_down :: "env \<Rightarrow> down_point \<Rightarrow> semref \<Rightarrow> kernel \<Rightarrow> kernel res" where
  "semaphore_down E SD_Enter s k =
     assert_res (\<not> intr_context k) ''!intr_context()''
       (Inr (push [Sema_Down (SD_Loop (intr_on k)) s] (k\<lparr>intr_on := False\<rparr>)))"
| "semaphore_down E (SD_Loop old_level) s k =
     bind_res (get_sema s k) (\<lambda>sm.
       if sema_value sm = 0 then
         bind_res (thread_current k) (\<lambda>th.
         bind_res (donate_to_holder th k) (\<lambda>k.
           let k = put_sema s (sm\<lparr>waiters :=
                     list_insert_ordered (lib E) (sem_priority_sort k) (cur k) (waiters sm)\<rparr>) k
           in thread_block (push [Sema_Down (SD_Loop old_level) s] k)))
       else Inr ((put_sema s (sm\<lparr>sema_value := sema_value sm - 1\<rparr>) k)\<lparr>intr_on := old_level\<rparr>))"

fun semaphore_up :: "env \<Rightarrow> up_point \<Rightarrow> semref \<Rightarrow> kernel \<Rightarrow> kernel res" where
  "semaphore_up E SU_Enter s k =
     bind_res (thread_current k) (\<lambda>_.
     bind_res (get_sema s k) (\<lambda>sm.
     bind_res
       (case list_sort (lib E) (sem_priority_sort k) (waiters sm) of
          [] \<Rightarrow> Inr (cur k, sm, k)
        | t1 # ts \<Rightarrow>
            bind_res (thread_unblock E t1 (put_sema s (sm\<lparr>waiters := ts\<rparr>) k)) (\<lambda>k.
              Inr (t1, sm\<lparr>waiters := ts\<rparr>, k)))
       (\<lambda>(t1, sm, k).
          Inr (push [Sema_Up (SU_Preempt t1) s]
                 (put_sema s (sm\<lparr>sema_value := sema_value sm + 1\<rparr>) k)))))"
| "semaphore_up E (SU_Preempt t1) s k =
     bind_res (thread_get_priority k) (\<lambda>p.
     bind_res (get_thread t1 k) (\<lambda>th.
       Inr (if p < priority th then push [Thread_Yield, Sema_Up SU_Scan s] k
            else push [Sema_Up SU_Scan s] k)))"
| "semaphore_up E SU_Scan s k =
     bind_res (get_sema s k) (\<lambda>sm.
       if list_ex (\<lambda>t. prio k t \<ge> prio k (cur k)) (waiters sm)
       then Inr (push [Thread_Yield, Sema_Up SU_Restore s] k)
       else Inr (push [Sema_Up SU_Restore s] k))"
| "semaphore_up E SU_Restore s k =
     bind_res (thread_current k) (\<lambda>th.
       Inr (if priority th \<noteq> prev_priority th
            then push [Set_Priority (prev_priority th), Thread_Yield] k
            else push [Thread_Yield] k))"

end
