(* ===== verification/Lock.thy ===== *)
theory Lock
  imports Semaphore
begin

text \<open>
  \<open>Lab2/lock.c\<close>: locks built on binary semaphores, with priority donation from the threads
  that wait for a lock to its holder. Interrupts are on inside \<open>lock_acquire\<close>, so each of its
  statements is a control point of its own: the holder can change between two of them.
\<close>

definition lock_priority_sort :: "kernel \<Rightarrow> less_fn" where
  "lock_priority_sort k a b = (if prio k a > prio k b then True else False)"

interpretation donor_order: less_func "lock_priority_sort k" for k
  by unfold_locales (auto simp: lock_priority_sort_def split: if_splits)

definition lock_init :: "nat \<Rightarrow> kernel \<Rightarrow> kernel" where
  "lock_init l k =
     put_lock l \<lparr>holder = None, donor = None\<rparr>
       (semaphore_init (Lock_Sema l) 1 k)"

definition lock_held_by_current_thread :: "nat \<Rightarrow> kernel \<Rightarrow> bool res" where
  "lock_held_by_current_thread l k =
     bind_res (get_lock l k) (\<lambda>lk.
     bind_res (thread_current k) (\<lambda>_. Inr (holder lk = Some (cur k))))"

text \<open>
  \<open>p_elem\<close> is linked into the holder's list. When it is still linked into the list of a live
  thread, that list is corrupted. The comparator follows every element it is given.
\<close>

definition all_live :: "kernel \<Rightarrow> tptr list \<Rightarrow> bool" where
  "all_live k xs \<longleftrightarrow> list_all (\<lambda>t. threads k t \<noteq> None) xs"

definition link_p_elem :: "env \<Rightarrow> tptr \<Rightarrow> tptr \<Rightarrow> kernel \<Rightarrow> kernel res" where
  "link_p_elem E h t k =
     bind_res (get_thread h k) (\<lambda>hth.
     bind_res (get_thread t k) (\<lambda>th.
       if (case p_elem th of None \<Rightarrow> False | Some h' \<Rightarrow> threads k h' \<noteq> None) then Inl List_Corrupt
       else if \<not> all_live k (priority_list hth) then Inl Bad_Pointer
       else Inr (upd_thread h (\<lambda>hth. hth\<lparr>priority_list :=
                     list_insert_ordered (lib E) (lock_priority_sort k) t (priority_list hth)\<rparr>)
                   (upd_thread t (\<lambda>th. th\<lparr>p_elem := Some h\<rparr>) k))))"

fun lock_acquire :: "env \<Rightarrow> acquire_point \<Rightarrow> nat \<Rightarrow> kernel \<Rightarrow> kernel res" where
  "lock_acquire E LA_Enter l k =
     assert_res (\<not> intr_context k) ''!intr_context()''
       (bind_res (lock_held_by_current_thread l k) (\<lambda>held.
          assert_res (\<not> held) ''!lock_held_by_current_thread(lock)''
            (bind_res (get_lock l k) (\<lambda>lk.
               Inr (if holder lk \<noteq> None then push [Lock_Acquire LA_Mark l] k
                    else push [Sema_Down SD_Enter (Lock_Sema l), Lock_Acquire LA_Own l] k)))))"
| "lock_acquire E LA_Mark l k =
     bind_res (thread_current k) (\<lambda>_.
       Inr (push [Lock_Acquire LA_Enlist l]
              (upd_thread (cur k) (\<lambda>th. th\<lparr>lock_temp := Some l\<rparr>) k)))"
| "lock_acquire E LA_Enlist l k =
     bind_res (get_lock l k) (\<lambda>lk.
     bind_res (thread_current k) (\<lambda>_.
       case holder lk of
         None \<Rightarrow> Inl Bad_Pointer
       | Some h \<Rightarrow>
           bind_res (link_p_elem E h (cur k) k) (\<lambda>k. Inr (push [Lock_Acquire LA_Donate l] k))))"
| "lock_acquire E LA_Donate l k =
     bind_res (get_lock l k) (\<lambda>lk.
     bind_res (deref (holder lk) k) (\<lambda>_.
     bind_res (thread_get_priority k) (\<lambda>p.
       Inr (push [Lock_Acquire LA_Chain l]
              (upd_thread (the (holder lk)) (\<lambda>h. h\<lparr>priority := p\<rparr>) k)))))"
| "lock_acquire E LA_Chain l k =
     bind_res (get_lock l k) (\<lambda>lk.
     bind_res (deref (holder lk) k) (\<lambda>h.
       case donee h of
         None \<Rightarrow> Inr (push [Lock_Acquire LA_Donee l] k)
       | Some d \<Rightarrow>
           bind_res (get_thread d k) (\<lambda>dth.
             Inr (push [Lock_Acquire LA_Donee l]
                    (if priority h > priority dth
                     then upd_thread d (\<lambda>dth. dth\<lparr>priority := priority h\<rparr>) k else k)))))"
| "lock_acquire E LA_Donee l k =
     bind_res (get_lock l k) (\<lambda>lk.
     bind_res (thread_current k) (\<lambda>_.
       Inr (push [Sema_Down SD_Enter (Lock_Sema l), Lock_Acquire LA_Own l]
              (upd_thread (cur k) (\<lambda>th. th\<lparr>donee := holder lk\<rparr>) k))))"
| "lock_acquire E LA_Own l k =
     bind_res (get_lock l k) (\<lambda>lk.
     bind_res (thread_current k) (\<lambda>_.
       Inr (put_lock l (lk\<lparr>holder := Some (cur k)\<rparr>) k)))"

text \<open>
  The loop of \<open>lock_release\<close> over the donors \<open>t\<close> of the holder \<open>h\<close>. It takes a
  donor that waits for this lock off the list and then sorts that donor's own list. The
  element after a removed one is still reachable through it, so the loop visits every element.
\<close>

definition drop_donor :: "env \<Rightarrow> nat \<Rightarrow> tptr \<Rightarrow> tptr \<Rightarrow> kernel \<Rightarrow> kernel res" where
  "drop_donor E l h t k =
     bind_res (get_thread t k) (\<lambda>th.
       if lock_temp th = Some l then
         let k = upd_thread h (\<lambda>hth. hth\<lparr>priority_list := remove1 t (priority_list hth)\<rparr>) k;
             k = upd_thread t (\<lambda>th. th\<lparr>p_elem := None\<rparr>) k
         in bind_res (get_thread t k) (\<lambda>th.
              if \<not> all_live k (priority_list th) then Inl Bad_Pointer
              else Inr (upd_thread t (\<lambda>th. th\<lparr>priority_list :=
                          list_sort (lib E) (lock_priority_sort k) (priority_list th)\<rparr>) k))
       else Inr k)"

definition return_priority :: "env \<Rightarrow> nat \<Rightarrow> tptr \<Rightarrow> kernel \<Rightarrow> kernel res" where
  "return_priority E l h k =
     bind_res (get_thread h k) (\<lambda>hth.
     bind_res (if priority_list hth \<noteq> [] then fold_res (drop_donor E l h) (priority_list hth) k
               else Inr k) (\<lambda>k.
     bind_res (get_thread h k) (\<lambda>hth.
       case priority_list hth of
         [] \<Rightarrow> Inr (upd_thread h (\<lambda>hth. hth\<lparr>priority := prev_priority hth\<rparr>) k)
       | t1 # _ \<Rightarrow> bind_res (get_thread t1 k) (\<lambda>t1th.
                    Inr (upd_thread h (\<lambda>hth. hth\<lparr>priority := priority t1th\<rparr>) k)))))"

lemma return_priority_cases:
  assumes "return_priority E l h k = Inr k'"
  obtains hth k1 f where "threads k h = Some hth"
    and "fold_res (drop_donor E l h) (priority_list hth) k = Inr k1"
    and "k' = upd_thread h (\<lambda>hth. hth\<lparr>priority := f hth\<rparr>) k1"
proof -
  obtain hth where hth: "threads k h = Some hth"
    using assms by (auto simp: return_priority_def res_simps)
  obtain k1 where k1: "(if priority_list hth \<noteq> [] then fold_res (drop_donor E l h) (priority_list hth) k
               else Inr k) = Inr k1"
    using assms hth by (auto simp: return_priority_def get_thread_def elim: bind_res_elim)
  then have f: "fold_res (drop_donor E l h) (priority_list hth) k = Inr k1"
    by (cases "priority_list hth") auto
  obtain hth' where hth': "threads k1 h = Some hth'" and r: "(case priority_list hth' of
         [] \<Rightarrow> Inr (upd_thread h (\<lambda>hth. hth\<lparr>priority := prev_priority hth\<rparr>) k1)
       | t1 # _ \<Rightarrow> bind_res (get_thread t1 k1) (\<lambda>t1th.
                    Inr (upd_thread h (\<lambda>hth. hth\<lparr>priority := priority t1th\<rparr>) k1))) = Inr k'"
    using assms hth k1 by (auto simp: return_priority_def get_thread_def split: option.splits)
  show ?thesis
  proof (cases "priority_list hth'")
    case Nil
    then show ?thesis using that[OF hth f, of prev_priority] r by simp
  next
    case (Cons t1 ts)
    with r obtain t1th :: thread where "k' = upd_thread h (\<lambda>hth. hth\<lparr>priority := priority t1th\<rparr>) k1"
      by (auto simp: res_simps)
    then show ?thesis using that[OF hth f, of "\<lambda>_. priority t1th"] by simp
  qed
qed

fun lock_release :: "env \<Rightarrow> release_point \<Rightarrow> nat \<Rightarrow> kernel \<Rightarrow> kernel res" where
  "lock_release E LR_Enter l k =
     bind_res (lock_held_by_current_thread l k) (\<lambda>held.
       assert_res held ''lock_held_by_current_thread(lock)''
         (bind_res (thread_current k) (\<lambda>th.
          bind_res (if prev_priority th \<noteq> priority th then return_priority E l (cur k) k
                    else Inr k) (\<lambda>k.
            Inr (push [Lock_Release LR_Clear l] k)))))"
| "lock_release E LR_Clear l k =
     bind_res (get_lock l k) (\<lambda>lk.
       Inr (push [Sema_Up SU_Enter (Lock_Sema l)] (put_lock l (lk\<lparr>holder := None\<rparr>) k)))"

end
