(* ===== verification/Condvar.thy ===== *)
theory Condvar
  imports Lock
begin

text \<open>
  \<open>Lab2/condvar.c\<close>: condition variables with Mesa semantics. A waiting thread sleeps on a
  semaphore of its own; the condition variable keeps the list of these semaphores.
\<close>

definition front_waiter :: "kernel \<Rightarrow> tptr \<Rightarrow> tptr option" where
  "front_waiter k a =
     (case sems k (Waiter a) of
        None \<Rightarrow> None
      | Some sm \<Rightarrow> (case waiters sm of [] \<Rightarrow> None | t # _ \<Rightarrow> Some t))"

definition condvar_priority_sort :: "kernel \<Rightarrow> less_fn" where
  "condvar_priority_sort k a b =
     (case front_waiter k a of
        None \<Rightarrow> False
      | Some t1 \<Rightarrow>
          (case front_waiter k b of
             None \<Rightarrow> True
           | Some t2 \<Rightarrow> if prio k t1 > prio k t2 then True else False))"

interpretation cond_order: less_func "condvar_priority_sort k" for k
  by unfold_locales (auto simp: condvar_priority_sort_def split: option.splits if_splits)

definition condvar_init :: "nat \<Rightarrow> kernel \<Rightarrow> kernel" where
  "condvar_init c k = put_condvar c \<lparr>cond_waiters = []\<rparr> k"

text \<open>The local semaphore exists from \<open>CW_Enter\<close> until the call returns.\<close>

fun condvar_wait :: "env \<Rightarrow> wait_point \<Rightarrow> nat \<Rightarrow> nat \<Rightarrow> kernel \<Rightarrow> kernel res" where
  "condvar_wait E CW_Enter c l k =
     assert_res (\<not> intr_context k) ''!intr_context()''
       (bind_res (lock_held_by_current_thread l k) (\<lambda>held.
          assert_res held ''lock_held_by_current_thread(lock)''
            (let k = semaphore_init (Waiter (cur k)) 0 k
             in bind_res (get_condvar c k) (\<lambda>cv.
                  let k = put_condvar c (cv\<lparr>cond_waiters :=
                            list_insert_ordered (lib E) (condvar_priority_sort k) (cur k)
                              (cond_waiters cv)\<rparr>) k
                  in Inr (push [Lock_Release LR_Enter l, Sema_Down SD_Enter (Waiter (cur k)),
                                Lock_Acquire LA_Enter l, Cond_Wait CW_Return c l] k)))))"
| "condvar_wait E CW_Return c l k = Inr (k\<lparr>sems := (sems k)(Waiter (cur k) := None)\<rparr>)"

definition condvar_signal :: "env \<Rightarrow> nat \<Rightarrow> nat \<Rightarrow> kernel \<Rightarrow> kernel res" where
  "condvar_signal E c l k =
     assert_res (\<not> intr_context k) ''!intr_context()''
       (bind_res (lock_held_by_current_thread l k) (\<lambda>held.
          assert_res held ''lock_held_by_current_thread(lock)''
            (bind_res (get_condvar c k) (\<lambda>cv.
               if cond_waiters cv \<noteq> [] then
                 (case list_sort (lib E) (condvar_priority_sort k) (cond_waiters cv) of
                    [] \<Rightarrow> Inl Bad_Pointer
                  | w # ws \<Rightarrow>
                      Inr (push [Sema_Up SU_Enter (Waiter w)]
                             (put_condvar c (cv\<lparr>cond_waiters := ws\<rparr>) k)))
               else Inr k))))"

text \<open>The loop \<open>while (!list_empty(&cond->waiters)) condvar_signal(cond, lock)\<close>.\<close>

definition condvar_broadcast :: "nat \<Rightarrow> nat \<Rightarrow> kernel \<Rightarrow> kernel res" where
  "condvar_broadcast c l k =
     bind_res (get_condvar c k) (\<lambda>cv.
       Inr (if cond_waiters cv \<noteq> [] then push [Cond_Signal c l, Cond_Broadcast c l] k else k))"

end
