(* ===== verification/Timer.thy ===== *)
theory Timer
  imports Thread
begin

text \<open>
  The alarm clock of \<open>Lab2/timer.c\<close>: a thread that sleeps is blocked on the list of sleepers
  and every timer interrupt wakes the sleepers whose time has come. The arithmetic half of the
  file is in \<open>Timer_Arith\<close>.
\<close>

definition timer_ticks :: "kernel \<Rightarrow> int" where
  "timer_ticks k = ticks k"

definition timer_elapsed :: "int \<Rightarrow> kernel \<Rightarrow> int" where
  "timer_elapsed before k = timer_ticks k - before"

text \<open>
  The comparator takes the \<open>sleep\<close> elements for \<open>allelem\<close> elements, so it reads
  \<open>waiting_time\<close> at a wrong offset: \<open>misread\<close> is what it finds there.
\<close>

definition list_wake_sort :: "env \<Rightarrow> less_fn" where
  "list_wake_sort E a b = (if misread E a > misread E b then True else False)"

interpretation sleep_order: less_func "list_wake_sort E" for E
  by unfold_locales (auto simp: list_wake_sort_def split: if_splits)

fun timer_sleep :: "env \<Rightarrow> sleep_point \<Rightarrow> int \<Rightarrow> kernel \<Rightarrow> kernel res" where
  "timer_sleep E SL_Enter n k = Inr (push [Timer_Sleep (SL_Mark (timer_ticks k)) n] k)"
| "timer_sleep E (SL_Mark start) n k =
     assert_res (intr_on k) ''intr_get_level () == INTR_ON''
       (if n > 0 then
          bind_res (thread_current k) (\<lambda>_.
          bind_res (add_int64 start n) (\<lambda>w.
            Inr (push [Timer_Sleep SL_Block n]
                   (upd_thread (cur k) (\<lambda>th. th\<lparr>waiting_time := w\<rparr>) k))))
        else Inr k)"
| "timer_sleep E SL_Block n k =
     bind_res (thread_current k) (\<lambda>_.
       let prev_interrupt = intr_on k;
           k = k\<lparr>intr_on := False\<rparr>;
           k = k\<lparr>thread_list :=
                 list_insert_ordered (lib E) (list_wake_sort E) (cur k) (thread_list k)\<rparr>
       in thread_block (push [Intr_Set_Level prev_interrupt] k))"

definition timer_wake :: "env \<Rightarrow> tptr \<Rightarrow> kernel \<Rightarrow> kernel res" where
  "timer_wake E t k =
     bind_res (get_thread t k) (\<lambda>th.
       if waiting_time th \<le> timer_ticks k
       then thread_unblock E t (k\<lparr>thread_list := remove1 t (thread_list k)\<rparr>)
       else Inr k)"

text \<open>
  The handler of the timer interrupt. A removed element keeps its link to the next one, so the
  loop visits every thread that was on the list when it began.
\<close>

definition timer_interrupt :: "env \<Rightarrow> kernel \<Rightarrow> kernel res" where
  "timer_interrupt E k =
     bind_res (add_int64 (ticks k) 1) (\<lambda>n.
     bind_res (thread_tick (k\<lparr>ticks := n\<rparr>)) (\<lambda>k.
       let prev_interrupt = intr_on k;
           k = k\<lparr>intr_on := False\<rparr>
       in bind_res (fold_res (timer_wake E) (thread_list k) k) (\<lambda>k.
            Inr (k\<lparr>intr_on := prev_interrupt\<rparr>))))"

end
