(* ===== verification/Kernel_Step.thy ===== *)
theory Kernel_Step
  imports Condvar Timer
begin

text \<open>
  The Lab 2 kernel as a machine: the running thread executes the frame on top of its control
  stack, a client thread calls any function of the kernel's interface at any time, and the timer
  interrupts wherever interrupts are on. A step from one control point to the next is atomic.
\<close>

section \<open>One frame\<close>

fun exec_frame :: "env \<Rightarrow> frame \<Rightarrow> kernel \<Rightarrow> kernel res" where
  "exec_frame E (Kernel_Thread func) k = Inr (kernel_thread func k)"
| "exec_frame E Client_Body k = Inr k"
| "exec_frame E (Idle_At p) k = idle E p k"
| "exec_frame E Thread_Yield k = thread_yield E k"
| "exec_frame E (Intr_Set_Level old_level) k = Inr (k\<lparr>intr_on := old_level\<rparr>)"
| "exec_frame E Thread_Exit k = thread_exit k"
| "exec_frame E (Set_Priority p) k = thread_set_priority p k"
| "exec_frame E (Thread_Create p) k = thread_create E p k"
| "exec_frame E (Thread_Start p) k = thread_start p k"
| "exec_frame E (Sema_Down p s) k = semaphore_down E p s k"
| "exec_frame E (Sema_Up p s) k = semaphore_up E p s k"
| "exec_frame E (Lock_Acquire p l) k = lock_acquire E p l k"
| "exec_frame E (Lock_Release p l) k = lock_release E p l k"
| "exec_frame E (Cond_Wait p c l) k = condvar_wait E p c l k"
| "exec_frame E (Cond_Signal c l) k = condvar_signal E c l k"
| "exec_frame E (Cond_Broadcast c l) k = condvar_broadcast c l k"
| "exec_frame E (Timer_Sleep p n) k = timer_sleep E p n k"

definition pop :: "kernel \<Rightarrow> kernel" where
  "pop k = k\<lparr>frames := (frames k)(cur k := tl (frames k (cur k)))\<rparr>"

definition run_thread :: "env \<Rightarrow> kernel \<Rightarrow> kernel res" where
  "run_thread E k =
     (case frames k (cur k) of
        [] \<Rightarrow> Inr k
      | f # _ \<Rightarrow> exec_frame E f (pop k))"

text \<open>
  The timer interrupt: the handler runs with interrupts off in interrupt context; when it asked
  for it, the interrupted thread yields before the interrupt returns and turns interrupts on.
\<close>

definition timer_irq :: "env \<Rightarrow> kernel \<Rightarrow> kernel res" where
  "timer_irq E k =
     bind_res (timer_interrupt E (k\<lparr>intr_on := False, intr_context := True, yield_on_return := False\<rparr>))
       (\<lambda>k. let k = k\<lparr>intr_context := False\<rparr>
            in Inr (if yield_on_return k then push [Thread_Yield, Intr_Set_Level True] k
                    else k\<lparr>intr_on := True\<rparr>))"

section \<open>Clients\<close>

text \<open>
  The calls a client thread can make. It names its own semaphores only, not those inside locks
  and condition variables, and not \<open>tid_lock\<close>, which is static in \<open>thread.c\<close>.
\<close>

fun client_call :: "frame \<Rightarrow> bool" where
  "client_call (Sema_Down SD_Enter (Sema n)) = True"
| "client_call (Sema_Up SU_Enter (Sema n)) = True"
| "client_call (Lock_Acquire LA_Enter l) = (l \<noteq> tid_lock)"
| "client_call (Lock_Release LR_Enter l) = (l \<noteq> tid_lock)"
| "client_call (Cond_Wait CW_Enter c l) = (l \<noteq> tid_lock)"
| "client_call (Cond_Signal c l) = (l \<noteq> tid_lock)"
| "client_call (Cond_Broadcast c l) = (l \<noteq> tid_lock)"
| "client_call (Timer_Sleep SL_Enter n) = True"
| "client_call Thread_Yield = True"
| "client_call Thread_Exit = True"
| "client_call (Set_Priority p) = True"
| "client_call (Thread_Create (TC_Enter nm pri Client)) = True"
| "client_call _ = False"

section \<open>Steps and runs\<close>

inductive kernel_step :: "kernel \<Rightarrow> kernel \<Rightarrow> bool" where
  run: "palloc_ok E k \<Longrightarrow> run_thread E k = Inr k' \<Longrightarrow> kernel_step k k'"
| call: "frames k (cur k) = Client_Body # fs \<Longrightarrow> client_call f \<Longrightarrow> kernel_step k (push [f] k)"
| new_sema: "frames k (cur k) = Client_Body # fs \<Longrightarrow> sems k (Sema n) = None \<Longrightarrow>
     kernel_step k (semaphore_init (Sema n) v k)"
| new_lock: "frames k (cur k) = Client_Body # fs \<Longrightarrow> locks k l = None \<Longrightarrow>
     sems k (Lock_Sema l) = None \<Longrightarrow> kernel_step k (lock_init l k)"
| new_condvar: "frames k (cur k) = Client_Body # fs \<Longrightarrow> condvars k c = None \<Longrightarrow>
     kernel_step k (condvar_init c k)"
| tick: "intr_on k \<Longrightarrow> timer_irq E k = Inr k' \<Longrightarrow> kernel_step k k'"

inductive kernel_steps :: "kernel \<Rightarrow> kernel \<Rightarrow> bool" where
  refl: "kernel_steps k k"
| step: "kernel_steps k k' \<Longrightarrow> kernel_step k' k'' \<Longrightarrow> kernel_steps k k''"

inductive_cases kernel_stepE: "kernel_step k k'"

section \<open>Boot\<close>

text \<open>
  \<open>thread_init\<close> turns the code that runs on page \<open>p\<close> into the thread \<open>main\<close> and
  gives it an identifier; the rest of \<open>main\<close> is a client. Before it there are no threads.
\<close>

definition power_on :: "tptr \<Rightarrow> kernel" where
  "power_on p =
     \<lparr>threads = (\<lambda>_. None), cur = p, frames = (\<lambda>_. []), ready_list = [], all_list = [],
      idle_thread = None, initial_thread = p, next_tid = 1, thread_ticks = 0, idle_ticks = 0,
      kernel_ticks = 0, sems = (\<lambda>_. None), locks = (\<lambda>_. None), condvars = (\<lambda>_. None),
      thread_list = [], ticks = 0, intr_on = False, intr_context = False,
      yield_on_return = False\<rparr>"

definition thread_init :: "kernel \<Rightarrow> kernel res" where
  "thread_init k =
     assert_res (\<not> intr_on k) ''intr_get_level() == INTR_OFF''
       (let k = lock_init tid_lock k;
            k = k\<lparr>ready_list := [], all_list := [], initial_thread := cur k\<rparr>
        in bind_res (init_thread (cur k) ''main'' PRI_DEFAULT k) (\<lambda>k.
             let k = upd_thread (cur k) (\<lambda>th. th\<lparr>status := THREAD_RUNNING\<rparr>) k
             in Inr (push [Lock_Acquire LA_Enter tid_lock, Thread_Create (TC_Tid (cur k))] k)))"

text \<open>\<open>main\<close> goes on to start the timer and the scheduler, and then runs as a client.\<close>

definition timer_init :: "kernel \<Rightarrow> kernel" where
  "timer_init k = k\<lparr>thread_list := []\<rparr>"

definition boot :: "tptr \<Rightarrow> kernel res" where
  "boot p =
     bind_res (thread_init (push [Thread_Start TS_Enter, Client_Body] (power_on p))) (\<lambda>k.
       Inr (timer_init k))"

end
