(* ===== verification/Placement.thy ===== *)
theory Placement
  imports Kernel_State
begin

text \<open>
  The abstract view of the scheduler's state: every thread that is ready or blocked sits in
  exactly one queue. A place is the ready list, the wait list of a semaphore, the list of
  sleepers, or the creation in progress of a thread that is not in any list yet. The operations
  of the kernel are moves between places; each move keeps the invariant \<open>placed\<close>.
\<close>

datatype place = P_Ready | P_Sema semref | P_Sleep | P_New tptr

text \<open>
  \<open>i\<close> is \<open>idle_thread\<close>, \<open>I\<close> the threads that run the idle loop, \<open>r\<close> the running
  thread, if no switch is in progress. The idle thread is in no queue.
\<close>

definition placed ::
  "(place \<Rightarrow> tptr list) \<Rightarrow> (tptr \<Rightarrow> thread_status option) \<Rightarrow> tptr option \<Rightarrow> tptr set \<Rightarrow>
   tptr option \<Rightarrow> bool" where
  "placed at st i I r \<longleftrightarrow>
     (\<forall>P. distinct (at P)) \<and>
     (\<forall>P Q t. t \<in> set (at P) \<longrightarrow> t \<in> set (at Q) \<longrightarrow> P = Q) \<and>
     (\<forall>P t. t \<in> set (at P) \<longrightarrow>
        st t = Some (if P = P_Ready then THREAD_READY else THREAD_BLOCKED) \<and> i \<noteq> Some t) \<and>
     (\<forall>t. st t = Some THREAD_READY \<longrightarrow> t \<in> set (at P_Ready) \<or> t \<in> I) \<and>
     (\<forall>t. st t = Some THREAD_BLOCKED \<longrightarrow> (\<exists>P. t \<in> set (at P)) \<or> t \<in> I) \<and>
     (\<forall>t. st t = Some THREAD_RUNNING \<longleftrightarrow> r = Some t) \<and>
     (\<forall>t. i = Some t \<longrightarrow>
        t \<in> I \<and> st t \<in> {Some THREAD_RUNNING, Some THREAD_READY, Some THREAD_BLOCKED}) \<and>
     (\<forall>t \<in> I. st t \<noteq> None \<and> (\<forall>u. t \<notin> set (at (P_New u))))"

lemma placedD:
  assumes "placed at st i I r"
  shows placed_distinct: "\<And>P. distinct (at P)"
    and placed_unique: "\<And>P Q t. t \<in> set (at P) \<Longrightarrow> t \<in> set (at Q) \<Longrightarrow> P = Q"
    and placed_status: "\<And>P t. t \<in> set (at P) \<Longrightarrow>
      st t = Some (if P = P_Ready then THREAD_READY else THREAD_BLOCKED)"
    and placed_not_idle: "\<And>P t. t \<in> set (at P) \<Longrightarrow> i \<noteq> Some t"
    and placed_ready: "\<And>t. st t = Some THREAD_READY \<Longrightarrow> t \<in> set (at P_Ready) \<or> t \<in> I"
    and placed_blocked: "\<And>t. st t = Some THREAD_BLOCKED \<Longrightarrow> (\<exists>P. t \<in> set (at P)) \<or> t \<in> I"
    and placed_running: "\<And>t. st t = Some THREAD_RUNNING \<longleftrightarrow> r = Some t"
    and placed_idle: "\<And>t. i = Some t \<Longrightarrow> t \<in> I"
    and placed_idle_status: "\<And>t. i = Some t \<Longrightarrow>
      st t \<in> {Some THREAD_RUNNING, Some THREAD_READY, Some THREAD_BLOCKED}"
    and placed_idlers: "\<And>t u. t \<in> I \<Longrightarrow> st t \<noteq> None \<and> t \<notin> set (at (P_New u))"
  using assms unfolding placed_def by blast+

lemma placedI:
  assumes "\<And>P. distinct (at P)"
    and "\<And>P Q t. t \<in> set (at P) \<Longrightarrow> t \<in> set (at Q) \<Longrightarrow> P = Q"
    and "\<And>P t. t \<in> set (at P) \<Longrightarrow>
      st t = Some (if P = P_Ready then THREAD_READY else THREAD_BLOCKED) \<and> i \<noteq> Some t"
    and "\<And>t. st t = Some THREAD_READY \<Longrightarrow> t \<notin> I \<Longrightarrow> t \<in> set (at P_Ready)"
    and "\<And>t. st t = Some THREAD_BLOCKED \<Longrightarrow> t \<notin> I \<Longrightarrow> \<exists>P. t \<in> set (at P)"
    and "\<And>t. st t = Some THREAD_RUNNING \<longleftrightarrow> r = Some t"
    and "\<And>t. i = Some t \<Longrightarrow>
      t \<in> I \<and> st t \<in> {Some THREAD_RUNNING, Some THREAD_READY, Some THREAD_BLOCKED}"
    and "\<And>t u. t \<in> I \<Longrightarrow> st t \<noteq> None \<and> t \<notin> set (at (P_New u))"
  shows "placed at st i I r"
  unfolding placed_def using assms by blast

lemma placed_running_nowhere: "placed at st i I (Some c) \<Longrightarrow> c \<notin> set (at P)"
  using placed_status[of at st i I "Some c" c P] placed_running[of at st i I "Some c" c]
  by (auto split: if_splits)

lemma placed_queue_change:
  assumes "placed at st i I r" and "\<And>P. mset (at' P) = mset (at P)"
  shows "placed at' st i I r"
proof -
  have S: "set (at' P) = set (at P)" for P using assms(2) by (rule mset_eq_setD)
  have D: "distinct (at' P) \<longleftrightarrow> distinct (at P)" for P
    using assms(2) by (rule mset_eq_imp_distinct_iff)
  show ?thesis using assms(1) unfolding placed_def S D .
qed

lemma mset_add_facts:
  assumes "mset xs = add_mset c (mset ys)"
  shows "set xs = insert c (set ys)" and "distinct xs \<longleftrightarrow> c \<notin> set ys \<and> distinct ys"
proof -
  have "mset xs = mset (c # ys)" using assms by simp
  then show "set xs = insert c (set ys)" and "distinct xs \<longleftrightarrow> c \<notin> set ys \<and> distinct ys"
    using mset_eq_setD[of xs "c # ys"] mset_eq_imp_distinct_iff[of xs "c # ys"] by simp_all
qed

text \<open>
  A thread that is nowhere is added to a queue and gets the status of the queue: what the
  blocking, the yielding and the creation of a thread have in common.
\<close>

lemma placed_add:
  assumes p: "placed at st i I r" and nowhere: "\<And>Q. c \<notin> set (at Q)" and i: "i \<noteq> Some c"
    and I: "c \<in> I \<Longrightarrow> \<forall>u. P \<noteq> P_New u"
    and xs: "mset xs = add_mset c (mset (at P))"
    and r': "r' = (if r = Some c then None else r)"
  shows "placed (at(P := xs))
     (st(c \<mapsto> if P = P_Ready then THREAD_READY else THREAD_BLOCKED)) i I r'"
proof -
  define at' where "at' = at(P := xs)"
  have mem: "t \<in> set (at' Q) \<longleftrightarrow> t \<in> set (at Q) \<or> Q = P \<and> t = c" for Q t
    using mset_add_facts[OF xs] by (auto simp: at'_def)
  have dist: "distinct (at' Q)" for Q
    using mset_add_facts[OF xs] placed_distinct[OF p] nowhere by (simp add: at'_def)
  have "placed at' (st(c \<mapsto> if P = P_Ready then THREAD_READY else THREAD_BLOCKED)) i I r'"
  proof (rule placedI, goal_cases)
    case 1 show ?case by (rule dist)
  next
    case (2 Q R x) then show ?case
      using mem[of x Q] mem[of x R] nowhere[of Q] nowhere[of R] placed_unique[OF p, of x Q R] by auto
  next
    case (3 Q x)
    then show ?case
      using mem[of x Q] nowhere[of Q] i placed_status[OF p, of x Q] placed_not_idle[OF p, of x Q]
      by auto
  next
    case (4 x) then show ?case
      using mem[of x P_Ready] placed_ready[OF p, of x] by (auto split: if_splits)
  next
    case (5 x)
    then have "x = c \<or> st x = Some THREAD_BLOCKED" by (auto split: if_splits)
    then show ?case using 5(2) mem[of x] placed_blocked[OF p, of x] by blast
  next
    case (6 x) then show ?case using r' placed_running[OF p, of x] by (auto split: if_splits)
  next
    case (7 x) then show ?case
      using i placed_idle[OF p, of x] placed_idle_status[OF p, of x] by auto
  next
    case (8 x u) then show ?case using mem[of x "P_New u"] I placed_idlers[OF p, of x u] by auto
  qed
  then show ?thesis by (simp add: at'_def)
qed

lemma placed_block:
  assumes p: "placed at st i I (Some c)" and "i \<noteq> Some c" and "P \<noteq> P_Ready" and "\<forall>u. P \<noteq> P_New u"
    and xs: "mset xs = add_mset c (mset (at P))"
  shows "placed (at(P := xs)) (st(c \<mapsto> THREAD_BLOCKED)) i I None"
  using placed_add[OF p placed_running_nowhere[OF p] assms(2) _ xs, of None] assms(3,4) by simp

lemma placed_yield:
  assumes p: "placed at st i I (Some c)" and "i \<noteq> Some c"
    and xs: "mset xs = add_mset c (mset (at P_Ready))"
  shows "placed (at(P_Ready := xs)) (st(c \<mapsto> THREAD_READY)) i I None"
  using placed_add[OF p placed_running_nowhere[OF p] assms(2) _ xs, of None] by simp

lemma placed_create:
  assumes p: "placed at st i I r" and t: "st t = None" and P: "P = P_New u"
    and xs: "mset xs = add_mset t (mset (at P))"
  shows "placed (at(P := xs)) (st(t \<mapsto> THREAD_BLOCKED)) i I r"
proof -
  have "t \<notin> set (at Q)" for Q using placed_status[OF p, of t Q] t by auto
  moreover have "t \<notin> I" using placed_idlers[OF p, of t] t by blast
  moreover have "i \<noteq> Some t" using placed_idle[OF p, of t] \<open>t \<notin> I\<close> by blast
  moreover have "r \<noteq> Some t" using placed_running[OF p, of t] t by auto
  ultimately show ?thesis using placed_add[OF p, of t P xs r] P xs by simp
qed

text \<open>The running thread stops without entering a queue: the idle loop, or the end of a thread.\<close>

lemma placed_stop:
  assumes p: "placed at st i I (Some c)"
    and s: "s \<in> {THREAD_READY, THREAD_BLOCKED} \<and> c \<in> I \<or> s = THREAD_DYING \<and> i \<noteq> Some c"
  shows "placed at (st(c \<mapsto> s)) i I None"
proof (rule placedI, goal_cases)
  case 1 show ?case using p by (rule placed_distinct)
next
  case 2 then show ?case using placed_unique[OF p] by blast
next
  case 3 then show ?case
    using placed_running_nowhere[OF p] placed_status[OF p] placed_not_idle[OF p] by auto
next
  case 4 then show ?case using placed_ready[OF p] s by (auto split: if_splits)
next
  case 5 then show ?case using placed_blocked[OF p] s by (auto split: if_splits)
next
  case 6 then show ?case using placed_running[OF p] s by auto
next
  case 7 then show ?case using placed_idle[OF p] placed_idle_status[OF p] s by auto
next
  case 8 then show ?case using placed_idlers[OF p] by auto
qed

lemma placed_reap:
  assumes p: "placed at st i I r" and c: "st c = Some THREAD_DYING" "c \<notin> I"
  shows "placed at (st(c := None)) i I r"
proof (rule placedI, goal_cases)
  case 1 show ?case using p by (rule placed_distinct)
next
  case 2 then show ?case using placed_unique[OF p] by blast
next
  case (3 P t) then show ?case
    using placed_status[OF p, of t P] placed_not_idle[OF p, of t P] c by (auto split: if_splits)
next
  case 4 then show ?case using placed_ready[OF p] by (auto split: if_splits)
next
  case 5 then show ?case using placed_blocked[OF p] by (auto split: if_splits)
next
  case (6 t) then show ?case using placed_running[OF p, of t] c by (cases "t = c") auto
next
  case (7 t) then show ?case
    using placed_idle[OF p, of t] placed_idle_status[OF p, of t] c by auto
next
  case 8 then show ?case using placed_idlers[OF p] c by auto
qed

text \<open>A thread is woken: it leaves its wait queue for the ready list.\<close>

lemma placed_wake:
  assumes p: "placed at st i I r" and P: "P \<noteq> P_Ready"
    and ys: "mset (at P) = add_mset t (mset ys)"
    and xs: "mset xs = add_mset t (mset (at P_Ready))"
  shows "placed (at(P := ys, P_Ready := xs)) (st(t \<mapsto> THREAD_READY)) i I r"
proof -
  define at' where "at' = at(P := ys, P_Ready := xs)"
  note at_P = mset_add_facts[OF ys] and at_R = mset_add_facts[OF xs]
  have t: "t \<in> set (at P)" using at_P by simp
  have only: "t \<in> set (at Q) \<Longrightarrow> Q = P" for Q using placed_unique[OF p _ t] .
  have st: "st t = Some THREAD_BLOCKED" using placed_status[OF p t] P by simp
  have ys_t: "t \<notin> set ys" using at_P placed_distinct[OF p, of P] by simp
  have mem: "x \<in> set (at' Q) \<longleftrightarrow> x \<in> set (at Q) \<and> x \<noteq> t \<or> Q = P_Ready \<and> x = t" for Q x
  proof (cases "Q = P_Ready \<or> Q = P")
    case True
    have "t \<notin> set (at P_Ready)" using only[of P_Ready] P by blast
    then show ?thesis using True at_P(1) at_R(1) P ys_t unfolding at'_def by auto
  next
    case False
    then have "t \<notin> set (at Q)" using only[of Q] by blast
    then show ?thesis using False unfolding at'_def by auto
  qed
  have dist: "distinct (at' Q)" for Q
    using at_P(2) at_R(2) placed_distinct[OF p, of P] placed_distinct[OF p, of P_Ready]
      placed_distinct[OF p, of Q] only[of P_Ready] P by (simp add: at'_def) blast
  have "placed at' (st(t \<mapsto> THREAD_READY)) i I r"
  proof (rule placedI, goal_cases)
    case 1 show ?case by (rule dist)
  next
    case (2 Q R x) then show ?case
      using mem[of x Q] mem[of x R] placed_unique[OF p, of x Q R] by auto
  next
    case (3 Q x) then show ?case
      using mem[of x Q] placed_status[OF p, of x Q] placed_not_idle[OF p, of x Q]
        placed_not_idle[OF p t] by auto
  next
    case (4 x) then show ?case
      using mem[of x P_Ready] placed_ready[OF p, of x] by (auto split: if_splits)
  next
    case (5 x)
    then have "x \<noteq> t" and "st x = Some THREAD_BLOCKED" by (auto split: if_splits)
    then show ?case using 5(2) mem[of x] placed_blocked[OF p, of x] by blast
  next
    case (6 x) then show ?case using placed_running[OF p, of x] st by auto
  next
    case (7 x) then show ?case using placed_idle[OF p, of x] placed_idle_status[OF p, of x] by auto
  next
    case (8 x u) then show ?case using mem[of x "P_New u"] placed_idlers[OF p, of x u] by auto
  qed
  then show ?thesis by (simp add: at'_def)
qed

text \<open>The scheduler takes the next thread.\<close>

lemma placed_pick:
  assumes p: "placed at st i I None" and R: "at P_Ready = n # ts"
  shows "placed (at(P_Ready := ts)) (st(n \<mapsto> THREAD_RUNNING)) i I (Some n)"
proof -
  define at' where "at' = at(P_Ready := ts)"
  have n: "n \<in> set (at P_Ready)" using R by simp
  have only: "n \<in> set (at Q) \<Longrightarrow> Q = P_Ready" for Q using placed_unique[OF p _ n] .
  have d: "n \<notin> set ts" "distinct ts" using placed_distinct[OF p, of P_Ready] R by simp_all
  have mem: "x \<in> set (at' Q) \<longleftrightarrow> x \<in> set (at Q) \<and> x \<noteq> n" for Q x
    using R d only[of Q] by (auto simp: at'_def)
  have dist: "distinct (at' Q)" for Q using placed_distinct[OF p] d by (simp add: at'_def)
  have "placed at' (st(n \<mapsto> THREAD_RUNNING)) i I (Some n)"
  proof (rule placedI, goal_cases)
    case 1 show ?case by (rule dist)
  next
    case (2 Q R x) then show ?case
      using mem[of x Q] mem[of x R] placed_unique[OF p, of x Q R] by auto
  next
    case (3 Q x) then show ?case
      using mem[of x Q] placed_status[OF p, of x Q] placed_not_idle[OF p, of x Q] by auto
  next
    case (4 x) then show ?case
      using mem[of x P_Ready] placed_ready[OF p, of x] by (auto split: if_splits)
  next
    case (5 x)
    then have "x \<noteq> n" and "st x = Some THREAD_BLOCKED" by (auto split: if_splits)
    then show ?case using 5(2) mem[of x] placed_blocked[OF p, of x] by blast
  next
    case (6 x) then show ?case using placed_running[OF p, of x] by auto
  next
    case (7 x) then show ?case using placed_idle[OF p, of x] placed_idle_status[OF p, of x] by auto
  next
    case (8 x u) then show ?case using mem[of x "P_New u"] placed_idlers[OF p, of x u] by auto
  qed
  then show ?thesis by (simp add: at'_def)
qed

lemma placed_pick_idle:
  assumes p: "placed at st i I None" and i: "i = Some n"
  shows "placed at (st(n \<mapsto> THREAD_RUNNING)) i I (Some n)"
proof (rule placedI, goal_cases)
  case 1 show ?case using p by (rule placed_distinct)
next
  case 2 then show ?case using placed_unique[OF p] by blast
next
  case (3 P t) then show ?case using placed_status[OF p, of t P] placed_not_idle[OF p, of t P] i by auto
next
  case (4 t) then show ?case using placed_ready[OF p, of t] by (auto split: if_splits)
next
  case (5 t) then show ?case using placed_blocked[OF p, of t] by (auto split: if_splits)
next
  case (6 t) then show ?case using placed_running[OF p, of t] by auto
next
  case (7 t) then show ?case using placed_idle[OF p, of t] placed_idle_status[OF p, of t] by auto
next
  case 8 then show ?case using placed_idlers[OF p] by auto
qed

text \<open>The running thread becomes the idle thread.\<close>

lemma placed_set_idle:
  assumes p: "placed at st i I (Some c)" and c: "c \<in> I"
  shows "placed at st (Some c) I (Some c)"
proof (rule placedI, goal_cases)
  case (3 P t) then show ?case
    using placed_status[OF p, of t P] placed_running_nowhere[OF p] by auto
next
  case (7 t) then show ?case using placed_running[OF p, of t] c by auto
qed (use p c placedD[OF p] in blast)+

lemma placed_idle_set:
  assumes p: "placed at st i I r" and I: "I \<subseteq> J"
    and J: "\<And>t. t \<in> J \<Longrightarrow> t \<in> I \<or> (st t \<noteq> None \<and> (\<forall>u. t \<notin> set (at (P_New u))))"
  shows "placed at st i J r"
proof (rule placedI, goal_cases)
  case (3 P t) then show ?case using placed_status[OF p, of t P] placed_not_idle[OF p, of t P] by auto
next
  case (7 t) then show ?case using placed_idle[OF p, of t] placed_idle_status[OF p, of t] I by auto
next
  case (8 t u) then show ?case using placed_idlers[OF p, of t u] J[of t] by auto
qed (use p I placedD[OF p] in blast)+

end
