(* ===== verification/Kernel_Wf.thy ===== *)
theory Kernel_Wf
  imports Kernel_Step Placement
begin

text \<open>
  The structural invariant of the Lab 2 kernel: the queues hold every thread that is ready or
  blocked exactly once (\<open>placed\<close> on the kernel's own lists), the running thread is the only
  one that is running, no structure is overwritten, and the semaphores on the stack of a thread
  are used by this thread only. Every step of the machine keeps it.
\<close>

section \<open>The queues of a kernel\<close>

definition new_thread :: "frame \<Rightarrow> tptr list" where
  "new_thread f = (case f of Thread_Create (TC_Ready t func) \<Rightarrow> [t] | _ \<Rightarrow> [])"

definition new_threads :: "frame list \<Rightarrow> tptr list" where
  "new_threads fs = concat (map new_thread fs)"

definition sema_queue :: "kernel \<Rightarrow> semref \<Rightarrow> tptr list" where
  "sema_queue k s = (case sems k s of None \<Rightarrow> [] | Some sm \<Rightarrow> waiters sm)"

fun at_place :: "kernel \<Rightarrow> place \<Rightarrow> tptr list" where
  "at_place k P_Ready = ready_list k"
| "at_place k (P_Sema s) = sema_queue k s"
| "at_place k P_Sleep = thread_list k"
| "at_place k (P_New u) = new_threads (frames k u)"

lemma new_threads_simps [simp]:
  "new_threads [] = []"
  "new_threads (f # fs) = new_thread f @ new_threads fs"
  "new_threads (fs @ gs) = new_threads fs @ new_threads gs"
  by (simp_all add: new_threads_def)

section \<open>The idle loop\<close>

definition idle_call :: "frame \<Rightarrow> bool" where
  "idle_call f =
     (case f of Thread_Yield \<Rightarrow> True | Intr_Set_Level _ \<Rightarrow> True | Set_Priority _ \<Rightarrow> True
              | Sema_Up _ _ \<Rightarrow> True | _ \<Rightarrow> False)"

definition idle_body :: "frame \<Rightarrow> bool" where
  "idle_body f = (case f of Idle_At _ \<Rightarrow> True | _ \<Rightarrow> False)"

text \<open>Calls the idle loop makes on top of the idle loop itself.\<close>

fun idle_stack :: "frame list \<Rightarrow> bool" where
  "idle_stack [] = False"
| "idle_stack (f # fs) = (idle_body f \<or> idle_call f \<and> idle_stack fs)"

definition idlers :: "kernel \<Rightarrow> tptr set" where
  "idlers k = {t. idle_stack (frames k t)}"

section \<open>The invariant\<close>

definition frame_ok :: "tptr \<Rightarrow> tptr \<Rightarrow> frame \<Rightarrow> bool" where
  "frame_ok i u f =
     (case f of
        Sema_Down p s \<Rightarrow> (case s of Waiter t \<Rightarrow> t = u | Idle_Started \<Rightarrow> u = i | _ \<Rightarrow> True)
      | Thread_Start p \<Rightarrow> u = i
      | _ \<Rightarrow> True)"

text \<open>
  The body of a thread is the bottom of its stack: below it no creation of a thread is in
  progress. The page of a thread that does not run yet has no stack.
\<close>

definition base_frame :: "frame \<Rightarrow> bool" where
  "base_frame f =
     (case f of Kernel_Thread _ \<Rightarrow> True | Client_Body \<Rightarrow> True | Thread_Exit \<Rightarrow> True | _ \<Rightarrow> False)"

fun base_ok :: "frame list \<Rightarrow> bool" where
  "base_ok [] = True"
| "base_ok (f # fs) = ((base_frame f \<longrightarrow> new_threads fs = []) \<and> base_ok fs)"

definition frames_ok :: "kernel \<Rightarrow> bool" where
  "frames_ok k \<longleftrightarrow>
     (\<forall>u. list_all (frame_ok (initial_thread k) u) (frames k u) \<and> base_ok (frames k u))"

definition fresh_ok :: "kernel \<Rightarrow> bool" where
  "fresh_ok k \<longleftrightarrow>
     (\<forall>t. state_of k t = None \<or> (\<exists>u. t \<in> set (new_threads (frames k u))) \<longrightarrow> frames k t = [])"

definition magic_ok :: "kernel \<Rightarrow> bool" where
  "magic_ok k \<longleftrightarrow> (\<forall>t th. threads k t = Some th \<longrightarrow> magic th = THREAD_MAGIC)"

definition local_ok :: "kernel \<Rightarrow> bool" where
  "local_ok k \<longleftrightarrow>
     (\<forall>t. set (sema_queue k (Waiter t)) \<subseteq> {t}) \<and> set (sema_queue k Idle_Started) \<subseteq> {initial_thread k}"

definition core :: "tptr set \<Rightarrow> kernel \<Rightarrow> tptr option \<Rightarrow> bool" where
  "core I k r \<longleftrightarrow>
     placed (at_place k) (state_of k) (idle_thread k) I r \<and> magic_ok k \<and> frames_ok k \<and>
     local_ok k \<and> fresh_ok k"

definition wf_kernel :: "kernel \<Rightarrow> bool" where
  "wf_kernel k \<longleftrightarrow> core (idlers k) k (Some (cur k))"

lemma coreD:
  assumes "core I k r"
  shows core_placed: "placed (at_place k) (state_of k) (idle_thread k) I r"
    and core_magic: "magic_ok k" and core_frames: "frames_ok k" and core_local: "local_ok k"
    and core_fresh: "fresh_ok k"
  using assms by (simp_all add: core_def)

section \<open>Changes that keep it\<close>

text \<open>\<open>same\<close>: nothing the invariant reads has changed.\<close>

definition same :: "kernel \<Rightarrow> kernel \<Rightarrow> bool" where
  "same k k' \<longleftrightarrow>
     ready_list k' = ready_list k \<and> thread_list k' = thread_list k \<and>
     sema_queue k' = sema_queue k \<and> frames k' = frames k \<and> idle_thread k' = idle_thread k \<and>
     initial_thread k' = initial_thread k \<and> state_of k' = state_of k \<and> cur k' = cur k \<and>
     (magic_ok k \<longrightarrow> magic_ok k')"

lemma at_place_cong:
  assumes "ready_list k' = ready_list k" and "thread_list k' = thread_list k"
    and "sema_queue k' = sema_queue k" and "frames k' = frames k"
  shows "at_place k' = at_place k"
proof
  fix P show "at_place k' P = at_place k P" using assms by (cases P) simp_all
qed

lemma core_same: "same k k' \<Longrightarrow> core I k r \<Longrightarrow> core I k' r"
  using at_place_cong[of k' k] by (simp add: same_def core_def frames_ok_def local_ok_def fresh_ok_def)

lemma same_refl [simp]: "same k k"
  by (simp add: same_def)

lemma same_trans: "same k k1 \<Longrightarrow> same k1 k2 \<Longrightarrow> same k k2"
  by (simp add: same_def)

lemma same_upd_thread:
  assumes "\<And>th. status (f th) = status th" and "\<And>th. magic (f th) = magic th"
  shows "same k (upd_thread t f k)"
proof -
  have "state_of (upd_thread t f k) = state_of k"
    using assms by (simp add: fun_eq_iff state_of_upd_thread comp_def) (simp add: state_of_def)
  moreover have "magic_ok k \<longrightarrow> magic_ok (upd_thread t f k)"
    using assms by (auto simp: magic_ok_def threads_upd_thread)
  ultimately show ?thesis by (simp add: same_def frame_simps sema_queue_def fun_eq_iff)
qed

lemma same_fields:
  "same k (k\<lparr>intr_on := b\<rparr>)" "same k (k\<lparr>next_tid := n\<rparr>)" "same k (k\<lparr>thread_ticks := w\<rparr>)"
  "same k (k\<lparr>idle_ticks := n\<rparr>)" "same k (k\<lparr>kernel_ticks := n\<rparr>)" "same k (k\<lparr>ticks := n\<rparr>)"
  "same k (k\<lparr>intr_context := b\<rparr>)" "same k (k\<lparr>yield_on_return := b\<rparr>)"
  "same k (k\<lparr>all_list := ts\<rparr>)" "same k (put_lock l lk k)" "same k (put_condvar c cv k)"
  by (simp_all add: same_def sema_queue_def state_of_def magic_ok_def fun_eq_iff frame_simps)

lemma sema_queue_put: "sema_queue (put_sema s sm k) = (sema_queue k)(s := waiters sm)"
  by (simp add: sema_queue_def fun_eq_iff sems_put_sema)

lemma same_put_sema: "waiters sm = sema_queue k s \<Longrightarrow> same k (put_sema s sm k)"
  by (auto simp: same_def sema_queue_put frame_simps state_of_def magic_ok_def)

lemma same_delete_sema: "sema_queue k s = [] \<Longrightarrow> same k (k\<lparr>sems := (sems k)(s := None)\<rparr>)"
  by (auto simp: same_def sema_queue_def fun_eq_iff state_of_def magic_ok_def)

lemma at_place_put_sema:
  "at_place (put_sema s sm k) = (at_place k)(P_Sema s := waiters sm)"
proof
  fix P show "at_place (put_sema s sm k) P = ((at_place k)(P_Sema s := waiters sm)) P"
    by (cases P) (simp_all add: frame_simps sema_queue_put)
qed

text \<open>The running thread exists and has the running status.\<close>

lemma core_running:
  assumes "core I k (Some c)"
  shows "\<exists>th. threads k c = Some th \<and> status th = THREAD_RUNNING \<and> magic th = THREAD_MAGIC"
  using placed_running[OF core_placed[OF assms], of c] core_magic[OF assms]
  by (auto simp: state_of_def magic_ok_def)

lemma base_ok_append: "list_all (\<lambda>f. \<not> base_frame f) us \<Longrightarrow> base_ok (us @ fs) = base_ok fs"
  by (induction us) auto

lemma at_place_push: "new_threads us = [] \<Longrightarrow> at_place (push us k) = at_place k"
proof
  fix P assume "new_threads us = []"
  then show "at_place (push us k) P = at_place k P"
    by (cases P) (simp_all add: frame_simps frames_push sema_queue_def)
qed

lemma fresh_ok_push:
  assumes "fresh_ok k" and "frames k (cur k) \<noteq> [] \<or>
      state_of k (cur k) \<noteq> None \<and> (\<forall>u. cur k \<notin> set (new_threads (frames k u)))"
    and "new_threads us = []"
  shows "fresh_ok (push us k)"
  using assms unfolding fresh_ok_def by (auto simp: frame_simps frames_push)

text \<open>Calls pushed on the stack of the running thread.\<close>

lemma core_push_gen:
  assumes c: "core I k (Some (cur k))" and us: "list_all (frame_ok (initial_thread k) (cur k)) us"
    and new: "new_threads us = []" and base: "base_ok (us @ frames k (cur k))"
  shows "core I (push us k) (Some (cur k))"
proof -
  have "frames_ok (push us k)"
    using core_frames[OF c] us base by (simp add: frames_ok_def frame_simps frames_push)
  moreover have "cur k \<notin> set (new_threads (frames k u))" for u
    using placed_running_nowhere[OF core_placed[OF c], of "P_New u"] by simp
  then have "fresh_ok (push us k)"
    using fresh_ok_push[OF core_fresh[OF c] _ new] core_running[OF c] by (auto simp: state_of_def)
  ultimately show ?thesis
    using c at_place_push[OF new]
    by (simp add: core_def frame_simps magic_ok_def local_ok_def sema_queue_def)
qed

definition plain :: "tptr \<Rightarrow> tptr \<Rightarrow> frame \<Rightarrow> bool" where
  "plain i c f \<longleftrightarrow> frame_ok i c f \<and> \<not> base_frame f \<and> new_thread f = []"

lemma core_push:
  assumes c: "core I k (Some (cur k))" and us: "list_all (plain (initial_thread k) (cur k)) us"
  shows "core I (push us k) (Some (cur k))"
proof (rule core_push_gen[OF c])
  show "list_all (frame_ok (initial_thread k) (cur k)) us"
    using us by (rule list.pred_mono_strong) (simp add: plain_def)
  show "new_threads us = []" using us by (induction us) (auto simp: plain_def)
  have "list_all (\<lambda>f. \<not> base_frame f) us"
    using us by (rule list.pred_mono_strong) (simp add: plain_def)
  then show "base_ok (us @ frames k (cur k))"
    using core_frames[OF c] by (simp add: base_ok_append frames_ok_def)
qed

lemma state_of_set_status:
  "threads k t \<noteq> None \<Longrightarrow>
     state_of (upd_thread t (\<lambda>th. th\<lparr>status := s\<rparr>) k) = (state_of k)(t \<mapsto> s)"
  by (auto simp: fun_eq_iff state_of_upd_thread)

lemma magic_ok_upd:
  "magic_ok k \<Longrightarrow> (\<And>th. magic (f th) = magic th) \<Longrightarrow> magic_ok (upd_thread t f k)"
  by (auto simp: magic_ok_def threads_upd_thread)

lemma at_place_upd_thread [simp]: "at_place (upd_thread t f k) = at_place k"
  by (rule at_place_cong) (simp_all add: frame_simps sema_queue_def fun_eq_iff)

lemma frames_local_upd_thread:
  "frames_ok (upd_thread t f k) = frames_ok k" "local_ok (upd_thread t f k) = local_ok k"
  "fresh_ok (upd_thread t f k) = fresh_ok k"
proof -
  have "state_of (upd_thread t f k) x = None \<longleftrightarrow> state_of k x = None" for x
    by (simp add: state_of_def threads_upd_thread)
  then show "fresh_ok (upd_thread t f k) = fresh_ok k" by (simp add: fresh_ok_def frame_simps)
qed (simp_all add: frames_ok_def local_ok_def frame_simps sema_queue_def)

lemma core_set_status:
  assumes "core I k r" and "threads k t \<noteq> None"
    and "placed (at_place k) ((state_of k)(t \<mapsto> s)) (idle_thread k) I r'"
  shows "core I (upd_thread t (\<lambda>th. th\<lparr>status := s\<rparr>) k) r'"
  using assms by (simp add: core_def state_of_set_status magic_ok_upd frames_local_upd_thread frame_simps)

lemma thread_current_core:
  "core I k (Some (cur k)) \<Longrightarrow> \<exists>th. threads k (cur k) = Some th \<and> thread_current k = Inr th"
  using core_running[of I k "cur k"]
  by (auto simp: thread_current_def is_thread_def get_thread_def)

lemma thread_current_Inr_iff [res_simps]:
  "thread_current k = Inr th \<longleftrightarrow>
     threads k (cur k) = Some th \<and> magic th = THREAD_MAGIC \<and> status th = THREAD_RUNNING"
  by (auto simp: thread_current_def is_thread_def res_simps split: option.splits)

end
