(* ===== verification/Kernel_Moves.thy ===== *)
theory Kernel_Moves
  imports Kernel_Wf
begin

text \<open>
  The operations that move threads between queues, each shown to carry out its move of
  \<open>Placement\<close>: \<open>schedule\<close>, \<open>thread_block\<close>, \<open>thread_yield\<close>, \<open>thread_exit\<close>
  and \<open>thread_unblock\<close>.
\<close>

section \<open>The scheduler\<close>

lemma at_place_eqI:
  assumes "ready_list k' = f P_Ready" and "thread_list k' = f P_Sleep"
    and "\<And>s. sema_queue k' s = f (P_Sema s)" and "\<And>u. new_threads (frames k' u) = f (P_New u)"
  shows "at_place k' = f"
proof
  fix P show "at_place k' P = f P" using assms by (cases P) simp_all
qed

lemma reap_core:
  assumes c: "core I k r" and p: "state_of k p = Some THREAD_DYING" "p \<notin> I"
    and new: "new_threads (frames k p) = []"
  shows "core I (palloc_free_page p k) r"
proof -
  let ?k = "palloc_free_page p k"
  have S: "state_of ?k = (state_of k)(p := None)"
    by (simp add: palloc_free_page_def state_of_def fun_eq_iff)
  have A: "at_place ?k = at_place k"
    by (rule at_place_eqI) (simp_all add: palloc_free_page_def sema_queue_def new)
  have "magic_ok ?k" using core_magic[OF c] by (simp add: magic_ok_def palloc_free_page_def)
  moreover have "frames_ok ?k" using core_frames[OF c] by (simp add: frames_ok_def palloc_free_page_def)
  moreover have "local_ok ?k"
    using core_local[OF c] by (simp add: local_ok_def palloc_free_page_def sema_queue_def)
  moreover have "fresh_ok ?k"
    using core_fresh[OF c]
    by (auto simp: fresh_ok_def S) (auto simp: palloc_free_page_def split: if_splits)
  moreover have "idle_thread ?k = idle_thread k" by (simp add: palloc_free_page_def)
  ultimately show ?thesis
    using placed_reap[OF core_placed[OF c] p] A S by (simp add: core_def)
qed

text \<open>What a switch leaves alone.\<close>

definition switched :: "kernel \<Rightarrow> kernel \<Rightarrow> bool" where
  "switched k k' \<longleftrightarrow>
     sems k' = sems k \<and> locks k' = locks k \<and> condvars k' = condvars k \<and>
     thread_list k' = thread_list k \<and> idle_thread k' = idle_thread k \<and>
     initial_thread k' = initial_thread k \<and> intr_on k' = intr_on k \<and>
     next_tid k' = next_tid k \<and> ticks k' = ticks k \<and> intr_context k' = intr_context k \<and>
     (\<forall>t. frames k' t = frames k t \<or>
          t = cur k \<and> state_of k t = Some THREAD_DYING \<and> frames k' t = [])"

lemma tail_core:
  assumes c: "core I k (Some (cur k))" and run: "state_of k (cur k) \<noteq> Some THREAD_DYING"
    and p: "\<And>p. prev = Some p \<Longrightarrow> state_of k p = Some THREAD_DYING \<Longrightarrow>
      p \<notin> I \<and> new_threads (frames k p) = []"
    and tail: "thread_schedule_tail prev k0 = Inr k'"
    and k: "k = upd_thread (cur k0) (\<lambda>th. th\<lparr>status := THREAD_RUNNING\<rparr>) k0"
  shows "core I k' (Some (cur k')) \<and> cur k' = cur k \<and>
     (\<forall>t. frames k' t = frames k t \<or>
          prev = Some t \<and> state_of k t = Some THREAD_DYING \<and> frames k' t = []) \<and>
     ready_list k' = ready_list k \<and> sems k' = sems k \<and> locks k' = locks k \<and>
     condvars k' = condvars k \<and> thread_list k' = thread_list k \<and>
     idle_thread k' = idle_thread k \<and> initial_thread k' = initial_thread k \<and>
     intr_on k' = intr_on k \<and> next_tid k' = next_tid k \<and> ticks k' = ticks k \<and>
     intr_context k' = intr_context k"
proof -
  let ?k = "k\<lparr>thread_ticks := 0\<rparr>"
  have c': "core I ?k (Some (cur k))" using core_same[OF same_fields(3) c] .
  have st: "state_of ?k = state_of k" by (simp add: state_of_def fun_eq_iff)
  show ?thesis
  proof (cases "\<exists>p. prev = Some p \<and> state_of k p = Some THREAD_DYING \<and> p \<noteq> initial_thread k")
    case True
    then obtain p' where p': "prev = Some p'" "state_of k p' = Some THREAD_DYING"
      "p' \<noteq> initial_thread k" by blast
    have k': "k' = palloc_free_page p' ?k"
      using tail p' unfolding thread_schedule_tail_def k[symmetric]
      by (auto simp: Let_def res_simps st)
    have "core I k' (Some (cur k))"
      unfolding k' using reap_core[OF c', of p'] p[OF p'(1,2)] p'(2) st by simp
    then show ?thesis using p' unfolding k' by (simp add: palloc_free_page_def)
  next
    case False
    then have "k' = ?k"
      using tail unfolding thread_schedule_tail_def k[symmetric]
      by (auto simp: Let_def res_simps st split: option.splits if_splits)
    with c' show ?thesis by simp
  qed
qed

lemma schedule_core:
  assumes c: "core I k None"
    and d: "state_of k (cur k) = Some THREAD_DYING \<Longrightarrow>
      cur k \<notin> I \<and> new_threads (frames k (cur k)) = []"
    and s: "schedule k = Inr k'"
  shows "core I k' (Some (cur k')) \<and> switched k k' \<and>
     (case ready_list k of [] \<Rightarrow> idle_thread k = Some (cur k') \<and> ready_list k' = []
        | n # ts \<Rightarrow> cur k' = n \<and> ready_list k' = ts)"
proof -
  define R where "R = (case ready_list k of [] \<Rightarrow> [] | n # ts \<Rightarrow> ts)"
  define k1 where "k1 = k\<lparr>ready_list := R\<rparr>"
  define W where "W = (case ready_list k of [] \<Rightarrow> idle_thread k | n # ts \<Rightarrow> Some n)"
  have nxt: "next_thread_to_run k = (W, k1)"
    by (cases "ready_list k") (simp_all add: next_thread_to_run_def W_def k1_def R_def)
  have cur1: "cur k1 = cur k" by (simp add: k1_def)
  have self: "k1\<lparr>cur := cur k\<rparr> = k1" by (simp add: k1_def)
  obtain n where W: "W = Some n" and live: "is_thread (Some n) k1" and tail:
    "thread_schedule_tail (if cur k \<noteq> n then Some (cur k) else None) (k1\<lparr>cur := n\<rparr>) = Inr k'"
    using s unfolding schedule_def nxt
    by (cases W) (auto simp: res_simps cur1 self split: if_splits)
  have which: "case ready_list k of [] \<Rightarrow> idle_thread k = Some n | m # ts \<Rightarrow> n = m"
    using W by (simp add: W_def split: list.splits)
  define k2 where "k2 = upd_thread n (\<lambda>th. th\<lparr>status := THREAD_RUNNING\<rparr>) (k1\<lparr>cur := n\<rparr>)"
  have P: "placed ((at_place k)(P_Ready := R)) ((state_of k)(n \<mapsto> THREAD_RUNNING))
      (idle_thread k) I (Some n)"
  proof (cases "ready_list k")
    case Nil
    then have "(at_place k)(P_Ready := R) = at_place k" by (auto simp: R_def fun_eq_iff)
    then show ?thesis using placed_pick_idle[OF core_placed[OF c]] which Nil by simp
  next
    case (Cons m ts)
    then show ?thesis using placed_pick[OF core_placed[OF c], of m ts] which by (simp add: R_def)
  qed
  have th: "threads k n \<noteq> None"
    using live by (auto simp: is_thread_def k1_def split: option.splits)
  have "state_of (k1\<lparr>cur := n\<rparr>) = state_of k" by (simp add: state_of_def fun_eq_iff k1_def)
  then have S: "state_of k2 = (state_of k)(n \<mapsto> THREAD_RUNNING)"
    unfolding k2_def using th by (subst state_of_set_status) (simp_all add: k1_def)
  have A: "at_place k2 = (at_place k)(P_Ready := R)"
    by (rule at_place_eqI) (simp_all add: k2_def k1_def frame_simps sema_queue_def)
  have "magic_ok k2" using core_magic[OF c]
    by (auto simp: k2_def k1_def magic_ok_def threads_upd_thread)
  moreover have "frames_ok k2" "local_ok k2"
    using core_frames[OF c] core_local[OF c]
    by (simp_all add: frames_ok_def local_ok_def k2_def k1_def frame_simps sema_queue_def)
  moreover have "fresh_ok k2"
    using core_fresh[OF c] by (auto simp: fresh_ok_def S) (auto simp: k2_def k1_def frame_simps)
  ultimately have c2: "core I k2 (Some (cur k2))"
    using P A S by (simp add: core_def k2_def k1_def frame_simps)
  have cur2: "cur k2 = n" by (simp add: k2_def frame_simps)
  have F2: "frames k2 = frames k" by (simp add: k2_def k1_def frame_simps)
  have k2': "k2 = upd_thread (cur (k1\<lparr>cur := n\<rparr>)) (\<lambda>th. th\<lparr>status := THREAD_RUNNING\<rparr>) (k1\<lparr>cur := n\<rparr>)"
    by (simp add: k2_def)
  note T = tail_core[OF c2 _ _ tail k2']
  have "core I k' (Some (cur k')) \<and> cur k' = cur k2 \<and>
     (\<forall>t. frames k' t = frames k2 t \<or>
          (if cur k \<noteq> n then Some (cur k) else None) = Some t \<and> state_of k2 t = Some THREAD_DYING \<and>
          frames k' t = []) \<and>
     ready_list k' = ready_list k2 \<and> sems k' = sems k2 \<and> locks k' = locks k2 \<and>
     condvars k' = condvars k2 \<and> thread_list k' = thread_list k2 \<and>
     idle_thread k' = idle_thread k2 \<and> initial_thread k' = initial_thread k2 \<and>
     intr_on k' = intr_on k2 \<and> next_tid k' = next_tid k2 \<and> ticks k' = ticks k2 \<and>
     intr_context k' = intr_context k2"
    using d by (intro T) (auto simp: S cur2 F2 split: if_splits)
  moreover have "ready_list k2 = R" "sems k2 = sems k" "locks k2 = locks k"
    "condvars k2 = condvars k" "thread_list k2 = thread_list k" "idle_thread k2 = idle_thread k"
    "initial_thread k2 = initial_thread k" "intr_on k2 = intr_on k" "next_tid k2 = next_tid k"
    "ticks k2 = ticks k" "intr_context k2 = intr_context k"
    by (simp_all add: k2_def k1_def frame_simps)
  ultimately show ?thesis
    using which unfolding switched_def
    by (auto simp: cur2 S F2 R_def split: list.splits if_splits)
qed

end
