(* ===== verification/Kernel_Inv.thy ===== *)
theory Kernel_Inv
  imports Kernel_Moves
begin

text \<open>
  Every frame the machine executes keeps the structural invariant, hence every step does and
  every state of a run is well formed.
\<close>

section \<open>Blocking, yielding, exiting, waking\<close>

lemma thread_unblock_frame:
  assumes "thread_unblock E t k = Inr k'"
  shows "cur k' = cur k" "frames k' = frames k" "sems k' = sems k" "locks k' = locks k"
    "condvars k' = condvars k" "thread_list k' = thread_list k" "idle_thread k' = idle_thread k"
    "initial_thread k' = initial_thread k" "intr_on k' = intr_on k" "ticks k' = ticks k"
    "next_tid k' = next_tid k" "intr_context k' = intr_context k" "yield_on_return k' = yield_on_return k"
    "mset (ready_list k') = add_mset t (mset (ready_list k))"
    "state_of k' = (state_of k)(t \<mapsto> THREAD_READY)" "state_of k t = Some THREAD_BLOCKED"
    "threads k' = (threads k)(t := map_option (\<lambda>th. th\<lparr>status := THREAD_READY\<rparr>) (threads k t))"
proof -
  have k': "k' = upd_thread t (\<lambda>th. th\<lparr>status := THREAD_READY\<rparr>)
      (k\<lparr>ready_list := list_insert_ordered (lib E) (list_priority_sort k) t (ready_list k)\<rparr>)"
    and st: "state_of k t = Some THREAD_BLOCKED"
    using assms by (auto simp: thread_unblock_def res_simps Let_def)
  show "state_of k t = Some THREAD_BLOCKED" by (rule st)
  have "threads k t \<noteq> None" using st by (auto simp: state_of_def)
  then show "state_of k' = (state_of k)(t \<mapsto> THREAD_READY)"
    by (auto simp: k' state_of_def fun_eq_iff threads_upd_thread)
qed (use assms in \<open>auto simp: thread_unblock_def res_simps Let_def frame_simps threads_upd_thread\<close>)

text \<open>
  A thread taken out of a wait queue, giving \<open>k1\<close>, and woken. The frames may differ in the
  creation that is finished by waking the new thread.
\<close>

lemma unblock_core:
  assumes c: "core I k r" and P: "P \<noteq> P_Ready" and t: "mset (at_place k P) = add_mset t (mset ys)"
    and k1: "at_place k1 = (at_place k)(P := ys)" "state_of k1 = state_of k"
      "idle_thread k1 = idle_thread k" "magic_ok k1" "frames_ok k1" "local_ok k1"
    and fresh: "\<And>x. x \<noteq> t \<Longrightarrow> state_of k x = None \<or> (\<exists>u. x \<in> set (new_threads (frames k1 u)))
      \<Longrightarrow> frames k1 x = []"
    and wake: "thread_unblock E t k1 = Inr k'"
  shows "core I k' r"
proof -
  note f = thread_unblock_frame[OF wake]
  have t_in: "t \<in> set (at_place k P)" using t by (metis mset_add_facts(1) insertI1)
  have "at_place k' = (at_place k)(P := ys, P_Ready := ready_list k')"
  proof (rule at_place_eqI)
    show "new_threads (frames k' u) = ((at_place k)(P := ys, P_Ready := ready_list k')) (P_New u)" for u
      using fun_cong[OF k1(1), of "P_New u"] f(2) by simp
    show "sema_queue k' s = ((at_place k)(P := ys, P_Ready := ready_list k')) (P_Sema s)" for s
      using fun_cong[OF k1(1), of "P_Sema s"] f(3) by (simp add: sema_queue_def)
    show "thread_list k' = ((at_place k)(P := ys, P_Ready := ready_list k')) P_Sleep"
      using fun_cong[OF k1(1), of P_Sleep] f(6) by simp
  qed simp
  moreover have "mset (ready_list k') = add_mset t (mset (at_place k P_Ready))"
    using fun_cong[OF k1(1), of P_Ready] P f(14) by simp
  ultimately have "placed (at_place k') (state_of k') (idle_thread k') I r"
    using placed_wake[OF core_placed[OF c] P t, of "ready_list k'"] f(7,15) k1(2,3) by simp
  moreover have "magic_ok k'" using k1(4) f(17) by (auto simp: magic_ok_def)
  moreover have "frames_ok k'" "local_ok k'"
    using k1(5,6) f(2,3,8) by (simp_all add: frames_ok_def local_ok_def sema_queue_def)
  moreover have "fresh_ok k'"
  proof -
    have "t \<notin> set (new_threads (frames k1 u))" for u
      using fun_cong[OF k1(1), of "P_New u"] mset_add_facts[OF t] placed_distinct[OF core_placed[OF c], of P]
        placed_unique[OF core_placed[OF c], of t "P_New u" P] t_in by (auto split: if_splits)
    then show ?thesis using fresh f(2,15) k1(2) unfolding fresh_ok_def by (metis fun_upd_apply option.distinct(1))
  qed
  ultimately show ?thesis by (simp add: core_def)
qed

lemma block_core:
  assumes c: "core I k (Some (cur k))" and idle: "idle_thread k \<noteq> Some (cur k)"
    and P: "P \<noteq> P_Ready" "\<forall>u. P \<noteq> P_New u"
    and k1: "at_place k1 = (at_place k)(P := xs)" "state_of k1 = state_of k"
      "idle_thread k1 = idle_thread k" "magic_ok k1" "frames_ok k1" "local_ok k1" "fresh_ok k1"
      "cur k1 = cur k"
    and xs: "mset xs = add_mset (cur k) (mset (at_place k P))"
    and b: "thread_block k1 = Inr k'"
  shows "core I k' (Some (cur k')) \<and> switched k1 k'"
proof -
  let ?k = "upd_thread (cur k) (\<lambda>th. th\<lparr>status := THREAD_BLOCKED\<rparr>) k1"
  have "placed (at_place k1) ((state_of k1)(cur k \<mapsto> THREAD_BLOCKED)) (idle_thread k1) I None"
    using placed_block[OF core_placed[OF c] idle P xs] k1(1,2,3) by simp
  moreover obtain th where th: "threads k (cur k) = Some th" using core_running[OF c] by blast
  have live: "threads k1 (cur k) \<noteq> None"
    using th fun_cong[OF k1(2), of "cur k"] by (auto simp: state_of_def)
  ultimately have "core I ?k None"
    using k1 live
    by (simp add: core_def state_of_set_status magic_ok_upd frames_local_upd_thread frame_simps)
  moreover have "schedule ?k = Inr k'" using b k1(8) by (auto simp: thread_block_def res_simps)
  moreover have "state_of ?k (cur ?k) = Some THREAD_BLOCKED"
    using live k1(8) by (simp add: state_of_set_status frame_simps)
  ultimately have "core I k' (Some (cur k')) \<and> switched ?k k'"
    using schedule_core[of I ?k k'] by simp
  then show ?thesis
    using live k1(8) by (auto simp: switched_def frame_simps state_of_set_status split: if_splits)
qed

lemma block_idle_core:
  assumes c: "core I k (Some (cur k))" and idle: "cur k \<in> I" and b: "thread_block k = Inr k'"
  shows "core I k' (Some (cur k')) \<and> switched k k'"
proof -
  let ?k = "upd_thread (cur k) (\<lambda>th. th\<lparr>status := THREAD_BLOCKED\<rparr>) k"
  obtain th where th: "threads k (cur k) = Some th" using core_running[OF c] by blast
  have "core I ?k None"
    by (rule core_set_status[OF c]) (use th idle placed_stop[OF core_placed[OF c]] in auto)
  moreover have "schedule ?k = Inr k'" using b by (auto simp: thread_block_def res_simps)
  moreover have "state_of ?k (cur ?k) = Some THREAD_BLOCKED"
    using th by (simp add: state_of_set_status frame_simps)
  ultimately have "core I k' (Some (cur k')) \<and> switched ?k k'"
    using schedule_core[of I ?k k'] by simp
  then show ?thesis
    using th by (auto simp: switched_def frame_simps state_of_set_status split: if_splits)
qed

lemma core_requeue:
  assumes c: "core I k (Some (cur k))" and idle: "idle_thread k \<noteq> Some (cur k)"
    and xs: "mset xs = add_mset (cur k) (mset (ready_list k))"
  shows "core I (upd_thread (cur k) (\<lambda>th. th\<lparr>status := THREAD_READY\<rparr>) (k\<lparr>ready_list := xs\<rparr>)) None"
proof -
  let ?k = "k\<lparr>ready_list := xs\<rparr>"
  obtain th where th: "threads k (cur k) = Some th" using core_running[OF c] by blast
  have A: "at_place ?k = (at_place k)(P_Ready := xs)"
    by (rule at_place_eqI) (simp_all add: sema_queue_def)
  have S: "state_of ?k = state_of k" by (simp add: state_of_def fun_eq_iff)
  have "placed (at_place ?k) ((state_of ?k)(cur k \<mapsto> THREAD_READY)) (idle_thread ?k) I None"
    unfolding A S using placed_yield[OF core_placed[OF c] idle, of xs] xs by simp
  moreover have "magic_ok ?k" "frames_ok ?k" "local_ok ?k" "fresh_ok ?k"
    using coreD[OF c]
    by (simp_all add: magic_ok_def frames_ok_def local_ok_def fresh_ok_def sema_queue_def state_of_def)
  ultimately show ?thesis
    using th by (simp add: core_def state_of_set_status magic_ok_upd frames_local_upd_thread frame_simps)
qed

text \<open>\<open>thread_yield\<close>: the running thread goes to the ready list unless it is the idle thread.\<close>

lemma yield_core:
  assumes c: "core I k (Some (cur k))" and y: "thread_yield E k = Inr k'"
  shows "core I k' (Some (cur k')) \<and> switched (push [Intr_Set_Level (intr_on k)] (k\<lparr>intr_on := False\<rparr>)) k'"
proof -
  define k1 where "k1 = push [Intr_Set_Level (intr_on k)] (k\<lparr>intr_on := False\<rparr>)"
  define xs where "xs = list_insert_ordered (lib E) (list_priority_sort k1) (cur k1) (ready_list k1)"
  define k3 where "k3 = upd_thread (cur k1) (\<lambda>th. th\<lparr>status := THREAD_READY\<rparr>)
      (if Some (cur k1) \<noteq> idle_thread k1 then k1\<lparr>ready_list := xs\<rparr> else k1)"
  have s: "schedule k3 = Inr k'"
    using y unfolding thread_yield_def k3_def xs_def k1_def
    by (auto simp: res_simps Let_def frame_simps split: if_splits)
  have c0: "core I (k\<lparr>intr_on := False\<rparr>) (Some (cur (k\<lparr>intr_on := False\<rparr>)))"
    using core_same[OF same_fields(1) c] by simp
  have c1: "core I k1 (Some (cur k1))"
    using core_push[OF c0, of "[Intr_Set_Level (intr_on k)]"]
    by (simp add: plain_def frame_ok_def base_frame_def new_thread_def frame_simps k1_def)
  have live: "threads k1 (cur k1) \<noteq> None" using core_running[OF c1] by blast
  have "core I k3 None"
  proof (cases "Some (cur k1) = idle_thread k1")
    case True
    then have "cur k1 \<in> I" using placed_idle[OF core_placed[OF c1], of "cur k1"] by simp
    with live True have "core I (upd_thread (cur k1) (\<lambda>th. th\<lparr>status := THREAD_READY\<rparr>) k1) None"
      by (intro core_set_status[OF c1] placed_stop[OF core_placed[OF c1]]) auto
    then show ?thesis using True by (simp add: k3_def)
  next
    case False
    then show ?thesis using core_requeue[OF c1, of xs] by (simp add: k3_def xs_def)
  qed
  moreover have st: "state_of k3 (cur k3) = Some THREAD_READY"
    using live by (simp add: k3_def state_of_set_status frame_simps)
  ultimately have "core I k' (Some (cur k')) \<and> switched k3 k'"
    using schedule_core[OF _ _ s, of I] by simp
  moreover have "switched k3 k' \<Longrightarrow> switched k1 k'"
    using st by (auto simp: switched_def k3_def frame_simps split: if_splits)
  ultimately show ?thesis by (simp add: k1_def)
qed

lemma exit_core:
  assumes c: "core I k (Some (cur k))" and idle: "cur k \<notin> I"
    and new: "new_threads (frames k (cur k)) = []" and x: "thread_exit k = Inr k'"
  shows "core I k' (Some (cur k')) \<and>
     (\<forall>t. frames k' t = frames k t \<or> t = cur k \<and> frames k' t = [])"
proof -
  let ?k = "k\<lparr>intr_on := False, all_list := remove1 (cur k) (all_list k)\<rparr>"
  let ?k1 = "upd_thread (cur k) (\<lambda>th. th\<lparr>status := THREAD_DYING\<rparr>) ?k"
  have c1: "core I ?k (Some (cur k))"
    using core_same[OF same_fields(9) core_same[OF same_fields(1) c]] .
  obtain th where th: "threads k (cur k) = Some th" using core_running[OF c] by blast
  have "idle_thread k \<noteq> Some (cur k)" using placed_idle[OF core_placed[OF c], of "cur k"] idle by blast
  then have "core I ?k1 None"
    by (intro core_set_status[OF c1]) (use th placed_stop[OF core_placed[OF c1]] in auto)
  moreover have "schedule ?k1 = Inr k'" using x by (auto simp: thread_exit_def res_simps Let_def)
  moreover have "cur ?k1 \<notin> I \<and> new_threads (frames ?k1 (cur ?k1)) = []"
    using idle new by (simp add: frame_simps)
  ultimately have "core I k' (Some (cur k')) \<and> switched ?k1 k'"
    using schedule_core[of I ?k1 k'] by blast
  then show ?thesis by (auto simp: switched_def frame_simps)
qed

section \<open>Quiet code\<close>

text \<open>
  Most control points change no queue and no thread's status: they update other fields and
  push calls. \<open>quiet Q k k'\<close> says so; the calls pushed satisfy \<open>Q\<close>.
\<close>

definition quiet :: "(frame \<Rightarrow> bool) \<Rightarrow> kernel \<Rightarrow> kernel \<Rightarrow> bool" where
  "quiet Q k k' \<longleftrightarrow>
     (\<exists>us k1. same k k1 \<and> k' = push us k1 \<and> list_all (plain (initial_thread k) (cur k)) us \<and>
        list_all Q us)"

lemma push_Nil [simp]: "push [] k = k"
  by (simp add: push_def)

lemma quietI: "same k k' \<Longrightarrow> quiet Q k k'"
  unfolding quiet_def by (rule exI[of _ "[]"]) auto

lemma quiet_push:
  "same k k1 \<Longrightarrow> list_all (plain (initial_thread k) (cur k)) us \<Longrightarrow> list_all Q us \<Longrightarrow>
     quiet Q k (push us k1)"
  unfolding quiet_def by blast

lemma quiet_other:
  "quiet Q k k"
  "same k (upd_thread t f k1) \<Longrightarrow> quiet Q k (upd_thread t f k1)"
  "same k (put_lock l lk k1) \<Longrightarrow> quiet Q k (put_lock l lk k1)"
  by (simp_all add: quietI)

lemma quiet_core:
  assumes "quiet Q k k'" and c: "core I k (Some (cur k))"
  shows "core I k' (Some (cur k')) \<and> (\<forall>t. t \<noteq> cur k \<longrightarrow> frames k' t = frames k t) \<and>
     (\<exists>us. frames k' (cur k) = us @ frames k (cur k) \<and> list_all Q us)"
proof -
  obtain us k1 where k1: "same k k1" "k' = push us k1"
    and us: "list_all (plain (initial_thread k) (cur k)) us" "list_all Q us"
    using assms(1) unfolding quiet_def by blast
  have "cur k1 = cur k" "initial_thread k1 = initial_thread k" "frames k1 = frames k"
    using k1(1) by (simp_all add: same_def)
  then show ?thesis
    using core_push[of I k1 us] core_same[OF k1(1) c] us k1(2) by (auto simp: frames_push frame_simps)
qed

lemmas plain_simps = plain_def frame_ok_def base_frame_def new_thread_def

lemma same_upds:
  "same k k1 \<Longrightarrow> (\<And>th. status (f th) = status th) \<Longrightarrow> (\<And>th. magic (f th) = magic th) \<Longrightarrow>
     same k (upd_thread t f k1)"
  "same k k1 \<Longrightarrow> same k (put_lock l lk k1)"
  "same k k1 \<Longrightarrow> same k (put_condvar c cv k1)"
  by (blast intro: same_trans same_upd_thread same_fields)+

lemma link_p_elem_same: "link_p_elem E h t k = Inr k' \<Longrightarrow> same k k'"
  by (auto simp: link_p_elem_def res_simps intro!: same_upds split: if_splits option.splits)

lemma lock_acquire_quiet:
  assumes "lock_acquire E p l k = Inr k'" shows "quiet (\<lambda>_. True) k k'"
proof (cases p)
  case LA_Enlist
  then show ?thesis using assms
    by (auto simp: res_simps plain_simps intro!: quiet_push dest: link_p_elem_same split: option.splits)
qed (use assms in \<open>auto simp: res_simps plain_simps intro!: quiet_push quiet_other same_upds
       split: option.splits if_splits\<close>)

lemma drop_donor_same: "drop_donor E l h t k = Inr k' \<Longrightarrow> same k k'"
  by (auto simp: drop_donor_def res_simps Let_def intro!: same_upds split: if_splits)

lemma return_priority_same:
  assumes "return_priority E l h k = Inr k'" shows "same k k'"
proof -
  obtain hth :: thread and k1 f where k1: "fold_res (drop_donor E l h) (priority_list hth) k = Inr k1"
    and k': "k' = upd_thread h (\<lambda>hth. hth\<lparr>priority := f hth\<rparr>) k1"
    using assms by (rule return_priority_cases)
  have "same k k1"
    using k1 by (rule fold_res_invariant[where P = "same k"]) (auto intro: same_trans drop_donor_same)
  then show ?thesis unfolding k' by (rule same_upds) simp_all
qed

lemma lock_release_quiet:
  assumes "lock_release E p l k = Inr k'" shows "quiet (\<lambda>_. True) k k'"
  using assms
  by (cases p) (auto simp: res_simps plain_simps intro!: quiet_push same_upds
      dest: return_priority_same split: if_splits)

lemma cond_signal_quiet:
  assumes "condvar_signal E c l k = Inr k'" shows "quiet (\<lambda>_. True) k k'"
  using assms
  by (auto simp: condvar_signal_def res_simps plain_simps intro!: quiet_push quiet_other same_upds
      split: if_splits list.splits)

lemma cond_broadcast_quiet:
  assumes "condvar_broadcast c l k = Inr k'" shows "quiet (\<lambda>_. True) k k'"
  using assms
  by (auto simp: condvar_broadcast_def res_simps plain_simps intro!: quiet_push quiet_other split: if_splits)

lemma set_priority_quiet:
  assumes "thread_set_priority p k = Inr k'" shows "quiet idle_call k k'"
  using assms
  by (auto simp: thread_set_priority_def res_simps plain_simps Let_def idle_call_def
      intro!: quiet_push quiet_other same_upds split: if_splits)

lemma semaphore_up_quiet:
  assumes "semaphore_up E p s k = Inr k'" and "p \<noteq> SU_Enter" shows "quiet idle_call k k'"
  using assms
  by (cases p) (auto simp: res_simps plain_simps idle_call_def intro!: quiet_push split: if_splits)

lemma donate_to_holder_same: "donate_to_holder th k = Inr k' \<Longrightarrow> same k k'"
  by (auto simp: donate_to_holder_def res_simps intro!: same_upds split: if_splits option.splits)

end
