(* ===== verification/Kernel_Inv2.thy ===== *)
theory Kernel_Inv2
  imports Kernel_Inv
begin

text \<open>
  The structural invariant over whole steps: one lemma per frame that moves a thread, one for
  all the quiet ones, then the interrupt, the step and the run.
\<close>

section \<open>Before and after a frame\<close>

lemma pop_frame [frame_simps]:
  "cur (pop k) = cur k" "threads (pop k) = threads k" "ready_list (pop k) = ready_list k"
  "all_list (pop k) = all_list k" "idle_thread (pop k) = idle_thread k"
  "initial_thread (pop k) = initial_thread k" "sems (pop k) = sems k" "locks (pop k) = locks k"
  "condvars (pop k) = condvars k" "thread_list (pop k) = thread_list k" "ticks (pop k) = ticks k"
  "intr_on (pop k) = intr_on k" "intr_context (pop k) = intr_context k" "next_tid (pop k) = next_tid k"
  "state_of (pop k) = state_of k" "sema_queue (pop k) = sema_queue k"
  by (simp_all add: pop_def state_of_def fun_eq_iff sema_queue_def)

lemma frames_pop: "frames (pop k) = (frames k)(cur k := tl (frames k (cur k)))"
  by (simp add: pop_def)

lemma popped:
  assumes wf: "wf_kernel k" and f: "frames k (cur k) = f # fs"
  shows popped_frame_ok: "frame_ok (initial_thread k) (cur k) f"
    and popped_base: "base_frame f \<Longrightarrow> new_threads fs = []"
    and popped_frames_ok: "frames_ok (pop k)"
    and popped_core: "new_thread f = [] \<Longrightarrow> core (idlers k) (pop k) (Some (cur (pop k)))"
proof -
  have c: "core (idlers k) k (Some (cur k))" using wf by (simp add: wf_kernel_def)
  have "list_all (frame_ok (initial_thread k) (cur k)) (f # fs) \<and> base_ok (f # fs)"
    using core_frames[OF c] f unfolding frames_ok_def by metis
  then show "frame_ok (initial_thread k) (cur k) f" and "base_frame f \<Longrightarrow> new_threads fs = []"
    by simp_all
  show fo: "frames_ok (pop k)"
    using core_frames[OF c] \<open>list_all _ (f # fs) \<and> _\<close> f
    by (simp add: frames_ok_def frame_simps frames_pop)
  assume nt: "new_thread f = []"
  have A: "at_place (pop k) = at_place k"
    by (rule at_place_eqI) (auto simp: frame_simps frames_pop f nt)
  have "fresh_ok (pop k)"
    using core_fresh[OF c] nt f core_running[OF c] unfolding fresh_ok_def
    by (auto simp: frame_simps frames_pop split: if_splits) (metis append_Nil list.distinct(1) new_threads_simps(2))+
  with fo c A show "core (idlers k) (pop k) (Some (cur (pop k)))"
    by (simp add: core_def frame_simps magic_ok_def local_ok_def)
qed

text \<open>The invariant is restored once the idle loop is still on the stack of every idler.\<close>

lemma wf_close:
  assumes c: "core I k (Some (cur k))" and I: "\<And>t. t \<in> I \<Longrightarrow> idle_stack (frames k t)"
  shows "wf_kernel k"
proof -
  have live: "state_of k t \<noteq> None \<and> (\<forall>u. t \<notin> set (at_place k (P_New u)))" if "idle_stack (frames k t)" for t
  proof -
    have "frames k t \<noteq> []" using that by auto
    then show ?thesis using core_fresh[OF c] unfolding fresh_ok_def by (metis at_place.simps(4))
  qed
  have "placed (at_place k) (state_of k) (idle_thread k) (idlers k) (Some (cur k))"
    by (rule placed_idle_set[OF core_placed[OF c]]) (use I live in \<open>auto simp: idlers_def\<close>)
  then show ?thesis using coreD[OF c] by (simp add: wf_kernel_def core_def)
qed

lemma wf_close_cur:
  assumes "core (idlers k) k' (Some (cur k'))"
    and "\<And>t. t \<noteq> cur k \<Longrightarrow> t \<in> idlers k \<Longrightarrow> frames k' t = frames k t"
    and "cur k \<in> idlers k \<Longrightarrow> idle_stack (frames k' (cur k))"
  shows "wf_kernel k'"
proof (rule wf_close[OF assms(1)])
  fix t assume t: "t \<in> idlers k"
  show "idle_stack (frames k' t)"
    by (cases "t = cur k") (use assms(2,3) t in \<open>auto simp: idlers_def\<close>)
qed

lemma idle_call_not_body: "idle_call f \<Longrightarrow> \<not> idle_body f"
  by (cases f) (auto simp: idle_call_def idle_body_def)

lemma idle_stack_calls: "list_all idle_call us \<Longrightarrow> idle_stack (us @ fs) = idle_stack fs"
  by (induction us) (auto dest: idle_call_not_body)

lemma not_idler:
  "frames k (cur k) = f # fs \<Longrightarrow> \<not> idle_call f \<Longrightarrow> \<not> idle_body f \<Longrightarrow> cur k \<notin> idlers k"
  by (simp add: idlers_def)

lemma quiet_wf:
  assumes wf: "wf_kernel k" and f: "frames k (cur k) = f # fs" and "new_thread f = []"
    and q: "quiet Q (pop k) k'" and body: "\<not> idle_body f"
    and Q: "idle_call f \<Longrightarrow> Q = idle_call"
  shows "wf_kernel k'"
proof -
  have c: "core (idlers k) (pop k) (Some (cur (pop k)))" using popped_core[OF wf f] assms(3) by blast
  from quiet_core[OF q c] obtain us where k': "core (idlers k) k' (Some (cur k'))"
    and fr: "\<forall>t. t \<noteq> cur k \<longrightarrow> frames k' t = frames (pop k) t"
    and us: "frames k' (cur k) = us @ frames (pop k) (cur k)" "list_all Q us"
    by (auto simp: frame_simps)
  show ?thesis
  proof (rule wf_close_cur[OF k'])
    show "t \<noteq> cur k \<Longrightarrow> frames k' t = frames k t" for t using fr by (simp add: frames_pop)
    assume "cur k \<in> idlers k"
    then have "idle_call f" and "idle_stack fs" using f body by (auto simp: idlers_def)
    then show "idle_stack (frames k' (cur k))"
      using us Q idle_stack_calls[of us fs] f by (simp add: frames_pop)
  qed
qed

section \<open>The frames that move threads\<close>

lemma kernel_thread_wf:
  assumes wf: "wf_kernel k" and f: "frames k (cur k) = Kernel_Thread func # fs"
  shows "wf_kernel (kernel_thread func (pop k))"
proof -
  let ?k = "(pop k)\<lparr>intr_on := True\<rparr>"
  define us where "us = (case func of Client \<Rightarrow> [Client_Body, Thread_Exit]
      | Idle s \<Rightarrow> [Idle_At (IP_Enter s), Thread_Exit])"
  have new: "new_threads fs = []" using popped_base[OF wf f] by (simp add: base_frame_def)
  have "core (idlers k) (pop k) (Some (cur (pop k)))"
    using popped_core[OF wf f] by (simp add: new_thread_def)
  then have c: "core (idlers k) ?k (Some (cur ?k))" using core_same[OF same_fields(1)] by simp
  have "base_ok fs" using core_frames[OF c] f
    by (simp add: frames_ok_def frames_pop) (metis fun_upd_same)
  then have "core (idlers k) (push us ?k) (Some (cur (push us ?k)))"
    using core_push_gen[OF c, of us] new f
    by (cases func) (simp_all add: us_def frame_ok_def new_thread_def frames_pop frame_simps)
  moreover have "cur k \<notin> idlers k"
    by (rule not_idler[OF f]) (simp_all add: idle_call_def idle_body_def)
  ultimately have "wf_kernel (push us ?k)"
    by (intro wf_close_cur[of k]) (auto simp: frames_push frames_pop frame_simps)
  then show ?thesis by (simp add: kernel_thread_def us_def)
qed

lemma idle_wf:
  assumes wf: "wf_kernel k" and f: "frames k (cur k) = Idle_At p # fs"
    and x: "idle E p (pop k) = Inr k'"
  shows "wf_kernel k'"
proof -
  have c: "core (idlers k) (pop k) (Some (cur (pop k)))"
    using popped_core[OF wf f] by (simp add: new_thread_def)
  have I: "cur (pop k) \<in> idlers k" using f by (simp add: idlers_def idle_body_def frame_simps)
  note bi = idle_body_def
  show ?thesis
  proof (cases p)
    case (IP_Enter s)
    let ?k = "(pop k)\<lparr>idle_thread := Some (cur (pop k))\<rparr>"
    have k': "k' = push [Sema_Up SU_Enter s, Idle_At IP_Sort] ?k"
      using x IP_Enter by (auto simp: res_simps)
    have A: "at_place ?k = at_place (pop k)" by (rule at_place_cong) (simp_all add: sema_queue_def fun_eq_iff)
    have "state_of ?k = state_of (pop k)" by (simp add: state_of_def fun_eq_iff)
    then have "core (idlers k) ?k (Some (cur ?k))"
      using coreD[OF c] placed_set_idle[OF core_placed[OF c] I] A
      by (simp add: core_def magic_ok_def frames_ok_def local_ok_def fresh_ok_def sema_queue_def)
    then have "core (idlers k) k' (Some (cur k'))"
      using core_push[of "idlers k" ?k] by (simp add: k' plain_simps frame_simps)
    then show ?thesis
      by (rule wf_close_cur)
        (auto simp: k' frames_push frames_pop frame_simps idle_call_def bi)
  next
    case IP_Sort
    let ?k = "(pop k)\<lparr>ready_list := list_sort (lib E) (list_priority_sort (pop k)) (ready_list (pop k))\<rparr>"
    have k': "k' = push [Idle_At IP_Loop] ?k" using x IP_Sort by simp
    have "mset (at_place ?k P) = mset (at_place (pop k) P)" for P
      by (cases P) (simp_all add: sema_queue_def ready_order.mset_sort)
    then have P: "placed (at_place ?k) (state_of (pop k)) (idle_thread k) (idlers k) (Some (cur k))"
      using placed_queue_change[OF core_placed[OF c], of "at_place ?k"] by (simp add: frame_simps)
    have "state_of ?k = state_of (pop k)" by (simp add: state_of_def fun_eq_iff)
    then have "core (idlers k) ?k (Some (cur ?k))"
      using coreD[OF c] P
      by (simp add: core_def magic_ok_def frames_ok_def local_ok_def fresh_ok_def sema_queue_def frame_simps)
    then have "core (idlers k) k' (Some (cur k'))"
      using core_push[of "idlers k" ?k] by (simp add: k' plain_simps frame_simps)
    then show ?thesis
      by (rule wf_close_cur) (auto simp: k' frames_push frames_pop frame_simps bi)
  next
    case IP_Loop
    let ?k = "push [Idle_At IP_Halt] ((pop k)\<lparr>intr_on := False\<rparr>)"
    have "core (idlers k) ((pop k)\<lparr>intr_on := False\<rparr>) (Some (cur ((pop k)\<lparr>intr_on := False\<rparr>)))"
      using core_same[OF same_fields(1) c] by simp
    then have c1: "core (idlers k) ?k (Some (cur ?k))"
      using core_push[of "idlers k" "(pop k)\<lparr>intr_on := False\<rparr>"] by (simp add: plain_simps frame_simps)
    have "thread_block ?k = Inr k'" using x IP_Loop by simp
    then have k': "core (idlers k) k' (Some (cur k')) \<and> switched ?k k'"
      using block_idle_core[OF c1] I by (simp add: frame_simps)
    have run: "state_of ?k (cur ?k) = Some THREAD_RUNNING"
      using core_running[OF c1] by (auto simp: state_of_def)
    then have "frames k' = frames ?k" using k' by (auto simp: switched_def fun_eq_iff)
    with k' show ?thesis
      by (intro wf_close_cur[of k]) (auto simp: frames_push frames_pop frame_simps bi)
  next
    case IP_Halt
    let ?k = "(pop k)\<lparr>intr_on := True\<rparr>"
    have k': "k' = push [Idle_At IP_Loop] ?k" using x IP_Halt by simp
    have "core (idlers k) ?k (Some (cur ?k))" using core_same[OF same_fields(1) c] by simp
    then have "core (idlers k) k' (Some (cur k'))"
      using core_push[of "idlers k" ?k] by (simp add: k' plain_simps frame_simps)
    then show ?thesis
      by (rule wf_close_cur) (auto simp: k' frames_push frames_pop frame_simps bi)
  qed
qed

lemma yield_wf:
  assumes wf: "wf_kernel k" and f: "frames k (cur k) = Thread_Yield # fs"
    and x: "thread_yield E (pop k) = Inr k'"
  shows "wf_kernel k'"
proof -
  let ?k = "push [Intr_Set_Level (intr_on (pop k))] ((pop k)\<lparr>intr_on := False\<rparr>)"
  have c: "core (idlers k) (pop k) (Some (cur (pop k)))"
    using popped_core[OF wf f] by (simp add: new_thread_def)
  have k': "core (idlers k) k' (Some (cur k'))" and sw: "switched ?k k'"
    using yield_core[OF c x] by simp_all
  have "state_of ?k (cur ?k) \<noteq> Some THREAD_DYING"
    using core_running[OF c] by (auto simp: state_of_def frame_simps)
  then have fr: "frames k' = frames ?k" using sw by (auto simp: switched_def fun_eq_iff)
  show ?thesis
  proof (rule wf_close_cur[OF k'])
    show "t \<noteq> cur k \<Longrightarrow> frames k' t = frames k t" for t
      by (simp add: fr frames_push frames_pop frame_simps)
    assume "cur k \<in> idlers k"
    then show "idle_stack (frames k' (cur k))"
      by (simp add: fr frames_push frames_pop frame_simps idlers_def f idle_call_def idle_body_def)
  qed
qed

lemma exit_wf:
  assumes wf: "wf_kernel k" and f: "frames k (cur k) = Thread_Exit # fs"
    and x: "thread_exit (pop k) = Inr k'"
  shows "wf_kernel k'"
proof -
  have c: "core (idlers k) (pop k) (Some (cur (pop k)))"
    using popped_core[OF wf f] by (simp add: new_thread_def)
  have I: "cur k \<notin> idlers k"
    by (rule not_idler[OF f]) (simp_all add: idle_call_def idle_body_def)
  have "new_threads (frames (pop k) (cur (pop k))) = []"
    using popped_base[OF wf f] f by (simp add: base_frame_def frames_pop frame_simps)
  then have "core (idlers k) k' (Some (cur k'))"
    and "\<forall>t. frames k' t = frames (pop k) t \<or> t = cur k \<and> frames k' t = []"
    using exit_core[OF c _ _ x] I by (simp_all add: frame_simps)
  then show ?thesis
    using I by (intro wf_close_cur[of k]) (simp_all add: frames_pop, metis)
qed

end
