(* ===== verification/Kernel_Run.thy ===== *)
theory Kernel_Run
  imports Kernel_Inv2
begin

text \<open>
  The frames that create, wait and wake, the timer interrupt, and the conclusion: every step of
  the machine keeps the structural invariant, so every state of every run from boot has it.
\<close>

section \<open>Closing a step\<close>

text \<open>The state after the queues moved, with calls pushed on the stack of the same thread.\<close>

lemma wf_push_calls:
  assumes c: "core (idlers k) k2 (Some (cur k2))" and f: "frames k (cur k) = f # fs"
    and k2: "cur k2 = cur k" "initial_thread k2 = initial_thread k"
      "\<And>t. t \<noteq> cur k \<Longrightarrow> t \<in> idlers k \<Longrightarrow> frames k2 t = frames k t" "frames k2 (cur k) = fs"
    and us: "list_all (plain (initial_thread k) (cur k)) us"
    and Q: "idle_call f \<Longrightarrow> list_all idle_call us" and body: "\<not> idle_body f"
  shows "wf_kernel (push us k2)"
proof (rule wf_close_cur)
  show "core (idlers k) (push us k2) (Some (cur (push us k2)))"
    using core_push[OF c] us k2 by (simp add: frame_simps)
  show "t \<noteq> cur k \<Longrightarrow> t \<in> idlers k \<Longrightarrow> frames (push us k2) t = frames k t" for t
    using k2 by (simp add: frames_push)
  assume "cur k \<in> idlers k"
  then have "idle_call f" and "idle_stack fs" using f body by (auto simp: idlers_def)
  then show "idle_stack (frames (push us k2) (cur k))"
    using Q k2 idle_stack_calls[of us fs] by (simp add: frames_push)
qed

text \<open>The semaphores on the stack of the running thread have no waiter.\<close>

lemma own_sema_empty:
  assumes c: "core I k (Some (cur k))"
  shows "sema_queue k (Waiter (cur k)) = []"
    and "cur k = initial_thread k \<Longrightarrow> sema_queue k Idle_Started = []"
proof -
  have "cur k \<notin> set (sema_queue k s)" for s
    using placed_running_nowhere[OF core_placed[OF c], of "P_Sema s"] by simp
  then show "sema_queue k (Waiter (cur k)) = []"
    and "cur k = initial_thread k \<Longrightarrow> sema_queue k Idle_Started = []"
    using core_local[OF c] unfolding local_ok_def
    by (metis set_empty subset_singletonD insertI1)+
qed

section \<open>Creation\<close>

lemma alloc_frame_same: "alloc_frame t n k = Inr k' \<Longrightarrow> same k k'"
  by (auto simp: alloc_frame_def res_simps intro!: same_upds)

lemma create_enter_core:
  assumes c: "core I k (Some (cur k))" and t: "threads k t = None"
    and x: "init_thread t nm pri k = Inr k1"
    and us: "us = [Lock_Acquire LA_Enter tid_lock, Thread_Create (TC_Tid t), Thread_Create (TC_Ready t func)]"
  shows "core I (push us k1) (Some (cur (push us k1)))"
    and "cur k1 = cur k" "frames k1 = frames k"
proof -
  let ?k = "push us k1"
  have k1: "cur k1 = cur k" "frames k1 = frames k" "sems k1 = sems k" "ready_list k1 = ready_list k"
    "thread_list k1 = thread_list k" "idle_thread k1 = idle_thread k"
    "initial_thread k1 = initial_thread k" "state_of k1 = (state_of k)(t \<mapsto> THREAD_BLOCKED)"
    "magic_ok k \<Longrightarrow> magic_ok k1"
    using x by (auto simp: init_thread_def res_simps state_of_def fun_eq_iff magic_ok_def split: if_splits)
  show "cur k1 = cur k" "frames k1 = frames k" by (fact k1)+
  have tc: "t \<noteq> cur k" using core_running[OF c] t by auto
  have st: "state_of k t = None" using t by (simp add: state_of_def)
  have A: "at_place ?k = (at_place k)(P_New (cur k) := t # at_place k (P_New (cur k)))"
    by (rule at_place_eqI)
      (auto simp: us k1 frame_simps frames_push sema_queue_def new_thread_def)
  have P: "placed (at_place ?k) (state_of ?k) (idle_thread ?k) I (Some (cur ?k))"
    unfolding A using placed_create[OF core_placed[OF c] st HOL.refl, of "t # at_place k (P_New (cur k))" "cur k"]
    by (simp add: frame_simps k1)
  have "list_all (frame_ok (initial_thread k) u) (frames k u) \<and> base_ok (frames k u)" for u
    using core_frames[OF c] by (simp add: frames_ok_def)
  then have "frames_ok ?k"
    by (simp add: frames_ok_def frame_simps frames_push k1 us frame_ok_def base_frame_def)
  moreover have "t \<notin> set (new_threads (frames k u))" for u
    using placed_status[OF core_placed[OF c], of t "P_New u"] st by auto
  then have "fresh_ok ?k"
    using core_fresh[OF c] tc st core_running[OF c] placed_running_nowhere[OF core_placed[OF c], of "P_New _"]
    unfolding fresh_ok_def
    by (auto simp: frame_simps frames_push k1 us new_thread_def state_of_def split: if_splits)
  ultimately show "core I ?k (Some (cur ?k))"
    using P core_local[OF c] k1(9)[OF core_magic[OF c]]
    by (simp add: core_def local_ok_def magic_ok_def sema_queue_def frame_simps k1)
qed

lemma create_ready_core:
  assumes c: "core I k (Some (cur k))" and f: "frames k (cur k) = Thread_Create (TC_Ready t func) # fs"
    and same: "same (pop k) k1"
    and x: "thread_unblock E t (k1\<lparr>frames := (frames k1)(t := [Kernel_Thread func])\<rparr>) = Inr k2"
  shows "core I k2 (Some (cur k2))" and "cur k2 = cur k" and "initial_thread k2 = initial_thread k"
    and "frames k2 = (frames (pop k))(t := [Kernel_Thread func])" and "t \<noteq> cur k"
    and "frames k t = []"
proof -
  let ?k = "k1\<lparr>frames := (frames k1)(t := [Kernel_Thread func])\<rparr>"
  note u = thread_unblock_frame[OF x]
  have q: "at_place k (P_New (cur k)) = t # new_threads fs" using f by (simp add: new_thread_def)
  then have st: "state_of k t = Some THREAD_BLOCKED"
    using placed_status[OF core_placed[OF c], of t "P_New (cur k)"] by simp
  have "t \<in> set (new_threads (frames k (cur k)))" using q by simp
  then show ft: "frames k t = []" using core_fresh[OF c] unfolding fresh_ok_def by blast
  show tc: "t \<noteq> cur k" using core_running[OF c] st by (auto simp: state_of_def)
  have k1: "frames k1 = frames (pop k)" "cur k1 = cur k" "initial_thread k1 = initial_thread k"
    using same by (simp_all add: same_def frame_simps)
  show ck: "cur k2 = cur k" "initial_thread k2 = initial_thread k"
    and fk: "frames k2 = (frames (pop k))(t := [Kernel_Thread func])"
    using u(1,2,8) k1 by simp_all
  have new: "new_threads (frames ?k u) = (if u = cur k then new_threads fs else new_threads (frames k u))" for u
    using ft tc by (simp add: k1 frames_pop f new_thread_def)
  have fok: "list_all (frame_ok (initial_thread k) u) (frames k u) \<and> base_ok (frames k u)" for u
    using core_frames[OF c] by (simp add: frames_ok_def)
  have "core I k2 (Some (cur k))"
  proof (rule unblock_core[OF c, of "P_New (cur k)", OF _ _ _ _ _ _ _ _ _ x])
    show "mset (at_place k (P_New (cur k))) = add_mset t (mset (new_threads fs))" using q by simp
    show "at_place ?k = (at_place k)(P_New (cur k) := new_threads fs)"
      by (rule at_place_eqI)
        (use same new in \<open>auto simp: same_def frame_simps sema_queue_def fun_eq_iff\<close>)
    show "state_of ?k = state_of k" "idle_thread ?k = idle_thread k" "magic_ok ?k"
      using same core_magic[OF c]
      by (auto simp: same_def frame_simps state_of_def fun_eq_iff magic_ok_def)
    show "frames_ok ?k"
      using fok[of "cur k"] fok
      by (auto simp: frames_ok_def k1 frames_pop f frame_ok_def new_thread_def)
    show "local_ok ?k"
      using same core_local[OF c] by (auto simp: same_def frame_simps local_ok_def sema_queue_def fun_eq_iff)
    fix y assume "y \<noteq> t" and y: "state_of k y = None \<or> (\<exists>u. y \<in> set (new_threads (frames ?k u)))"
    have "y \<in> set (new_threads (frames k u))" if "y \<in> set (new_threads (frames ?k u))" for u
      using that new[of u] f by (auto split: if_splits)
    then have "frames k y = []" using y core_fresh[OF c] unfolding fresh_ok_def by blast
    then show "frames ?k y = []" using \<open>y \<noteq> t\<close> by (auto simp: k1 frames_pop)
  qed simp
  then show "core I k2 (Some (cur k2))" using ck by simp
qed

lemma create_wf:
  assumes wf: "wf_kernel k" and f: "frames k (cur k) = Thread_Create p # fs" and E: "palloc_ok E k"
    and x: "thread_create E p (pop k) = Inr k'"
  shows "wf_kernel k'"
proof -
  have nb: "\<not> idle_body (Thread_Create p)" and nc: "\<not> idle_call (Thread_Create p)"
    by (simp_all add: idle_body_def idle_call_def)
  have I: "cur k \<notin> idlers k" by (rule not_idler[OF f nc nb])
  have c0: "core (idlers k) k (Some (cur k))" using wf by (simp add: wf_kernel_def)
  show ?thesis
  proof (cases "\<exists>t func. p = TC_Ready t func")
    case True
    then obtain t func where p: "p = TC_Ready t func" by blast
    from x[unfolded p] obtain k1 k2 where
      same: "same (pop k) k1" and
      wake: "thread_unblock E t (k1\<lparr>frames := (frames k1)(t := [Kernel_Thread func])\<rparr>) = Inr k2"
      and k': "k' = push [Thread_Create (TC_Preempt t)] k2"
      by (auto simp: res_simps dest!: alloc_frame_same) (metis same_trans)
    note r = create_ready_core[OF c0 f[unfolded p] same wake]
    show ?thesis unfolding k'
    proof (rule wf_push_calls[OF r(1) f[unfolded p] r(2,3)])
      show "y \<noteq> cur k \<Longrightarrow> y \<in> idlers k \<Longrightarrow> frames k2 y = frames k y" for y
        using r(4,6) by (auto simp: frames_pop idlers_def)
      show "frames k2 (cur k) = fs" using r(4,5) f by (simp add: frames_pop)
    qed (simp_all add: plain_simps idle_call_def idle_body_def)
  next
    case False
    then have "new_thread (Thread_Create p) = []" by (simp add: new_thread_def split: create_point.splits)
    note c = popped_core[OF wf f this]
    show ?thesis
    proof (cases "\<exists>nm pri func t. p = TC_Enter nm pri func \<and> palloc_get_page E = Some t")
      case True
      then obtain nm pri func t where p: "p = TC_Enter nm pri func" and t: "palloc_get_page E = Some t"
        by blast
      define us where "us = [Lock_Acquire LA_Enter tid_lock, Thread_Create (TC_Tid t), Thread_Create (TC_Ready t func)]"
      from x[unfolded p] t obtain k1 where k1: "init_thread t nm pri (pop k) = Inr k1"
        and k': "k' = push us k1" by (auto simp: res_simps us_def)
      have "threads (pop k) t = None" using E t by (simp add: palloc_ok_def frame_simps)
      note r = create_enter_core[OF c this k1 us_def]
      show ?thesis using I r
        by (intro wf_close_cur[of k]) (simp_all add: k' frame_simps frames_push frames_pop)
    next
      case no: False
      have "quiet (\<lambda>_. True) (pop k) k'"
        using x False no
        by (cases p) (auto simp: res_simps plain_simps allocate_tid_def intro!: quiet_push quiet_other same_upds same_fields
          split: option.splits)
      then show ?thesis
        using quiet_wf[OF wf f _ _ nb] nc \<open>new_thread (Thread_Create p) = []\<close> by blast
    qed
  qed
qed


section \<open>Starting the scheduler\<close>

lemma start_wf:
  assumes wf: "wf_kernel k" and f: "frames k (cur k) = Thread_Start p # fs"
    and x: "thread_start p (pop k) = Inr k'"
  shows "wf_kernel k'"
proof -
  have nt: "new_thread (Thread_Start p) = []" by (simp add: new_thread_def)
  note c = popped_core[OF wf f nt]
  have i: "cur k = initial_thread k" using popped_frame_ok[OF wf f] by (simp add: frame_ok_def)
  then have q: "sema_queue (pop k) Idle_Started = []" using own_sema_empty(2)[OF c] by (simp add: frame_simps)
  have del: "same (pop k) ((pop k)\<lparr>sems := (sems k)(Idle_Started := None)\<rparr>)"
    using same_delete_sema[OF q] by (simp add: frame_simps)
  have "quiet (\<lambda>_. True) (pop k) k'"
  proof (cases p)
    case TS_Return
    then show ?thesis using x del by (auto simp: frame_simps intro: quietI)
  qed (use x q i in \<open>auto simp: plain_simps frame_simps intro!: quiet_push same_put_sema same_fields\<close>)
  then show ?thesis using quiet_wf[OF wf f nt] by (simp add: idle_body_def idle_call_def)
qed

section \<open>Waiting and waking\<close>

lemma down_wf:
  assumes wf: "wf_kernel k" and f: "frames k (cur k) = Sema_Down p s # fs"
    and x: "semaphore_down E p s (pop k) = Inr k'"
  shows "wf_kernel k'"
proof -
  have nt: "new_thread (Sema_Down p s) = []" by (simp add: new_thread_def)
  have nb: "\<not> idle_body (Sema_Down p s)" and nc: "\<not> idle_call (Sema_Down p s)"
    by (simp_all add: idle_body_def idle_call_def)
  note c = popped_core[OF wf f nt]
  have ok: "frame_ok (initial_thread k) (cur k) (Sema_Down p' s)" for p'
    using popped_frame_ok[OF wf f] by (simp add: frame_ok_def)
  show ?thesis
  proof (cases "\<exists>old sm. p = SD_Loop old \<and> sems k s = Some sm \<and> sema_value sm = 0")
    case False
    have "quiet (\<lambda>_. True) (pop k) k'"
    proof (cases p)
      case SD_Enter
      then show ?thesis using x ok
        by (auto simp: res_simps plain_def base_frame_def new_thread_def frame_simps
            intro!: quiet_push same_fields)
    next
      case (SD_Loop old)
      then show ?thesis using x False
        by (auto simp: res_simps frame_simps sema_queue_def
            intro!: quietI same_trans[OF same_put_sema same_fields(1)])
    qed
    then show ?thesis using quiet_wf[OF wf f nt _ nb] nc by blast
  next
    case True
    then obtain old sm where p: "p = SD_Loop old" and sm: "sems k s = Some sm" "sema_value sm = 0"
      by blast
    from x[unfolded p] sm obtain th k1 xs where d: "donate_to_holder th (pop k) = Inr k1"
      and xs: "xs = list_insert_ordered (lib E) (sem_priority_sort k1) (cur k1) (waiters sm)"
      and b: "thread_block (push [Sema_Down (SD_Loop old) s] (put_sema s (sm\<lparr>waiters := xs\<rparr>) k1)) = Inr k'"
      by (auto simp: res_simps frame_simps)
    note same = donate_to_holder_same[OF d]
    let ?k = "push [Sema_Down (SD_Loop old) s] (put_sema s (sm\<lparr>waiters := xs\<rparr>) k1)"
    have k1: "cur k1 = cur k" "frames k1 = frames (pop k)" "sema_queue k1 = sema_queue k"
      "initial_thread k1 = initial_thread k"
      using same by (simp_all add: same_def frame_simps)
    have c1: "core (idlers k) k1 (Some (cur k1))" using core_same[OF same c] k1 by (simp add: frame_simps)
    have I: "cur k \<notin> idlers k" by (rule not_idler[OF f nc nb])
    then have ni: "idle_thread k1 \<noteq> Some (cur k1)"
      using placed_idle[OF core_placed[OF c1], of "cur k1"] k1(1) by auto
    have A: "at_place ?k = (at_place k1)(P_Sema s := xs)"
      by (subst at_place_push) (simp_all add: new_thread_def at_place_put_sema)
    have mx: "mset xs = add_mset (cur k1) (mset (at_place k1 (P_Sema s)))"
      using sm k1(3) by (simp add: xs sema_queue_def fun_eq_iff)
    have fo: "frames_ok ?k"
      using core_frames[OF c1] ok[of "SD_Loop old"] k1
      by (simp add: frames_ok_def frames_push frame_simps base_frame_def)
    have sx: "set xs = insert (cur k) (set (sema_queue k1 s))"
      using mset_add_facts(1)[OF mx] k1(1) by simp
    have sq: "sema_queue ?k = (sema_queue k1)(s := xs)"
      by (simp add: sema_queue_put[unfolded sema_queue_def fun_eq_iff] sema_queue_def fun_eq_iff
          frame_simps sems_put_sema)
    have lo: "local_ok ?k"
      using core_local[OF c1] ok[of "SD_Loop old"] k1(1,4) unfolding local_ok_def sq
      by (auto simp: sx frame_simps frame_ok_def)
    have fr: "fresh_ok ?k"
    proof (rule fresh_ok_push)
      show "fresh_ok (put_sema s (sm\<lparr>waiters := xs\<rparr>) k1)"
        using core_fresh[OF c1] by (simp add: fresh_ok_def frame_simps)
    qed (use core_running[OF c1] placed_running_nowhere[OF core_placed[OF c1], of "P_New _"] in
        \<open>auto simp: new_thread_def frame_simps state_of_def\<close>)
    have r: "core (idlers k) k' (Some (cur k')) \<and> switched ?k k'"
      by (rule block_core[OF c1 ni, of "P_Sema s" ?k, OF _ _ A _ _ _ fo lo fr _ mx b])
        (use core_magic[OF c1] in \<open>simp_all add: frame_simps magic_ok_def\<close>)
    have "state_of ?k (cur ?k) \<noteq> Some THREAD_DYING"
      using core_running[OF c1] by (auto simp: state_of_def frame_simps)
    then have "frames k' = frames ?k" using r by (auto simp: switched_def fun_eq_iff)
    then show ?thesis
      using I r k1 by (intro wf_close_cur[of k]) (auto simp: frames_push frames_pop frame_simps)
  qed
qed

lemma up_wf:
  assumes wf: "wf_kernel k" and f: "frames k (cur k) = Sema_Up p s # fs"
    and x: "semaphore_up E p s (pop k) = Inr k'"
  shows "wf_kernel k'"
proof -
  have nt: "new_thread (Sema_Up p s) = []" by (simp add: new_thread_def)
  have nb: "\<not> idle_body (Sema_Up p s)" by (simp add: idle_body_def)
  note c = popped_core[OF wf f nt]
  show ?thesis
  proof (cases "p = SU_Enter")
    case False
    then show ?thesis using quiet_wf[OF wf f nt semaphore_up_quiet[OF x] nb] by blast
  next
    case True
    from x[unfolded True] obtain sm where sm: "sems k s = Some sm"
      by (auto simp: res_simps frame_simps)
    let ?sorted = "list_sort (lib E) (sem_priority_sort (pop k)) (waiters sm)"
    have ms: "mset ?sorted = mset (waiters sm)" by (rule waiter_order.mset_sort)
    obtain t1 k2 where k2: "core (idlers k) k2 (Some (cur k2))" "cur k2 = cur k"
      "initial_thread k2 = initial_thread k" "frames k2 = frames (pop k)"
      and k': "k' = push [Sema_Up (SU_Preempt t1) s] k2"
    proof (cases ?sorted)
      case Nil
      then have e: "waiters sm = []" using ms by simp
      let ?k2 = "put_sema s (sm\<lparr>sema_value := sema_value sm + 1\<rparr>) (pop k)"
      have "same (pop k) ?k2" by (rule same_put_sema) (use sm in \<open>simp add: sema_queue_def frame_simps\<close>)
      then have "core (idlers k) ?k2 (Some (cur ?k2))" using core_same[OF _ c] by (simp add: frame_simps)
      moreover have "k' = push [Sema_Up (SU_Preempt (cur k)) s] ?k2"
        using x[unfolded True] sm Nil e by (auto simp: res_simps frame_simps)
      ultimately show ?thesis using that by (simp add: frame_simps)
    next
      case (Cons t1 ts)
      from x[unfolded True] sm Cons obtain k1 where
        w: "thread_unblock E t1 (put_sema s (sm\<lparr>waiters := ts\<rparr>) (pop k)) = Inr k1"
        and k': "k' = push [Sema_Up (SU_Preempt t1) s]
            (put_sema s (sm\<lparr>waiters := ts, sema_value := sema_value sm + 1\<rparr>) k1)"
        by (auto simp: res_simps frame_simps)
      let ?k1 = "put_sema s (sm\<lparr>waiters := ts\<rparr>) (pop k)"
      let ?k2 = "put_sema s (sm\<lparr>waiters := ts, sema_value := sema_value sm + 1\<rparr>) k1"
      note u = thread_unblock_frame[OF w]
      have mt: "mset (at_place (pop k) (P_Sema s)) = add_mset t1 (mset ts)"
        using ms Cons sm by (simp add: sema_queue_def frame_simps)
      have sub: "set ts \<subseteq> set (sema_queue (pop k) s)"
        using mset_add_facts(1)[OF mt] by auto
      have c1: "core (idlers k) k1 (Some (cur (pop k)))"
      proof (rule unblock_core[OF c, of "P_Sema s", OF _ mt _ _ _ _ _ _ _ w])
        show "at_place ?k1 = (at_place (pop k))(P_Sema s := ts)" by (simp add: at_place_put_sema)
        show "magic_ok ?k1" "frames_ok ?k1" "local_ok ?k1"
          using core_magic[OF c] core_frames[OF c] core_local[OF c] sub
          by (simp_all add: magic_ok_def frames_ok_def frame_simps local_ok_def sema_queue_put)
            (blast+)?
        show "frames ?k1 y = []" if "state_of (pop k) y = None \<or> (\<exists>u. y \<in> set (new_threads (frames ?k1 u)))" for y
          using that core_fresh[OF c] by (auto simp: fresh_ok_def frame_simps)
      qed (simp_all add: frame_simps)
      have "same k1 ?k2"
        by (rule same_put_sema) (simp add: u sema_queue_def sems_put_sema)
      then have "core (idlers k) ?k2 (Some (cur ?k2))"
        using core_same[OF _ c1] u by (simp add: frame_simps)
      then show ?thesis using that[OF _ _ _ _ k'] u by (simp add: frame_simps)
    qed
    show ?thesis unfolding k'
      by (rule wf_push_calls[OF k2(1) f k2(2,3)])
        (use k2 f in \<open>auto simp: frames_pop plain_simps idle_call_def idle_body_def\<close>)
  qed
qed

lemma wait_wf:
  assumes wf: "wf_kernel k" and f: "frames k (cur k) = Cond_Wait p c l # fs"
    and x: "condvar_wait E p c l (pop k) = Inr k'"
  shows "wf_kernel k'"
proof -
  have nt: "new_thread (Cond_Wait p c l) = []" by (simp add: new_thread_def)
  note cr = popped_core[OF wf f nt]
  have q: "sema_queue (pop k) (Waiter (cur k)) = []" using own_sema_empty(1)[OF cr] by (simp add: frame_simps)
  have del: "same (pop k) ((pop k)\<lparr>sems := (sems k)(Waiter (cur k) := None)\<rparr>)"
    using same_delete_sema[OF q] by (simp add: frame_simps)
  have "quiet (\<lambda>_. True) (pop k) k'"
  proof (cases p)
    case CW_Return
    then show ?thesis using x del by (auto simp: frame_simps intro: quietI)
  next
    case CW_Enter
    then show ?thesis using x q
      by (auto simp: plain_simps frame_simps res_simps Let_def semaphore_init_def
          intro!: quiet_push same_upds same_put_sema)
  qed
  then show ?thesis using quiet_wf[OF wf f nt] by (simp add: idle_body_def idle_call_def)
qed


lemma sleep_wf:
  assumes wf: "wf_kernel k" and f: "frames k (cur k) = Timer_Sleep p n # fs"
    and x: "timer_sleep E p n (pop k) = Inr k'"
  shows "wf_kernel k'"
proof -
  have nt: "new_thread (Timer_Sleep p n) = []" by (simp add: new_thread_def)
  have nb: "\<not> idle_body (Timer_Sleep p n)" and nc: "\<not> idle_call (Timer_Sleep p n)"
    by (simp_all add: idle_body_def idle_call_def)
  note c = popped_core[OF wf f nt]
  show ?thesis
  proof (cases "p = SL_Block")
    case False
    have "quiet (\<lambda>_. True) (pop k) k'"
      using x False
      by (cases p) (auto simp: res_simps plain_simps frame_simps intro!: quiet_push quiet_other same_upds
          split: if_splits)
    then show ?thesis using quiet_wf[OF wf f nt _ nb] nc by blast
  next
    case True
    define xs where "xs = list_insert_ordered (lib E) (list_wake_sort E) (cur k) (thread_list k)"
    define k1 where "k1 = push [Intr_Set_Level (intr_on k)] ((pop k)\<lparr>intr_on := False, thread_list := xs\<rparr>)"
    have b: "thread_block k1 = Inr k'"
      using x by (auto simp: True res_simps Let_def frame_simps xs_def k1_def)
    have I: "cur k \<notin> idlers k" by (rule not_idler[OF f nc nb])
    then have ni: "idle_thread (pop k) \<noteq> Some (cur (pop k))"
      using placed_idle[OF core_placed[OF c], of "cur (pop k)"] by (auto simp: frame_simps)
    have A: "at_place k1 = (at_place (pop k))(P_Sleep := xs)"
      unfolding k1_def
      by (subst at_place_push, simp add: new_thread_def)
        (rule at_place_eqI, auto simp: frame_simps sema_queue_def frames_pop)
    have mx: "mset xs = add_mset (cur (pop k)) (mset (at_place (pop k) P_Sleep))"
      by (simp add: xs_def frame_simps)
    have k1: "state_of k1 = state_of k" "idle_thread k1 = idle_thread k" "cur k1 = cur k"
      "sema_queue k1 = sema_queue k" "initial_thread k1 = initial_thread k" "threads k1 = threads k"
      by (simp_all add: k1_def frame_simps state_of_def fun_eq_iff sema_queue_def)
    have fo: "frames_ok k1"
      using core_frames[OF c] by (simp add: frames_ok_def k1_def frames_push frame_simps frame_ok_def base_frame_def)
    have fr: "fresh_ok k1" unfolding k1_def
    proof (rule fresh_ok_push)
      show "fresh_ok ((pop k)\<lparr>intr_on := False, thread_list := xs\<rparr>)"
        using core_fresh[OF c] by (simp add: fresh_ok_def state_of_def)
    qed (use core_running[OF c] placed_running_nowhere[OF core_placed[OF c], of "P_New _"] in
        \<open>auto simp: new_thread_def frame_simps state_of_def\<close>)
    have lo: "local_ok k1"
      using core_local[OF c] by (simp add: local_ok_def k1 frame_simps)
    have r: "core (idlers k) k' (Some (cur k')) \<and> switched k1 k'"
      by (rule block_core[OF c ni, of P_Sleep k1, OF _ _ A _ _ _ fo lo fr _ mx b])
        (use core_magic[OF c] in \<open>simp_all add: k1 frame_simps magic_ok_def\<close>)
    have "state_of k1 (cur k1) \<noteq> Some THREAD_DYING"
      using core_running[OF c] by (auto simp: state_of_def k1 frame_simps)
    then have "frames k' = frames k1" using r by (auto simp: switched_def fun_eq_iff)
    then show ?thesis
      using I r by (intro wf_close_cur[of k]) (auto simp: k1_def frames_push frames_pop frame_simps)
  qed
qed

section \<open>The timer interrupt\<close>

lemma wake_core:
  assumes c: "core I k r" and t: "t \<in> set (thread_list k)" and x: "timer_wake E t k = Inr k'"
  shows "core I k' r" and "cur k' = cur k" and "frames k' = frames k"
    and "set (thread_list k) - {t} \<subseteq> set (thread_list k')"
proof -
  obtain th where th: "threads k t = Some th"
    and w: "if waiting_time th \<le> timer_ticks k
       then thread_unblock E t (k\<lparr>thread_list := remove1 t (thread_list k)\<rparr>) = Inr k' else k' = k"
    using x by (auto simp: timer_wake_def res_simps split: if_splits)
  have "core I k' r \<and> cur k' = cur k \<and> frames k' = frames k \<and>
      set (thread_list k) - {t} \<subseteq> set (thread_list k')"
  proof (cases "waiting_time th \<le> timer_ticks k")
    case False
    with w c show ?thesis by auto
  next
    case True
    let ?k = "k\<lparr>thread_list := remove1 t (thread_list k)\<rparr>"
    have w: "thread_unblock E t ?k = Inr k'" using w True by simp
    note u = thread_unblock_frame[OF w]
    have m: "mset (at_place k P_Sleep) = add_mset t (mset (remove1 t (thread_list k)))"
      using t by (simp add: insert_DiffM)
    have "core I k' r"
    proof (rule unblock_core[OF c, of P_Sleep, OF _ m _ _ _ _ _ _ _ w])
      show "at_place ?k = (at_place k)(P_Sleep := remove1 t (thread_list k))"
        by (rule at_place_eqI) (simp_all add: sema_queue_def)
      show "state_of ?k = state_of k" by (simp add: state_of_def fun_eq_iff)
      show "magic_ok ?k" "frames_ok ?k" "local_ok ?k"
        using coreD[OF c] by (simp_all add: magic_ok_def frames_ok_def local_ok_def sema_queue_def)
      show "frames ?k y = []" if "state_of k y = None \<or> (\<exists>u. y \<in> set (new_threads (frames ?k u)))" for y
        using that core_fresh[OF c] by (auto simp: fresh_ok_def)
    qed simp_all
    then show ?thesis using u(1,2,6) by auto (metis in_set_remove1)
  qed
  then show "core I k' r" and "cur k' = cur k" and "frames k' = frames k"
    and "set (thread_list k) - {t} \<subseteq> set (thread_list k')" by auto
qed

lemma wake_all_core:
  assumes "fold_res (timer_wake E) ts k = Inr k'" and "core I k r"
    and "set ts \<subseteq> set (thread_list k)" and "distinct ts"
  shows "core I k' r \<and> cur k' = cur k \<and> frames k' = frames k"
  using assms
proof (induction ts arbitrary: k)
  case Nil
  then show ?case by simp
next
  case (Cons t ts)
  from Cons.prems(1) obtain k1 where k1: "timer_wake E t k = Inr k1"
    and rest: "fold_res (timer_wake E) ts k1 = Inr k'" by (auto simp: res_simps)
  note w = wake_core[OF Cons.prems(2) _ k1]
  have "set ts \<subseteq> set (thread_list k1)" using w(4) Cons.prems(3,4) by auto
  then show ?case using Cons.IH[OF rest] w Cons.prems(3,4) by auto
qed

lemma thread_tick_same: "thread_tick k = Inr k' \<Longrightarrow> same k k'"
  by (auto simp: thread_tick_def res_simps Let_def same_def state_of_def sema_queue_def magic_ok_def fun_eq_iff
      split: if_splits)

lemma timer_interrupt_core:
  assumes c: "core I k (Some (cur k))" and x: "timer_interrupt E k = Inr k'"
  shows "core I k' (Some (cur k')) \<and> cur k' = cur k \<and> frames k' = frames k"
proof -
  obtain n k1 k2 where k1: "thread_tick (k\<lparr>ticks := n\<rparr>) = Inr k1"
    and k2: "fold_res (timer_wake E) (thread_list k1) (k1\<lparr>intr_on := False\<rparr>) = Inr k2"
    and k': "k' = k2\<lparr>intr_on := intr_on k1\<rparr>"
    using x by (auto simp: timer_interrupt_def res_simps Let_def)
  have s: "same k (k1\<lparr>intr_on := False\<rparr>)"
    using same_trans[OF same_trans[OF same_fields(6) thread_tick_same[OF k1]] same_fields(1)] .
  have c1: "core I (k1\<lparr>intr_on := False\<rparr>) (Some (cur k))" using core_same[OF s c] .
  have "core I k2 (Some (cur k)) \<and> cur k2 = cur k \<and> frames k2 = frames k"
    using wake_all_core[OF k2 c1] placed_distinct[OF core_placed[OF c1], of P_Sleep] s
    by (auto simp: same_def)
  then show ?thesis using core_same[OF same_fields(1)] by (simp add: k')
qed

lemma timer_irq_wf:
  assumes wf: "wf_kernel k" and x: "timer_irq E k = Inr k'"
  shows "wf_kernel k'"
proof -
  let ?k = "k\<lparr>intr_on := False, intr_context := True, yield_on_return := False\<rparr>"
  have c: "core (idlers k) k (Some (cur k))" using wf by (simp add: wf_kernel_def)
  obtain k1 where k1: "timer_interrupt E ?k = Inr k1"
    and k': "k' = (if yield_on_return k1 then push [Thread_Yield, Intr_Set_Level True] (k1\<lparr>intr_context := False\<rparr>)
        else k1\<lparr>intr_context := False, intr_on := True\<rparr>)"
    using x by (auto simp: timer_irq_def res_simps Let_def)
  have "core (idlers k) ?k (Some (cur ?k))"
    using core_same[OF same_fields(8) core_same[OF same_fields(7) core_same[OF same_fields(1) c]]] by simp
  from timer_interrupt_core[OF this k1] have r: "core (idlers k) k1 (Some (cur k1))" "cur k1 = cur k"
    "frames k1 = frames k" by auto
  have c2: "core (idlers k) (k1\<lparr>intr_context := False\<rparr>) (Some (cur (k1\<lparr>intr_context := False\<rparr>)))"
    using core_same[OF same_fields(7) r(1)] by simp
  show ?thesis
  proof (cases "yield_on_return k1")
    case True
    have "core (idlers k) k' (Some (cur k'))"
      unfolding k' using True core_push[OF c2] by (simp add: plain_simps frame_simps)
    then show ?thesis
      by (rule wf_close_cur)
        (auto simp: k' True frames_push r idlers_def idle_call_def)
  next
    case False
    have "core (idlers k) k' (Some (cur k'))"
      unfolding k' using False core_same[OF same_fields(1) c2] by simp
    then show ?thesis by (rule wf_close_cur) (auto simp: k' False r idlers_def)
  qed
qed

section \<open>Steps and runs\<close>

lemma exec_frame_wf:
  assumes wf: "wf_kernel k" and f: "frames k (cur k) = f # fs" and E: "palloc_ok E k"
    and x: "exec_frame E f (pop k) = Inr k'"
  shows "wf_kernel k'"
proof -
  have quiet: "quiet Q (pop k) k' \<Longrightarrow> new_thread f = [] \<Longrightarrow> \<not> idle_body f \<Longrightarrow>
      (idle_call f \<Longrightarrow> Q = idle_call) \<Longrightarrow> wf_kernel k'" for Q
    using quiet_wf[OF wf f] by blast
  note simps = idle_call_def idle_body_def new_thread_def
  show ?thesis
  proof (cases f)
    case (Kernel_Thread func)
    then show ?thesis using kernel_thread_wf[OF wf f[unfolded Kernel_Thread]] x by simp
  next
    case Client_Body
    then show ?thesis using x quiet[of "\<lambda>_. True"] by (simp add: quiet_other simps)
  next
    case (Idle_At p)
    then show ?thesis using idle_wf[OF wf f[unfolded Idle_At]] x by simp
  next
    case Thread_Yield
    then show ?thesis using yield_wf[OF wf f[unfolded Thread_Yield]] x by simp
  next
    case (Intr_Set_Level b)
    then show ?thesis using x quiet[of idle_call] by (auto simp: simps intro!: quietI same_fields)
  next
    case Thread_Exit
    then show ?thesis using exit_wf[OF wf f[unfolded Thread_Exit]] x by simp
  next
    case (Set_Priority p)
    then show ?thesis using x quiet[of idle_call] by (auto simp: simps dest: set_priority_quiet)
  next
    case (Thread_Create p)
    then show ?thesis using create_wf[OF wf f[unfolded Thread_Create] E] x by simp
  next
    case (Thread_Start p)
    then show ?thesis using start_wf[OF wf f[unfolded Thread_Start]] x by simp
  next
    case (Sema_Down p s)
    then show ?thesis using down_wf[OF wf f[unfolded Sema_Down]] x by simp
  next
    case (Sema_Up p s)
    then show ?thesis using up_wf[OF wf f[unfolded Sema_Up]] x by simp
  next
    case (Lock_Acquire p l)
    then show ?thesis using x quiet[of "\<lambda>_. True"] by (auto simp: simps dest: lock_acquire_quiet)
  next
    case (Lock_Release p l)
    then show ?thesis using x quiet[of "\<lambda>_. True"] by (auto simp: simps dest: lock_release_quiet)
  next
    case (Cond_Wait p c l)
    then show ?thesis using wait_wf[OF wf f[unfolded Cond_Wait]] x by simp
  next
    case (Cond_Signal c l)
    then show ?thesis using x quiet[of "\<lambda>_. True"] by (auto simp: simps dest: cond_signal_quiet)
  next
    case (Cond_Broadcast c l)
    then show ?thesis using x quiet[of "\<lambda>_. True"] by (auto simp: simps dest: cond_broadcast_quiet)
  next
    case (Timer_Sleep p n)
    then show ?thesis using sleep_wf[OF wf f[unfolded Timer_Sleep]] x by simp
  qed
qed


lemma client_frame_ok:
  "client_call f \<Longrightarrow> frame_ok i u f \<and> new_thread f = [] \<and> base_ok [f]"
  by (cases f rule: client_call.cases) (simp_all add: frame_ok_def new_thread_def)

lemma client_call_wf:
  assumes wf: "wf_kernel k" and f: "frames k (cur k) = Client_Body # fs" and call: "client_call f"
  shows "wf_kernel (push [f] k)"
proof -
  have c: "core (idlers k) k (Some (cur k))" using wf by (simp add: wf_kernel_def)
  have b: "base_ok (Client_Body # fs)" using core_frames[OF c] f unfolding frames_ok_def by metis
  have "core (idlers k) (push [f] k) (Some (cur (push [f] k)))"
    using core_push_gen[OF c, of "[f]"] client_frame_ok[OF call] b f
    by (simp add: frame_simps base_frame_def new_thread_def)
  moreover have "cur k \<notin> idlers k" by (rule not_idler[OF f]) (simp_all add: idle_call_def idle_body_def)
  ultimately show ?thesis
    by (intro wf_close_cur[of k]) (simp_all add: frames_push)
qed

lemma same_wf: "same k k' \<Longrightarrow> wf_kernel k \<Longrightarrow> wf_kernel k'"
  using core_same[of k k'] by (simp add: wf_kernel_def idlers_def same_def)

lemma new_object_wf:
  assumes "wf_kernel k"
  shows "sems k s = None \<Longrightarrow> wf_kernel (semaphore_init s v k)"
    and "sems k (Lock_Sema l) = None \<Longrightarrow> wf_kernel (lock_init l k)"
    and "wf_kernel (condvar_init c k)"
  by (auto intro!: same_wf[OF _ assms] same_upds same_put_sema
      simp: semaphore_init_def lock_init_def condvar_init_def sema_queue_def)

lemma run_thread_wf: "wf_kernel k \<Longrightarrow> palloc_ok E k \<Longrightarrow> run_thread E k = Inr k' \<Longrightarrow> wf_kernel k'"
  by (auto simp: run_thread_def exec_frame_wf split: list.splits)

lemma kernel_step_wf: "kernel_step k k' \<Longrightarrow> wf_kernel k \<Longrightarrow> wf_kernel k'"
  by (induction rule: kernel_step.induct)
    (auto intro: run_thread_wf client_call_wf new_object_wf timer_irq_wf)

definition main_thread :: "tptr \<Rightarrow> thread" where
  "main_thread p = \<lparr>tid = 0, status = THREAD_RUNNING, name = ''main'', stack = p + PGSIZE,
                  priority = PRI_DEFAULT, waiting_time = 0, prev_priority = PRI_DEFAULT, lock_temp = None,
                  lock_acquired = None, p_elem = None, priority_list = [], donee = None,
                  magic = THREAD_MAGIC\<rparr>"

lemma boot_total: "\<exists>k. boot p = Inr k"
  by (simp add: boot_def thread_init_def init_thread_def Let_def power_on_def push_frame
      PRI_MIN_def PRI_MAX_def PRI_DEFAULT_def)

lemma boot_state:
  assumes "boot p = Inr k"
  shows "threads k = [p \<mapsto> main_thread p]" "cur k = p" "ready_list k = []" "thread_list k = []"
    "idle_thread k = None" "initial_thread k = p"
    "frames k = (\<lambda>_. [])(p := [Lock_Acquire LA_Enter tid_lock, Thread_Create (TC_Tid p),
       Thread_Start TS_Enter, Client_Body])"
    "sems k = [Lock_Sema tid_lock \<mapsto> \<lparr>sema_value = 1, waiters = []\<rparr>]"
    "locks k = [tid_lock \<mapsto> \<lparr>holder = None, donor = None\<rparr>]"
    "intr_on k = False" "intr_context k = False"
  using assms
  by (auto simp: boot_def thread_init_def timer_init_def init_thread_def res_simps Let_def power_on_def
      frame_simps lock_init_def semaphore_init_def put_sema_def put_lock_def push_def upd_thread_def
      main_thread_def PRI_MIN_def PRI_MAX_def PRI_DEFAULT_def)

lemma boot_wf: "boot p = Inr k \<Longrightarrow> wf_kernel k"
proof -
  assume b: "boot p = Inr k"
  note k = boot_state[OF b] and th_def = main_thread_def
  have st: "state_of k = [p \<mapsto> THREAD_RUNNING]" by (simp add: state_of_def fun_eq_iff k th_def)
  have at: "at_place k P = []" for P
    by (cases P) (simp_all add: k sema_queue_def new_thread_def)
  have I: "idlers k = {}" by (auto simp: idlers_def k idle_body_def idle_call_def split: if_splits)
  have "placed (at_place k) (state_of k) (idle_thread k) {} (Some (cur k))"
    by (rule placedI) (auto simp: at st k split: if_splits)
  moreover have "magic_ok k" by (simp add: magic_ok_def k th_def)
  moreover have "frames_ok k"
    by (simp add: frames_ok_def k frame_ok_def base_frame_def new_thread_def)
  moreover have "local_ok k" by (simp add: local_ok_def sema_queue_def k)
  moreover have "fresh_ok k" using at[of "P_New _"] by (simp add: fresh_ok_def st k)
  ultimately show ?thesis by (simp add: wf_kernel_def core_def I)
qed

text \<open>The states of the runs from boot.\<close>

definition reachable :: "kernel \<Rightarrow> bool" where
  "reachable k \<longleftrightarrow> (\<exists>p k0. boot p = Inr k0 \<and> kernel_steps k0 k)"

lemma kernel_steps_wf: "kernel_steps k k' \<Longrightarrow> wf_kernel k \<Longrightarrow> wf_kernel k'"
  by (induction rule: kernel_steps.induct) (auto dest: kernel_step_wf)

lemma reachable_wf: "reachable k \<Longrightarrow> wf_kernel k"
  unfolding reachable_def using boot_wf kernel_steps_wf by blast

end
