(* ===== verification/Demo.thy ===== *)
theory Demo
  imports Kernel_Run
begin

text \<open>
  A concrete well-formed kernel the properties are applied to: a client thread runs on page 1,
  page 2 holds a ready thread and page 3 a thread that sleeps until tick 5.
\<close>

definition demo_thread :: "thread_status \<Rightarrow> int \<Rightarrow> int \<Rightarrow> thread" where
  "demo_thread st pri wt =
     \<lparr>tid = 1, status = st, name = ''demo'', stack = 0, priority = pri, waiting_time = wt,
      prev_priority = pri, lock_temp = None, lock_acquired = None, p_elem = None,
      priority_list = [], donee = None, magic = THREAD_MAGIC\<rparr>"

definition demo_env :: env where
  "demo_env = \<lparr>lib = stable_lib, switch_entry_frame_size = 8, switch_threads_frame_size = 28,
     misread = (\<lambda>_. 0), palloc_get_page = None\<rparr>"

definition demo_kernel :: kernel where
  "demo_kernel = (power_on 1)\<lparr>
     threads := [1 \<mapsto> demo_thread THREAD_RUNNING 31 0, 2 \<mapsto> demo_thread THREAD_READY 40 0,
                 3 \<mapsto> demo_thread THREAD_BLOCKED 20 5],
     frames := (\<lambda>_. [])(1 := [Client_Body], 2 := [Client_Body], 3 := [Client_Body]),
     ready_list := [2], thread_list := [3], ticks := 4, intr_on := True\<rparr>"

lemma demo_kernel_wf: "wf_kernel demo_kernel"
proof -
  note d = demo_kernel_def demo_thread_def power_on_def
  have st: "state_of demo_kernel = [1 \<mapsto> THREAD_RUNNING, 2 \<mapsto> THREAD_READY, 3 \<mapsto> THREAD_BLOCKED]"
    by (simp add: state_of_def fun_eq_iff d)
  have at: "at_place demo_kernel P = (case P of P_Ready \<Rightarrow> [2] | P_Sleep \<Rightarrow> [3] | _ \<Rightarrow> [])" for P
    by (cases P) (simp_all add: d sema_queue_def new_thread_def)
  have I: "idlers demo_kernel = {}" by (auto simp: idlers_def d idle_body_def idle_call_def split: if_splits)
  have "placed (at_place demo_kernel) (state_of demo_kernel) (idle_thread demo_kernel) {}
      (Some (cur demo_kernel))"
    by (rule placedI) (auto simp: at st split: if_splits place.splits, simp_all add: d)
  moreover have "magic_ok demo_kernel" by (simp add: magic_ok_def d)
  moreover have "frames_ok demo_kernel"
    by (simp add: frames_ok_def d frame_ok_def base_frame_def new_thread_def)
  moreover have "local_ok demo_kernel" by (simp add: local_ok_def sema_queue_def d)
  moreover have "fresh_ok demo_kernel"
    using at[of "P_New _"] by (simp add: fresh_ok_def st) (simp add: d)
  ultimately show ?thesis by (simp add: wf_kernel_def core_def I)
qed

end
