(* ===== verification/Scheduling.thy ===== *)
theory Scheduling
  imports Demo
begin

text \<open>
  What the scheduler of Lab 2 guarantees in well-formed states: a switch cannot fail while there
  is a thread to run, and a yield gives the processor to a thread of the highest priority.
\<close>

section \<open>Switches that succeed\<close>

definition sorted_ready :: "kernel \<Rightarrow> bool" where
  "sorted_ready k \<longleftrightarrow> sorted_by (list_priority_sort k) (ready_list k)"

lemma sorted_by_cong:
  "(\<And>a b. a \<in> set xs \<Longrightarrow> b \<in> set xs \<Longrightarrow> lt a b = lt' a b) \<Longrightarrow> sorted_by lt xs = sorted_by lt' xs"
  unfolding sorted_by_def by (induction xs) auto

lemma sorted_by_tl: "sorted_by lt (x # xs) \<Longrightarrow> sorted_by lt xs"
  by (simp add: sorted_by_def)

lemma prio_upd: "(\<And>th. priority (f th) = priority th) \<Longrightarrow> prio (upd_thread t f k) = prio k"
  by (auto simp: fun_eq_iff prio_def threads_upd_thread split: option.splits)

lemma list_priority_sort_cong: "prio k' = prio k \<Longrightarrow> list_priority_sort k' = list_priority_sort k"
  by (simp add: fun_eq_iff list_priority_sort_def)

lemma list_priority_sort_iff: "list_priority_sort k a b \<longleftrightarrow> prio k a > prio k b"
  by (simp add: list_priority_sort_def)

lemma placed_live: "core I k r \<Longrightarrow> t \<in> set (at_place k P) \<Longrightarrow> is_thread (Some t) k"
  using placed_status[OF core_placed, of I k r t P] core_magic[of I k r]
  by (auto simp: state_of_def is_thread_def magic_ok_def split: option.splits)

lemma schedule_total:
  assumes c: "core I k None" and off: "\<not> intr_on k" and nxt: "ready_list k \<noteq> [] \<or> idle_thread k \<noteq> None"
    and d: "state_of k (cur k) \<noteq> Some THREAD_DYING"
  shows "\<exists>k'. schedule k = Inr k' \<and> prio k' = prio k"
proof -
  define R where "R = (case ready_list k of [] \<Rightarrow> [] | n # ts \<Rightarrow> ts)"
  define W where "W = (case ready_list k of [] \<Rightarrow> idle_thread k | n # ts \<Rightarrow> Some n)"
  define k1 where "k1 = k\<lparr>ready_list := R\<rparr>"
  have run: "next_thread_to_run k = (W, k1)"
    by (cases "ready_list k") (simp_all add: next_thread_to_run_def W_def k1_def R_def)
  have st: "state_of k1 = state_of k" by (simp add: state_of_def k1_def fun_eq_iff)
  obtain n where n: "W = Some n" using nxt by (cases "ready_list k") (auto simp: W_def)
  have "is_thread (Some n) k"
  proof (cases "ready_list k")
    case Nil
    then have "idle_thread k = Some n" using n by (simp add: W_def)
    then show ?thesis
      using placed_idle_status[OF core_placed[OF c], of n] core_magic[OF c]
      by (auto simp: is_thread_def state_of_def magic_ok_def)
  next
    case (Cons m ts)
    then show ?thesis using placed_live[OF c, of n P_Ready] n by (simp add: W_def)
  qed
  then have live: "is_thread (Some n) k1" by (simp add: is_thread_def k1_def)
  have no: "state_of k (cur k) \<noteq> Some THREAD_RUNNING"
    using placed_running[OF core_placed[OF c]] by blast
  define k2 where "k2 = upd_thread n (\<lambda>th. th\<lparr>status := THREAD_RUNNING\<rparr>) (k1\<lparr>cur := n\<rparr>)"
  have "state_of k2 (cur k) \<noteq> Some THREAD_DYING"
    using d by (auto simp: k2_def threads_upd_thread k1_def state_of_def)
  moreover have "schedule k = thread_schedule_tail (if cur k \<noteq> n then Some (cur k) else None) (k1\<lparr>cur := n\<rparr>)"
    using run n live no off st by (auto simp: schedule_def k1_def)
  moreover have "\<not> intr_on (k1\<lparr>cur := n\<rparr>)" using off by (simp add: k1_def)
  ultimately have "schedule k = Inr (k2\<lparr>thread_ticks := 0\<rparr>)"
    by (auto simp: thread_schedule_tail_def Let_def k2_def state_of_def)
  moreover have "prio (k2\<lparr>thread_ticks := 0\<rparr>) = prio k"
    by (auto simp: fun_eq_iff prio_def k2_def k1_def threads_upd_thread split: option.splits)
  ultimately show ?thesis by blast
qed

section \<open>Yielding\<close>

lemma yield_effect:
  assumes c: "core I k (Some (cur k))" and ctx: "\<not> intr_context k"
    and idle: "idle_thread k \<noteq> Some (cur k)"
  shows "\<exists>k' xs. thread_yield E k = Inr k' \<and> prio k' = prio k \<and>
     xs = list_insert_ordered (lib E) (list_priority_sort k) (cur k) (ready_list k) \<and>
     xs = cur k' # ready_list k' \<and> \<not> intr_on k'"
proof -
  define k1 where "k1 = push [Intr_Set_Level (intr_on k)] (k\<lparr>intr_on := False\<rparr>)"
  define xs where "xs = list_insert_ordered (lib E) (list_priority_sort k) (cur k) (ready_list k)"
  define k2 where "k2 = upd_thread (cur k1) (\<lambda>th. th\<lparr>status := THREAD_READY\<rparr>) (k1\<lparr>ready_list := xs\<rparr>)"
  obtain th where th: "threads k (cur k) = Some th" "thread_current k = Inr th"
    using thread_current_core[OF c] by blast
  have p1: "prio k1 = prio k" by (simp add: fun_eq_iff prio_def k1_def frame_simps)
  have y: "thread_yield E k = schedule k2"
    using th ctx idle list_priority_sort_cong[OF p1]
    by (auto simp: thread_yield_def Let_def k2_def xs_def k1_def frame_simps)
  have "core I (k\<lparr>intr_on := False\<rparr>) (Some (cur (k\<lparr>intr_on := False\<rparr>)))"
    using core_same[OF same_fields(1) c] by simp
  from core_push[OF this, of "[Intr_Set_Level (intr_on k)]"]
  have c1: "core I k1 (Some (cur k1))" by (simp add: k1_def plain_simps frame_simps)
  have f1: "cur k1 = cur k" "idle_thread k1 = idle_thread k" "ready_list k1 = ready_list k"
    "threads k1 = threads k" by (simp_all add: k1_def frame_simps)
  have c2: "core I k2 None"
    using core_requeue[OF c1, of xs] idle f1 by (simp add: k2_def xs_def)
  have f2: "cur k2 = cur k" "ready_list k2 = xs" "intr_on k2 = False"
    by (simp_all add: k2_def f1 frame_simps) (simp add: k1_def frame_simps)
  have st: "state_of k2 (cur k) = Some THREAD_READY"
    using th(1) by (simp add: k2_def f1 state_of_upd_thread)
  have p2: "prio k2 = prio k"
    by (auto simp: fun_eq_iff prio_def k2_def threads_upd_thread f1 split: option.splits)
  have ne: "xs \<noteq> []" by (simp add: xs_def)
  obtain k' where k': "schedule k2 = Inr k'" "prio k' = prio k2"
    using schedule_total[OF c2] f2 st ne by auto
  have "case xs of [] \<Rightarrow> True | n # ts \<Rightarrow> cur k' = n \<and> ready_list k' = ts"
    using schedule_core[OF c2 _ k'(1)] f2 st by (auto split: list.splits)
  then have "xs = cur k' # ready_list k'" using ne by (auto split: list.splits)
  moreover have "\<not> intr_on k'"
    using schedule_core[OF c2 _ k'(1)] f2 st by (auto simp: switched_def)
  ultimately show ?thesis using y k' p2 xs_def by metis
qed

text \<open>C4: In a well-formed kernel whose ready list is ordered by priority, \<open>thread_yield\<close> cannot
  fail outside an interrupt, the thread it switches to has the highest priority of the caller
  and all ready threads, and the ready list is ordered again.\<close>

theorem yield_runs_highest_priority:
  assumes "core I k (Some (cur k))" and "\<not> intr_context k" and "idle_thread k \<noteq> Some (cur k)"
    and "sorted_ready k"
  shows "\<exists>k'. thread_yield E k = Inr k' \<and> cur k' \<in> set (cur k # ready_list k) \<and>
     (\<forall>t \<in> set (cur k # ready_list k). prio k t \<le> prio k (cur k')) \<and> sorted_ready k' \<and>
     mset (cur k' # ready_list k') = mset (cur k # ready_list k)"
proof -
  obtain k' xs where k': "thread_yield E k = Inr k'" "prio k' = prio k"
    and xs: "xs = list_insert_ordered (lib E) (list_priority_sort k) (cur k) (ready_list k)"
      "xs = cur k' # ready_list k'"
    using yield_effect[OF assms(1-3)] by metis
  have s: "sorted_by (list_priority_sort k) (cur k' # ready_list k')"
    using ready_order.sorted_insert assms(4) xs unfolding sorted_ready_def by metis
  have m: "mset (cur k' # ready_list k') = mset (cur k # ready_list k)"
    using xs by (metis mset.simps(2) mset_insert_ordered)
  have set: "set (cur k' # ready_list k') = set (cur k # ready_list k)"
    using m by (rule mset_eq_setD)
  have "\<not> list_priority_sort k t (cur k')" if "t \<in> set (cur k # ready_list k)" for t
    using ready_order.sorted_hd_least[OF s] that set by blast
  then have "\<forall>t \<in> set (cur k # ready_list k). prio k t \<le> prio k (cur k')"
    by (simp add: list_priority_sort_iff not_less)
  moreover have "sorted_ready k'"
    using sorted_by_tl[OF s] list_priority_sort_cong[OF k'(2)] by (simp add: sorted_ready_def)
  moreover have "cur k' \<in> set (cur k # ready_list k)" using set by (metis list.set_intros(1))
  ultimately show ?thesis using k'(1) m by blast
qed

theorem yield_runs_highest_priority_witness:
  "\<exists>k'. thread_yield demo_env demo_kernel = Inr k' \<and>
     cur k' \<in> set (cur demo_kernel # ready_list demo_kernel) \<and>
     (\<forall>t \<in> set (cur demo_kernel # ready_list demo_kernel). prio demo_kernel t \<le> prio demo_kernel (cur k')) \<and>
     sorted_ready k' \<and>
     mset (cur k' # ready_list k') = mset (cur demo_kernel # ready_list demo_kernel)"
proof (rule yield_runs_highest_priority)
  show "core (idlers demo_kernel) demo_kernel (Some (cur demo_kernel))"
    using demo_kernel_wf by (simp add: wf_kernel_def)
qed (simp_all add: demo_kernel_def power_on_def sorted_ready_def sorted_by_def)


section \<open>What runs next\<close>

text \<open>The scheduler runs the front of the ready list, and the idle thread when the list is
  empty; with neither it stops at its assertion \<open>is_thread(next)\<close>. This is the only failure.\<close>

theorem schedule_choice:
  assumes c: "core I k None" and off: "\<not> intr_on k" and d: "state_of k (cur k) \<noteq> Some THREAD_DYING"
  shows "case ready_list k of
       n # ts \<Rightarrow> \<exists>k'. schedule k = Inr k' \<and> cur k' = n \<and> ready_list k' = ts
     | [] \<Rightarrow> (case idle_thread k of
           Some i \<Rightarrow> \<exists>k'. schedule k = Inr k' \<and> cur k' = i
         | None \<Rightarrow> schedule k = Inl (Assert_Failed ''is_thread(next)''))"
proof (cases "ready_list k = [] \<and> idle_thread k = None")
  case True
  moreover have "state_of k (cur k) \<noteq> Some THREAD_RUNNING"
    using placed_running[OF core_placed[OF c]] by blast
  ultimately show ?thesis using off by (simp add: schedule_def next_thread_to_run_def is_thread_def)
next
  case False
  then obtain k' where k': "schedule k = Inr k'" using schedule_total[OF c off _ d] by blast
  note r = schedule_core[OF c _ k']
  show ?thesis using r d k' False by (auto split: list.splits option.splits)
qed

theorem schedule_choice_witness:
  "\<exists>k'. schedule (upd_thread 1 (\<lambda>th. th\<lparr>status := THREAD_READY\<rparr>)
       (demo_kernel\<lparr>intr_on := False, ready_list := [2, 1]\<rparr>)) = Inr k' \<and> cur k' = 2 \<and> ready_list k' = [1]"
proof -
  have w: "core (idlers demo_kernel) demo_kernel (Some (cur demo_kernel))"
    using demo_kernel_wf by (simp add: wf_kernel_def)
  let ?k = "demo_kernel\<lparr>intr_on := False\<rparr>"
  have f: "cur demo_kernel = 1" "idle_thread demo_kernel = None" "ready_list demo_kernel = [2]"
    "threads demo_kernel 1 = Some (demo_thread THREAD_RUNNING 31 0)"
    by (simp_all add: demo_kernel_def power_on_def)
  have "core (idlers demo_kernel) ?k (Some (cur ?k))"
    using core_same[OF same_fields(1) w] by simp
  from core_requeue[OF this, of "[2, 1]"]
  have "core (idlers demo_kernel) (upd_thread 1 (\<lambda>th. th\<lparr>status := THREAD_READY\<rparr>)
       (demo_kernel\<lparr>intr_on := False, ready_list := [2, 1]\<rparr>)) None"
    by (simp add: f)
  from schedule_choice[OF this] show ?thesis
    by (simp add: frame_simps f state_of_upd_thread demo_thread_def)
qed

section \<open>Waking and changing priorities\<close>

text \<open>\<open>thread_unblock\<close> succeeds exactly on a live thread that is blocked; it makes the
  thread ready, adds it to the ready list once and keeps the list ordered by priority.\<close>

theorem unblock_effect:
  "(case thread_unblock E t k of
      Inl e \<Rightarrow> \<not> (is_thread (Some t) k \<and> state_of k t = Some THREAD_BLOCKED)
    | Inr k' \<Rightarrow> is_thread (Some t) k \<and> state_of k t = Some THREAD_BLOCKED \<and>
        state_of k' = (state_of k)(t \<mapsto> THREAD_READY) \<and>
        mset (ready_list k') = add_mset t (mset (ready_list k)) \<and>
        (sorted_ready k \<longrightarrow> sorted_ready k'))"
proof (cases "thread_unblock E t k")
  case (Inl e)
  then show ?thesis by (auto simp: thread_unblock_def res_simps Let_def split: if_splits)
next
  case (Inr k')
  note u = thread_unblock_frame[OF Inr]
  have k': "k' = upd_thread t (\<lambda>th. th\<lparr>status := THREAD_READY\<rparr>)
      (k\<lparr>ready_list := list_insert_ordered (lib E) (list_priority_sort k) t (ready_list k)\<rparr>)"
    and live: "is_thread (Some t) k"
    using Inr by (auto simp: thread_unblock_def res_simps Let_def)
  have "prio k' = prio k"
    by (auto simp: fun_eq_iff prio_def u(17) split: option.splits)
  then have "list_priority_sort k' = list_priority_sort k" by (rule list_priority_sort_cong)
  then have "sorted_ready k \<longrightarrow> sorted_ready k'"
    using ready_order.sorted_insert by (simp add: sorted_ready_def k' frame_simps)
  then show ?thesis using Inr u live by simp
qed

theorem unblock_effect_witness:
  "case thread_unblock demo_env 3 demo_kernel of
      Inl e \<Rightarrow> \<not> (is_thread (Some 3) demo_kernel \<and> state_of demo_kernel 3 = Some THREAD_BLOCKED)
    | Inr k' \<Rightarrow> is_thread (Some 3) demo_kernel \<and> state_of demo_kernel 3 = Some THREAD_BLOCKED \<and>
        state_of k' = (state_of demo_kernel)(3 \<mapsto> THREAD_READY) \<and>
        mset (ready_list k') = add_mset 3 (mset (ready_list demo_kernel)) \<and> sorted_ready k'"
  using unblock_effect[where E = demo_env and t = 3 and k = demo_kernel]
  by (auto simp: sorted_ready_def sorted_by_def demo_kernel_def power_on_def split: sum.splits)

text \<open>\<open>thread_set_priority\<close> always sets the base priority. With no donation in effect it
  also sets the effective priority and yields exactly when some ready thread is now ahead; while
  a donation is in effect the effective priority stays and there is no yield.\<close>

theorem set_priority_effect:
  assumes c: "core I k (Some (cur k))" and th: "threads k (cur k) = Some th"
  shows "\<exists>k' th'. thread_set_priority p k = Inr k' \<and> threads k' (cur k) = Some th' \<and>
     prev_priority th' = p \<and>
     priority th' = (if priority_list th = [] then p else priority th) \<and>
     frames k' (cur k) =
       (if priority_list th = [] \<and> (\<exists>t \<in> set (ready_list k). prio k t > p) then [Thread_Yield] else [])
       @ frames k (cur k)"
proof -
  let ?k = "upd_thread (cur k) (\<lambda>th. th\<lparr>prev_priority := p\<rparr>) k"
  obtain th0 where "threads k (cur k) = Some th0" "status th0 = THREAD_RUNNING" "magic th0 = THREAD_MAGIC"
    using core_running[OF c] by blast
  then have m: "status th = THREAD_RUNNING" "magic th = THREAD_MAGIC" using th by simp_all
  have cur: "thread_current k = Inr th" "thread_current ?k = Inr (th\<lparr>prev_priority := p\<rparr>)"
    using th m by (simp_all add: thread_current_Inr_iff frame_simps threads_upd_thread)
  have "cur k \<notin> set (ready_list k)"
    using placed_running_nowhere[OF core_placed[OF c], of P_Ready] by simp
  then have pr: "t \<in> set (ready_list k) \<Longrightarrow> prio (upd_thread (cur k) f (upd_thread (cur k) g k)) t = prio k t"
    for t f g by (auto simp: prio_def threads_upd_thread split: option.splits)
  have pc: "prio (upd_thread (cur k) (\<lambda>th. th\<lparr>priority := p\<rparr>) ?k) (cur k) = p"
    using th by (simp add: prio_def threads_upd_thread)
  show ?thesis
    using th cur pr pc
    by (auto simp: thread_set_priority_def Let_def frame_simps threads_upd_thread frames_push list_ex_iff)
qed

theorem set_priority_effect_witness:
  "\<exists>k' th'. thread_set_priority 10 demo_kernel = Inr k' \<and> threads k' (cur demo_kernel) = Some th' \<and>
     prev_priority th' = 10 \<and> priority th' = 10 \<and>
     frames k' (cur demo_kernel) = [Thread_Yield, Client_Body]"
proof -
  have w: "core (idlers demo_kernel) demo_kernel (Some (cur demo_kernel))"
    using demo_kernel_wf by (simp add: wf_kernel_def)
  have "threads demo_kernel (cur demo_kernel) = Some (demo_thread THREAD_RUNNING 31 0)"
    by (simp add: demo_kernel_def power_on_def)
  from set_priority_effect[OF w this, of 10] show ?thesis
    by (simp add: demo_kernel_def power_on_def prio_def demo_thread_def)
qed

text \<open>When \<open>thread_create\<close> has made the new thread ready, the creator yields exactly when
  the new thread has the higher priority.\<close>

theorem create_preempts:
  assumes "core I k (Some (cur k))" and "threads k t = Some th"
  shows "thread_create E (TC_Preempt t) k =
     Inr (if priority th > prio k (cur k) then push [Thread_Yield] k else k)"
  using thread_current_core[OF assms(1)] assms(2)
  by (auto simp: thread_get_priority_def get_thread_def prio_def)

theorem create_preempts_witness:
  "thread_create demo_env (TC_Preempt 2) demo_kernel = Inr (push [Thread_Yield] demo_kernel)"
proof -
  have "core (idlers demo_kernel) demo_kernel (Some (cur demo_kernel))"
    using demo_kernel_wf by (simp add: wf_kernel_def)
  from create_preempts[OF this, of 2 "demo_thread THREAD_READY 40 0" demo_env] show ?thesis
    by (simp add: demo_kernel_def power_on_def prio_def demo_thread_def)
qed

end
