(* ===== verification/Alarm.thy ===== *)
theory Alarm
  imports Scheduling
begin

text \<open>
  The alarm clock of Lab 2 in every well-formed state: the timer interrupt cannot fail, and it
  wakes the sleepers whose time has come, whatever the order of the list of sleepers.
\<close>

section \<open>Sleepers\<close>

definition wait_of :: "kernel \<Rightarrow> tptr \<Rightarrow> int" where
  "wait_of k t = (case threads k t of None \<Rightarrow> 0 | Some th \<Rightarrow> waiting_time th)"

definition due :: "kernel \<Rightarrow> tptr \<Rightarrow> bool" where
  "due k t \<longleftrightarrow> wait_of k t \<le> ticks k"

text \<open>A waiting thread can be woken: the two assertions of \<open>thread_unblock\<close> hold.\<close>

lemma unblock_waiting:
  assumes c: "core I k r" and t: "t \<in> set (at_place k P)" "P \<noteq> P_Ready"
    and k1: "threads k1 = threads k"
  shows "\<exists>k'. thread_unblock E t k1 = Inr k'"
proof -
  have "state_of k t = Some THREAD_BLOCKED" using placed_status[OF core_placed[OF c] t(1)] t(2) by simp
  then obtain th where th: "threads k t = Some th" "status th = THREAD_BLOCKED"
    by (auto simp: state_of_def)
  then have "is_thread (Some t) k1" and "state_of k1 t = Some THREAD_BLOCKED"
    using core_magic[OF c] by (auto simp: is_thread_def magic_ok_def state_of_def k1)
  then show ?thesis by (simp add: thread_unblock_def Let_def)
qed

lemma remove1_filter: "distinct xs \<Longrightarrow> remove1 t xs = filter (\<lambda>x. x \<noteq> t) xs"
  by (simp add: distinct_remove1_removeAll removeAll_filter_not_eq) (metis (no_types))

lemma wake_one:
  assumes c: "core I k r" and t: "t \<in> set (thread_list k)"
  shows "\<exists>k'. timer_wake E t k = Inr k' \<and> wait_of k' = wait_of k \<and> ticks k' = ticks k \<and>
     intr_on k' = intr_on k \<and> yield_on_return k' = yield_on_return k \<and>
     thread_list k' = filter (\<lambda>x. \<not> (x = t \<and> due k x)) (thread_list k) \<and>
     mset (ready_list k') = mset (ready_list k) + (if due k t then {#t#} else {#})"
proof -
  have "state_of k t = Some THREAD_BLOCKED"
    using placed_status[OF core_placed[OF c], of t P_Sleep] t by simp
  then obtain th where th: "threads k t = Some th" by (auto simp: state_of_def)
  then have w: "due k t \<longleftrightarrow> waiting_time th \<le> timer_ticks k"
    by (simp add: due_def wait_of_def timer_ticks_def)
  show ?thesis
  proof (cases "due k t")
    case False
    then have "timer_wake E t k = Inr k" using th w by (simp add: timer_wake_def get_thread_def)
    moreover have "filter (\<lambda>x. \<not> (x = t \<and> due k x)) (thread_list k) = thread_list k"
      using False by (simp add: filter_id_conv)
    ultimately show ?thesis using False by auto
  next
    case True
    let ?k = "k\<lparr>thread_list := remove1 t (thread_list k)\<rparr>"
    obtain k' where k': "thread_unblock E t ?k = Inr k'"
      using unblock_waiting[OF c, of t P_Sleep ?k E] t by auto
    note u = thread_unblock_frame[OF k']
    have "timer_wake E t k = Inr k'" using th w True k' by (simp add: timer_wake_def get_thread_def)
    moreover have "wait_of k' = wait_of k"
      using th by (auto simp: fun_eq_iff wait_of_def u(17))
    moreover have "remove1 t (thread_list k) = filter (\<lambda>x. \<not> (x = t \<and> due k x)) (thread_list k)"
      using True remove1_filter[OF placed_distinct[OF core_placed[OF c], of P_Sleep], of t]
      by (auto intro: filter_cong)
    ultimately show ?thesis using u True by auto
  qed
qed

lemma wake_all:
  assumes "core I k r" and "set ts \<subseteq> set (thread_list k)" and "distinct ts"
  shows "\<exists>k'. fold_res (timer_wake E) ts k = Inr k' \<and> wait_of k' = wait_of k \<and> ticks k' = ticks k \<and>
     intr_on k' = intr_on k \<and> yield_on_return k' = yield_on_return k \<and>
     thread_list k' = filter (\<lambda>x. \<not> (x \<in> set ts \<and> due k x)) (thread_list k) \<and>
     mset (ready_list k') = mset (ready_list k) + mset (filter (due k) ts)"
  using assms
proof (induction ts arbitrary: k)
  case Nil
  then show ?case by simp
next
  case (Cons t ts)
  have t: "t \<in> set (thread_list k)" using Cons.prems(2) by simp
  obtain k1 where k1: "timer_wake E t k = Inr k1" "wait_of k1 = wait_of k" "ticks k1 = ticks k"
     "intr_on k1 = intr_on k" "yield_on_return k1 = yield_on_return k"
     "thread_list k1 = filter (\<lambda>x. \<not> (x = t \<and> due k x)) (thread_list k)"
     "mset (ready_list k1) = mset (ready_list k) + (if due k t then {#t#} else {#})"
    using wake_one[OF Cons.prems(1) t] by blast
  have d: "due k1 = due k" by (simp add: fun_eq_iff due_def k1)
  have "set ts \<subseteq> set (thread_list k1)" using Cons.prems(2,3) by (auto simp: k1)
  from Cons.IH[OF wake_core(1)[OF Cons.prems(1) t k1(1)] this] Cons.prems(3)
  obtain k' where k': "fold_res (timer_wake E) ts k1 = Inr k'" "wait_of k' = wait_of k1"
    "ticks k' = ticks k1" "intr_on k' = intr_on k1" "yield_on_return k' = yield_on_return k1"
    "thread_list k' = filter (\<lambda>x. \<not> (x \<in> set ts \<and> due k x)) (thread_list k1)"
    "mset (ready_list k') = mset (ready_list k1) + mset (filter (due k) ts)"
    by (auto simp: d)
  have "thread_list k' = filter (\<lambda>x. \<not> (x \<in> set (t # ts) \<and> due k x)) (thread_list k)"
    by (auto simp: k'(6) k1(6) intro: filter_cong)
  moreover have "mset (ready_list k') = mset (ready_list k) + mset (filter (due k) (t # ts))"
    by (simp add: k'(7) k1(7))
  moreover have "fold_res (timer_wake E) (t # ts) k = Inr k'" using k1(1) k'(1) by simp
  ultimately show ?case using k1 k' by (intro exI[of _ k']) simp
qed

section \<open>The interrupt\<close>

lemma thread_tick_total:
  assumes c: "core I k (Some (cur k))"
  shows "\<exists>k'. thread_tick k = Inr k' \<and> threads k' = threads k \<and> ticks k' = ticks k \<and>
     thread_list k' = thread_list k \<and> ready_list k' = ready_list k \<and> intr_on k' = intr_on k \<and>
     thread_ticks k' = thread_ticks k + 1 \<and>
     yield_on_return k' = (yield_on_return k \<or> TIME_SLICE \<le> thread_ticks k + 1)"
  using thread_current_core[OF c] by (auto simp: thread_tick_def Let_def)

lemma timer_irq_effect:
  assumes wf: "wf_kernel k" and n: "in_int64 (ticks k + 1)"
  shows "\<exists>k'. timer_irq E k = Inr k' \<and> ticks k' = ticks k + 1 \<and>
     (\<forall>t. wait_of k' t = wait_of k t) \<and>
     thread_list k' = filter (\<lambda>t. ticks k' < wait_of k t) (thread_list k) \<and>
     mset (ready_list k') =
       mset (ready_list k) + mset (filter (\<lambda>t. wait_of k t \<le> ticks k') (thread_list k)) \<and>
     frames k' (cur k) = (if TIME_SLICE \<le> thread_ticks k + 1 then [Thread_Yield, Intr_Set_Level True] else [])
        @ frames k (cur k)"
proof -
  let ?k = "k\<lparr>intr_on := False, intr_context := True, yield_on_return := False\<rparr>"
  let ?kt = "?k\<lparr>ticks := ticks k + 1\<rparr>"
  have c: "core (idlers k) k (Some (cur k))" using wf by (simp add: wf_kernel_def)
  have c1: "core (idlers k) ?k (Some (cur ?k))"
    using core_same[OF same_fields(8) core_same[OF same_fields(7) core_same[OF same_fields(1) c]]] by simp
  have c0: "core (idlers k) ?kt (Some (cur ?kt))"
    by (rule core_same[OF same_fields(6)]) (use c1 in simp)
  obtain k1 where k1: "thread_tick ?kt = Inr k1" "threads k1 = threads k" "ticks k1 = ticks k + 1"
     "thread_list k1 = thread_list k" "ready_list k1 = ready_list k" "intr_on k1 = False"
     "yield_on_return k1 = (TIME_SLICE \<le> thread_ticks k + 1)"
    using thread_tick_total[OF c0] by auto
  have w1: "wait_of k1 = wait_of k" by (simp add: fun_eq_iff wait_of_def k1)
  let ?k1 = "k1\<lparr>intr_on := False\<rparr>"
  have c2: "core (idlers k) ?k1 (Some (cur k))"
    using core_same[OF same_trans[OF thread_tick_same[OF k1(1)] same_fields(1)] c0] by simp
  obtain k2 where k2: "fold_res (timer_wake E) (thread_list ?k1) ?k1 = Inr k2" "wait_of k2 = wait_of ?k1"
    "ticks k2 = ticks ?k1" "yield_on_return k2 = yield_on_return ?k1"
    "thread_list k2 = filter (\<lambda>x. \<not> (x \<in> set (thread_list ?k1) \<and> due ?k1 x)) (thread_list ?k1)"
    "mset (ready_list k2) = mset (ready_list ?k1) + mset (filter (due ?k1) (thread_list ?k1))"
    using wake_all[OF c2, of "thread_list ?k1" E] placed_distinct[OF core_placed[OF c2], of P_Sleep]
    by auto
  define k3 where "k3 = k2\<lparr>intr_on := intr_on k1\<rparr>"
  have i: "timer_interrupt E ?k = Inr k3"
    using k1(1) k2(1) n by (simp add: timer_interrupt_def add_int64_def Let_def k3_def)
  have fr: "frames k3 = frames k" "cur k3 = cur k" using timer_interrupt_core[OF c1 i] by simp_all
  have w: "wait_of (x\<lparr>intr_on := b\<rparr>) = wait_of x" "wait_of (x\<lparr>intr_context := b\<rparr>) = wait_of x"
    "wait_of (push us x) = wait_of x" for x b us
    by (simp_all add: fun_eq_iff wait_of_def frame_simps)
  have due1: "due ?k1 = (\<lambda>t. wait_of k t \<le> ticks k + 1)" by (simp add: fun_eq_iff due_def w w1 k1)
  have l: "thread_list k2 = filter (\<lambda>t. ticks k + 1 < wait_of k t) (thread_list k)"
    unfolding k2(5) due1 by (auto simp: k1 intro: filter_cong)
  have m: "mset (ready_list k2) = mset (ready_list k) + mset (filter (\<lambda>t. wait_of k t \<le> ticks k + 1) (thread_list k))"
    unfolding k2(6) due1 by (simp add: k1)
  show ?thesis
    using i fr l m k2(2,3,4)
    by (auto simp: timer_irq_def Let_def frame_simps frames_push w k3_def w1 k1)
qed


text \<open>C5: In a well-formed kernel the timer interrupt cannot fail, short of an overflow of the tick
  counter, and it wakes exactly the sleepers whose time has come: they move from the list of
  sleepers to the ready list and the others stay, in their order. Since the whole list is
  scanned this holds for every order \<open>list_wake_sort\<close> gives it.\<close>

theorem timer_irq_wakes_due:
  assumes "wf_kernel k" and "in_int64 (ticks k + 1)"
  shows "\<exists>k'. timer_irq E k = Inr k' \<and> ticks k' = ticks k + 1 \<and>
     thread_list k' = filter (\<lambda>t. ticks k' < wait_of k t) (thread_list k) \<and>
     mset (ready_list k') =
       mset (ready_list k) + mset (filter (\<lambda>t. wait_of k t \<le> ticks k') (thread_list k))"
  using timer_irq_effect[OF assms] by blast

theorem timer_irq_wakes_due_witness:
  "\<exists>k'. timer_irq demo_env demo_kernel = Inr k' \<and> ticks k' = 5 \<and> thread_list k' = [] \<and>
     mset (ready_list k') = {#2, 3#}"
proof -
  have "wait_of demo_kernel 3 = 5" "ticks demo_kernel = 4" "thread_list demo_kernel = [3]"
    "ready_list demo_kernel = [2]"
    by (simp_all add: wait_of_def demo_kernel_def power_on_def demo_thread_def)
  then show ?thesis
    using timer_irq_wakes_due[OF demo_kernel_wf, of demo_env] by (auto simp: in_int64_def)
qed

text \<open>The interrupted thread is made to yield exactly when it has used up its time slice; its
  other calls stay as they are below.\<close>

theorem timer_irq_preempts:
  assumes "wf_kernel k" and "in_int64 (ticks k + 1)"
  shows "\<exists>k'. timer_irq E k = Inr k' \<and>
     frames k' (cur k) = (if TIME_SLICE \<le> thread_ticks k + 1 then [Thread_Yield, Intr_Set_Level True] else [])
        @ frames k (cur k)"
  using timer_irq_effect[OF assms] by blast

theorem timer_irq_preempts_witness:
  "\<exists>k'. timer_irq demo_env demo_kernel = Inr k' \<and> frames k' (cur demo_kernel) = [Client_Body]"
proof -
  have "ticks demo_kernel = 4" "thread_ticks demo_kernel = 0" "frames demo_kernel (cur demo_kernel) = [Client_Body]"
    by (simp_all add: demo_kernel_def power_on_def)
  then show ?thesis
    using timer_irq_preempts[OF demo_kernel_wf, of demo_env] by (simp add: in_int64_def TIME_SLICE_def word_le_nat_alt)
qed

section \<open>Going to sleep\<close>

lemma block_effect:
  assumes c: "core I k (Some (cur k))" and idle: "idle_thread k \<noteq> Some (cur k)"
    and P: "P \<noteq> P_Ready" "\<forall>u. P \<noteq> P_New u"
    and k1: "at_place k1 = (at_place k)(P := xs)" "state_of k1 = state_of k"
      "idle_thread k1 = idle_thread k" "magic_ok k1" "frames_ok k1" "local_ok k1" "fresh_ok k1"
      "cur k1 = cur k"
    and xs: "mset xs = add_mset (cur k) (mset (at_place k P))"
    and ok: "\<not> intr_on k1" "\<not> intr_context k1" "ready_list k \<noteq> [] \<or> idle_thread k \<noteq> None"
  shows "\<exists>k'. thread_block k1 = Inr k' \<and> state_of k' (cur k) = Some THREAD_BLOCKED \<and> cur k' \<noteq> cur k"
proof -
  let ?k = "upd_thread (cur k) (\<lambda>th. th\<lparr>status := THREAD_BLOCKED\<rparr>) k1"
  have "placed (at_place k1) ((state_of k1)(cur k \<mapsto> THREAD_BLOCKED)) (idle_thread k1) I None"
    using placed_block[OF core_placed[OF c] idle P xs] k1(1,2,3) by simp
  moreover obtain th where th: "threads k (cur k) = Some th" "status th = THREAD_RUNNING"
    using core_running[OF c] by blast
  have live: "threads k1 (cur k) \<noteq> None" and run: "state_of k1 (cur k) = Some THREAD_RUNNING"
    using th fun_cong[OF k1(2), of "cur k"] by (auto simp: state_of_def)
  ultimately have c1: "core I ?k None"
    using k1 live
    by (simp add: core_def state_of_set_status magic_ok_upd frames_local_upd_thread frame_simps)
  have st: "state_of ?k (cur k) = Some THREAD_BLOCKED" using live by (simp add: state_of_set_status)
  have cur: "thread_current k1 = Inr (the (threads k1 (cur k)))"
    using live run k1(4,8) by (auto simp: thread_current_Inr_iff state_of_def magic_ok_def)
  have "ready_list k1 = ready_list k" using fun_cong[OF k1(1), of P_Ready] P by simp
  then obtain k' where k': "schedule ?k = Inr k'"
    using schedule_total[OF c1] ok k1(3,8) st by (auto simp: frame_simps)
  have b: "thread_block k1 = Inr k'"
    using k' cur ok k1(8) by (simp add: thread_block_def)
  have r: "core I k' (Some (cur k')) \<and> (case ready_list ?k of [] \<Rightarrow> idle_thread ?k = Some (cur k') \<and> ready_list k' = []
        | n # ts \<Rightarrow> cur k' = n \<and> ready_list k' = ts)"
    using schedule_core[OF c1 _ k'] st k1(8) by (simp add: frame_simps)
  have notin: "cur k \<notin> set (ready_list k)"
    using placed_running_nowhere[OF core_placed[OF c], of P_Ready] by simp
  have ne: "cur k' \<noteq> cur k"
    using r idle k1(3) notin \<open>ready_list k1 = ready_list k\<close> by (auto simp: frame_simps split: list.splits)
  have "state_of k' (cur k) = Some THREAD_BLOCKED"
  proof -
    have "switched k1 k'" using block_core[OF c idle P k1 xs b] by blast
    then have "at_place k' P = at_place k1 P"
      using P by (cases P) (simp_all add: switched_def sema_queue_def)
    then have "cur k \<in> set (at_place k' P)" using k1(1) mset_add_facts(1)[OF xs] by simp
    then show ?thesis using placed_status[OF core_placed[OF conjunct1[OF r]], of "cur k" P] P by simp
  qed
  then show ?thesis using b ne by blast
qed

lemma block_switches:
  assumes c: "core I k (Some (cur k))" and idle: "idle_thread k \<noteq> Some (cur k)"
    and P: "P \<noteq> P_Ready" "\<forall>u. P \<noteq> P_New u"
    and k1: "at_place k1 = (at_place k)(P := xs)" "state_of k1 = state_of k"
      "idle_thread k1 = idle_thread k" "magic_ok k1" "frames_ok k1" "local_ok k1" "fresh_ok k1"
      "cur k1 = cur k"
    and xs: "mset xs = add_mset (cur k) (mset (at_place k P))"
    and ok: "\<not> intr_on k1" "\<not> intr_context k1" "ready_list k \<noteq> [] \<or> idle_thread k \<noteq> None"
  shows "\<exists>k'. thread_block k1 = Inr k' \<and> state_of k' (cur k) = Some THREAD_BLOCKED \<and> cur k' \<noteq> cur k \<and>
    frames k' = frames k1 \<and> sems k' = sems k1 \<and> thread_list k' = thread_list k1"
proof -
  obtain k' where k': "thread_block k1 = Inr k'" "state_of k' (cur k) = Some THREAD_BLOCKED" "cur k' \<noteq> cur k"
    using block_effect[OF assms] by blast
  have "switched k1 k'" using block_core[OF c idle P k1 xs k'(1)] by blast
  moreover have "state_of k1 (cur k1) \<noteq> Some THREAD_DYING"
    using core_running[OF c] k1(2,8) by (auto simp: state_of_def)
  ultimately have "frames k' = frames k1 \<and> sems k' = sems k1 \<and> thread_list k' = thread_list k1"
    by (auto simp: switched_def fun_eq_iff)
  then show ?thesis using k' by blast
qed

text \<open>A thread that goes to sleep stops running and waits on the list of sleepers; the switch
  cannot fail while there is another thread to run.\<close>

theorem sleep_blocks:
  assumes wf: "wf_kernel k" and f: "frames k (cur k) = Timer_Sleep SL_Block n # fs"
    and ctx: "\<not> intr_context k" and run: "ready_list k \<noteq> [] \<or> idle_thread k \<noteq> None"
  shows "\<exists>k'. timer_sleep E SL_Block n (pop k) = Inr k' \<and> cur k' \<noteq> cur k \<and>
     state_of k' (cur k) = Some THREAD_BLOCKED \<and> cur k \<in> set (thread_list k') \<and>
     frames k' (cur k) = Intr_Set_Level (intr_on k) # fs"
proof -
  have nt: "new_thread (Timer_Sleep SL_Block n) = []" by (simp add: new_thread_def)
  note c = popped_core[OF wf f nt]
  define xs where "xs = list_insert_ordered (lib E) (list_wake_sort E) (cur k) (thread_list k)"
  define k1 where "k1 = push [Intr_Set_Level (intr_on k)] ((pop k)\<lparr>intr_on := False, thread_list := xs\<rparr>)"
  have b: "timer_sleep E SL_Block n (pop k) = thread_block k1"
    using thread_current_core[OF c] by (auto simp: Let_def frame_simps xs_def k1_def)
  have "cur k \<notin> idlers k" by (rule not_idler[OF f]) (simp_all add: idle_call_def idle_body_def)
  then have ni: "idle_thread (pop k) \<noteq> Some (cur (pop k))"
    using placed_idle[OF core_placed[OF c], of "cur (pop k)"] by (auto simp: frame_simps)
  have A: "at_place k1 = (at_place (pop k))(P_Sleep := xs)"
    unfolding k1_def
    by (subst at_place_push, simp add: new_thread_def)
      (rule at_place_eqI, auto simp: frame_simps sema_queue_def frames_pop)
  have mx: "mset xs = add_mset (cur (pop k)) (mset (at_place (pop k) P_Sleep))"
    by (simp add: xs_def frame_simps)
  have k1: "state_of k1 = state_of k" "idle_thread k1 = idle_thread k" "cur k1 = cur k"
    "sema_queue k1 = sema_queue k" "initial_thread k1 = initial_thread k" "threads k1 = threads k"
    "intr_on k1 = False" "intr_context k1 = intr_context k" "thread_list k1 = xs"
    by (simp_all add: k1_def frame_simps state_of_def fun_eq_iff sema_queue_def)
  have fo: "frames_ok k1"
    using core_frames[OF c] by (simp add: frames_ok_def k1_def frames_push frame_simps frame_ok_def base_frame_def)
  have fr: "fresh_ok k1" unfolding k1_def
  proof (rule fresh_ok_push)
    show "fresh_ok ((pop k)\<lparr>intr_on := False, thread_list := xs\<rparr>)"
      using core_fresh[OF c] by (simp add: fresh_ok_def state_of_def)
  qed (use core_running[OF c] placed_running_nowhere[OF core_placed[OF c], of "P_New _"] in
      \<open>auto simp: new_thread_def frame_simps state_of_def\<close>)
  have lo: "local_ok k1"
    using core_local[OF c] by (simp add: local_ok_def k1 frame_simps)
  have m: "magic_ok k1" using core_magic[OF c] by (simp add: k1 frame_simps magic_ok_def)
  obtain k' where k': "thread_block k1 = Inr k'" "state_of k' (cur k) = Some THREAD_BLOCKED" "cur k' \<noteq> cur k"
    "frames k' = frames k1" "thread_list k' = xs"
    using block_switches[OF c ni, of P_Sleep k1 xs, OF _ _ A _ _ m fo lo fr _ mx] ctx run
    by (auto simp: k1 frame_simps)
  then show ?thesis using b k'
    by (auto simp: xs_def k1_def frames_push frames_pop frame_simps f)
qed

definition sleepy_kernel :: kernel where
  "sleepy_kernel = push [Timer_Sleep SL_Block 3] demo_kernel"

lemma sleepy_kernel_wf: "wf_kernel sleepy_kernel"
proof -
  have "quiet (\<lambda>_. True) demo_kernel sleepy_kernel"
    by (auto simp: sleepy_kernel_def plain_simps intro!: quiet_push)
  moreover have "core (idlers demo_kernel) demo_kernel (Some (cur demo_kernel))"
    using demo_kernel_wf by (simp add: wf_kernel_def)
  ultimately have "core (idlers demo_kernel) sleepy_kernel (Some (cur sleepy_kernel))"
    using quiet_core by blast
  then show ?thesis
    by (rule wf_close_cur)
      (auto simp: sleepy_kernel_def frames_push idlers_def demo_kernel_def power_on_def idle_call_def idle_body_def)
qed

theorem sleep_blocks_witness:
  "\<exists>k'. timer_sleep demo_env SL_Block 3 (pop sleepy_kernel) = Inr k' \<and> cur k' \<noteq> 1 \<and>
     state_of k' 1 = Some THREAD_BLOCKED \<and> 1 \<in> set (thread_list k') \<and>
     frames k' 1 = [Intr_Set_Level True, Client_Body]"
proof -
  have f: "frames sleepy_kernel (cur sleepy_kernel) = [Timer_Sleep SL_Block 3, Client_Body]"
    and "\<not> intr_context sleepy_kernel" and "ready_list sleepy_kernel \<noteq> []"
    and "cur sleepy_kernel = 1" and "intr_on sleepy_kernel"
    by (simp_all add: sleepy_kernel_def frames_push frame_simps demo_kernel_def power_on_def)
  then show ?thesis using sleep_blocks[OF sleepy_kernel_wf f, of demo_env] by auto
qed

text \<open>The wake-up time a thread sets is the tick at which it called plus the ticks it asked for,
  and a thread that asks for none does not sleep.\<close>

theorem sleep_sets_wake_time:
  assumes "core I k (Some (cur k))" and "intr_on k" and "in_int64 (start + n)"
  shows "\<exists>k'. timer_sleep E (SL_Mark start) n k = Inr k' \<and>
     (if n > 0 then wait_of k' (cur k) = start + n \<and> frames k' (cur k) = Timer_Sleep SL_Block n # frames k (cur k)
      else k' = k)"
  using thread_current_core[OF assms(1)] assms(2,3)
  by (auto simp: add_int64_def frames_push frame_simps wait_of_def threads_upd_thread)

theorem sleep_sets_wake_time_witness:
  "\<exists>k'. timer_sleep demo_env (SL_Mark 4) 3 demo_kernel = Inr k' \<and> wait_of k' 1 = 7"
proof -
  have "core (idlers demo_kernel) demo_kernel (Some (cur demo_kernel))"
    using demo_kernel_wf by (simp add: wf_kernel_def)
  from sleep_sets_wake_time[OF this, of 4 3 demo_env] show ?thesis
    by (auto simp: in_int64_def demo_kernel_def power_on_def)
qed

end
