(* ===== verification/Waiting.thy ===== *)
theory Waiting
  imports Alarm
begin

text \<open>
  Semaphores and condition variables of Lab 2: what a wait and a wake-up do in every well-formed
  state, and the priority a thread ends up with.
\<close>

section \<open>Raising a semaphore\<close>

lemma sem_priority_sort_iff: "sem_priority_sort k a b \<longleftrightarrow> prio k a > prio k b"
  by (simp add: sem_priority_sort_def)

lemma up_wakes:
  assumes c: "core I k (Some (cur k))" and s: "sems k s = Some sm"
  shows "\<exists>k' sm'. semaphore_up E SU_Enter s k = Inr k' \<and> sems k' s = Some sm' \<and>
     sema_value sm' = sema_value sm + 1 \<and> condvars k' = condvars k \<and>
     (if waiters sm = [] then waiters sm' = [] \<and> ready_list k' = ready_list k
      else \<exists>t \<in> set (waiters sm). (\<forall>u \<in> set (waiters sm). prio k u \<le> prio k t) \<and>
        mset (waiters sm') = mset (waiters sm) - {#t#} \<and>
        mset (ready_list k') = add_mset t (mset (ready_list k)) \<and>
        state_of k t = Some THREAD_BLOCKED \<and> state_of k' t = Some THREAD_READY)"
proof -
  obtain th where th: "thread_current k = Inr th" using thread_current_core[OF c] by blast
  show ?thesis
  proof (cases "waiters sm")
    case Nil
    then have "list_sort (lib E) (sem_priority_sort k) (waiters sm) = []"
      by (simp add: waiter_order.sort_Nil_iff)
    then show ?thesis using th s Nil
      by (simp add: get_sema_def sems_put_sema frame_simps)
  next
    case (Cons w ws)
    then have ne: "list_sort (lib E) (sem_priority_sort k) (waiters sm) \<noteq> []"
      by (simp add: waiter_order.sort_Nil_iff)
    then obtain t ts where ts: "list_sort (lib E) (sem_priority_sort k) (waiters sm) = t # ts"
      by (meson list.exhaust)
    have m: "mset (waiters sm) = add_mset t (mset ts)"
      using waiter_order.mset_sort[of "lib E" k "waiters sm"] by (simp add: ts)
    have t: "t \<in> set (waiters sm)" using mset_add_facts(1)[OF m] by simp
    let ?k = "put_sema s (sm\<lparr>waiters := ts\<rparr>) k"
    have "t \<in> set (at_place k (P_Sema s))" using t s by (simp add: sema_queue_def)
    then obtain k1 where k1: "thread_unblock E t ?k = Inr k1"
      using unblock_waiting[OF c, of t "P_Sema s" ?k E] by (auto simp: frame_simps)
    note u = thread_unblock_frame[OF k1]
    have "\<forall>u \<in> set (waiters sm). prio k u \<le> prio k t"
      using waiter_order.sort_hd_least[OF ts] by (simp add: sem_priority_sort_iff not_less)
    moreover have "semaphore_up E SU_Enter s k = Inr (push [Sema_Up (SU_Preempt t) s]
        (put_sema s (sm\<lparr>waiters := ts, sema_value := sema_value sm + 1\<rparr>) k1))"
      using th s ts k1 by (simp add: get_sema_def)
    ultimately show ?thesis using u t m Cons
      by (auto simp: sems_put_sema frame_simps)
  qed
qed

text \<open>C8: \<open>semaphore_up\<close> cannot fail before it decides on preemption: it adds one to the value,
  and if threads wait it wakes exactly one of them, one of the highest priority.\<close>

theorem up_wakes_highest:
  assumes c: "core I k (Some (cur k))" and s: "sems k s = Some sm"
  shows "\<exists>k' sm'. semaphore_up E SU_Enter s k = Inr k' \<and> sems k' s = Some sm' \<and>
     sema_value sm' = sema_value sm + 1 \<and>
     (if waiters sm = [] then waiters sm' = [] \<and> ready_list k' = ready_list k
      else \<exists>t \<in> set (waiters sm). (\<forall>u \<in> set (waiters sm). prio k u \<le> prio k t) \<and>
        mset (waiters sm') = mset (waiters sm) - {#t#} \<and>
        mset (ready_list k') = add_mset t (mset (ready_list k)) \<and>
        state_of k' t = Some THREAD_READY)"
  using up_wakes[OF c s, of E] by (elim exE conjE) (auto split: if_splits)

definition queued_on :: "semref \<Rightarrow> kernel" where
  "queued_on s = demo_kernel\<lparr>thread_list := [], sems := [s \<mapsto> \<lparr>sema_value = 0, waiters = [3]\<rparr>]\<rparr>"

lemma queued_on_core:
  assumes "s = Sema 7 \<or> s = Waiter 3"
  shows "core {} (queued_on s) (Some (cur (queued_on s)))"
proof -
  note d = queued_on_def demo_kernel_def demo_thread_def power_on_def
  have st: "state_of (queued_on s) = [1 \<mapsto> THREAD_RUNNING, 2 \<mapsto> THREAD_READY, 3 \<mapsto> THREAD_BLOCKED]"
    by (simp add: state_of_def fun_eq_iff d)
  have at: "at_place (queued_on s) P =
      (case P of P_Ready \<Rightarrow> [2] | P_Sema s' \<Rightarrow> (if s' = s then [3] else []) | _ \<Rightarrow> [])" for P
    by (cases P) (simp_all add: d sema_queue_def new_thread_def)
  have "placed (at_place (queued_on s)) (state_of (queued_on s)) (idle_thread (queued_on s)) {}
      (Some (cur (queued_on s)))"
  proof (rule placedI)
    show "\<exists>P. t \<in> set (at_place (queued_on s) P)" if "state_of (queued_on s) t = Some THREAD_BLOCKED" for t
      proof (intro exI[of _ "P_Sema s"])
      have "t = 3" using that by (simp add: st split: if_splits)
      then show "t \<in> set (at_place (queued_on s) (P_Sema s))" unfolding at by simp
    qed
  qed (auto simp: at st split: if_splits place.splits, simp_all add: d)
  moreover have "magic_ok (queued_on s)" by (simp add: magic_ok_def d)
  moreover have "frames_ok (queued_on s)"
    by (simp add: frames_ok_def d frame_ok_def base_frame_def new_thread_def)
  moreover have "local_ok (queued_on s)" using assms by (auto simp: local_ok_def sema_queue_def d)
  moreover have "fresh_ok (queued_on s)"
    using at[of "P_New _"] by (simp add: fresh_ok_def st) (simp add: d)
  ultimately show ?thesis by (simp add: core_def)
qed

definition queued_kernel :: kernel where
  "queued_kernel = queued_on (Sema 7)"

lemmas queued_kernel_core = queued_on_core[of "Sema 7", simplified, folded queued_kernel_def]

theorem up_wakes_highest_witness:
  "\<exists>k' sm'. semaphore_up demo_env SU_Enter (Sema 7) queued_kernel = Inr k' \<and>
     sems k' (Sema 7) = Some sm' \<and> sema_value sm' = 1 \<and> waiters sm' = [] \<and>
     state_of k' 3 = Some THREAD_READY"
proof -
  have "sems queued_kernel (Sema 7) = Some \<lparr>sema_value = 0, waiters = [3]\<rparr>"
    by (simp add: queued_kernel_def queued_on_def)
  from up_wakes_highest[OF queued_kernel_core this, of demo_env] show ?thesis by auto
qed

section \<open>Lowering a semaphore\<close>

text \<open>A switch from a thread that lives on changes no priority.\<close>

lemma schedule_prio:
  assumes "schedule k = Inr k'" and run: "state_of k (cur k) \<noteq> Some THREAD_DYING"
  shows "prio k' = prio k"
proof -
  obtain W k1 where W: "next_thread_to_run k = (W, k1)" by (cases "next_thread_to_run k")
  have k1: "cur k1 = cur k" "threads k1 = threads k"
    using W by (auto simp: next_thread_to_run_def split: list.splits)
  obtain n where tail: "(if cur k1 \<noteq> n then thread_schedule_tail (Some (cur k1)) (k1\<lparr>cur := n\<rparr>)
                 else thread_schedule_tail None k1) = Inr k'"
    using assms(1) W by (auto simp: schedule_def res_simps split: option.splits)
  have p: "prio ((upd_thread n (\<lambda>th. th\<lparr>status := THREAD_RUNNING\<rparr>) (k1\<lparr>cur := m\<rparr>))\<lparr>thread_ticks := 0\<rparr>) = prio k" for m
    by (auto simp: fun_eq_iff prio_def threads_upd_thread k1 split: option.splits)
  show ?thesis
  proof (cases "cur k1 = n")
    case True
    then show ?thesis using tail p[of n] by (auto simp: thread_schedule_tail_def res_simps Let_def)
  next
    case False
    have "state_of ((upd_thread n (\<lambda>th. th\<lparr>status := THREAD_RUNNING\<rparr>) (k1\<lparr>cur := n\<rparr>))\<lparr>thread_ticks := 0\<rparr>) (cur k1) =
        state_of k (cur k)"
      using False k1 by (simp add: state_of_def threads_upd_thread)
    then show ?thesis using tail False run p[of n] k1(1)
      by (auto simp: thread_schedule_tail_def res_simps Let_def split: if_splits)
  qed
qed

lemma block_prio:
  assumes "thread_block k = Inr k'"
  shows "prio k' = prio k"
proof -
  let ?k = "upd_thread (cur k) (\<lambda>th. th\<lparr>status := THREAD_BLOCKED\<rparr>) k"
  have "schedule ?k = Inr k'" using assms by (auto simp: thread_block_def res_simps)
  moreover have "state_of ?k (cur ?k) \<noteq> Some THREAD_DYING"
    by (auto simp: frame_simps state_of_def threads_upd_thread)
  ultimately have "prio k' = prio ?k" by (rule schedule_prio)
  also have "\<dots> = prio k" by (auto simp: prio_def threads_upd_thread fun_eq_iff split: option.splits)
  finally show ?thesis .
qed

text \<open>The running thread joins the waiters and blocks.\<close>

lemma block_on_sema:
  assumes c: "core I k (Some (cur k))" and idle: "cur k \<notin> I" and s: "sems k s = Some sm"
    and own: "frame_ok (initial_thread k) (cur k) (Sema_Down (SD_Loop old) s)"
    and off: "\<not> intr_on k" "\<not> intr_context k" and run: "ready_list k \<noteq> [] \<or> idle_thread k \<noteq> None"
  obtains k' xs where "thread_block (push [Sema_Down (SD_Loop old) s] (put_sema s (sm\<lparr>waiters :=
       list_insert_ordered (lib E) (sem_priority_sort k) (cur k) (waiters sm)\<rparr>) k)) = Inr k'"
    and "sems k' s = Some (sm\<lparr>waiters := xs\<rparr>)" and "mset xs = add_mset (cur k) (mset (waiters sm))"
    and "cur k' \<noteq> cur k" and "state_of k' (cur k) = Some THREAD_BLOCKED" and "prio k' = prio k"
    and "frames k' (cur k) = Sema_Down (SD_Loop old) s # frames k (cur k)"
proof -
  define xs where "xs = list_insert_ordered (lib E) (sem_priority_sort k) (cur k) (waiters sm)"
  define k1 where "k1 = push [Sema_Down (SD_Loop old) s] (put_sema s (sm\<lparr>waiters := xs\<rparr>) k)"
  have ni: "idle_thread k \<noteq> Some (cur k)" using placed_idle[OF core_placed[OF c], of "cur k"] idle by blast
  have A: "at_place k1 = (at_place k)(P_Sema s := xs)"
    unfolding k1_def by (subst at_place_push) (simp_all add: new_thread_def at_place_put_sema)
  have mx: "mset xs = add_mset (cur k) (mset (at_place k (P_Sema s)))"
    using s by (simp add: xs_def sema_queue_def)
  have sx: "set xs = insert (cur k) (set (sema_queue k s))"
    using mset_add_facts(1)[OF mx] by simp
  have k1: "state_of k1 = state_of k" "idle_thread k1 = idle_thread k" "cur k1 = cur k"
    "initial_thread k1 = initial_thread k" "threads k1 = threads k" "sema_queue k1 = (sema_queue k)(s := xs)"
    "intr_on k1 = intr_on k" "intr_context k1 = intr_context k" "sems k1 s = Some (sm\<lparr>waiters := xs\<rparr>)"
    by (simp_all add: k1_def frame_simps sema_queue_def fun_eq_iff sems_put_sema)
  have fo: "frames_ok k1"
    using core_frames[OF c] own by (simp add: k1_def frames_ok_def frames_push frame_simps base_frame_def)
  have lo: "local_ok k1"
    using core_local[OF c] own unfolding local_ok_def k1
    by (auto simp: sx frame_ok_def)
  have fr: "fresh_ok k1" unfolding k1_def
  proof (rule fresh_ok_push)
    show "fresh_ok (put_sema s (sm\<lparr>waiters := xs\<rparr>) k)"
      using core_fresh[OF c] by (simp add: fresh_ok_def frame_simps)
  qed (use core_running[OF c] placed_running_nowhere[OF core_placed[OF c], of "P_New _"] in
      \<open>auto simp: new_thread_def frame_simps state_of_def\<close>)
  have m: "magic_ok k1" using core_magic[OF c] by (simp add: k1 magic_ok_def)
  note facts = ni _ _ A k1(1,2) m fo lo fr k1(3) mx
  obtain k' where k': "thread_block k1 = Inr k'" "state_of k' (cur k) = Some THREAD_BLOCKED" "cur k' \<noteq> cur k"
    "frames k' = frames k1" "sems k' = sems k1"
    using block_switches[OF c facts] off run by (auto simp: k1)
  moreover have "prio k' = prio k" using block_prio[OF k'(1)] by (simp add: k1_def prio_def fun_eq_iff frame_simps)
  ultimately show ?thesis using s
    by (intro that[of k' xs])
      (simp_all add: k1_def xs_def frames_push frame_simps sems_put_sema)
qed

text \<open>The holder of the lock the running thread last had to wait for, and the donation to it.\<close>

definition remembered_holder :: "kernel \<Rightarrow> tptr option" where
  "remembered_holder k =
     (case threads k (cur k) of
        None \<Rightarrow> None
      | Some th \<Rightarrow> (case lock_temp th of
          None \<Rightarrow> None
        | Some l \<Rightarrow> (case locks k l of None \<Rightarrow> None | Some lk \<Rightarrow> holder lk)))"

lemma donation:
  assumes th: "threads k (cur k) = Some th"
    and donor: "lock_temp th \<noteq> None \<Longrightarrow> \<exists>h. remembered_holder k = Some h \<and> threads k h \<noteq> None"
  obtains k' where "donate_to_holder th k = Inr k'" and "same k k'" and "sems k' = sems k"
    and "intr_on k' = intr_on k" and "intr_context k' = intr_context k"
    and "\<forall>t. prio k' t = (if remembered_holder k = Some t then max (prio k t) (prio k (cur k)) else prio k t)"
proof (cases "lock_temp th")
  case None
  then show ?thesis using th
    by (intro that[of k]) (auto simp: donate_to_holder_def remembered_holder_def)
next
  case (Some l)
  then obtain h where h: "remembered_holder k = Some h" "threads k h \<noteq> None" using donor by blast
  then obtain lk hth where l: "locks k l = Some lk" "holder lk = Some h" "threads k h = Some hth"
    using th Some by (auto simp: remembered_holder_def split: option.splits)
  let ?k = "if priority hth < priority th then upd_thread h (\<lambda>h. h\<lparr>priority := priority th\<rparr>) k else k"
  show ?thesis
  proof (rule that[of ?k])
    show "donate_to_holder th k = Inr ?k"
      using Some l by (simp add: donate_to_holder_def get_lock_def deref_def get_thread_def)
    show "\<forall>t. prio ?k t = (if remembered_holder k = Some t then max (prio k t) (prio k (cur k)) else prio k t)"
      using h(1) l(3) th by (auto simp: prio_def threads_upd_thread)
  qed (auto simp: frame_simps intro!: same_upd_thread)
qed



end
