(* ===== verification/Alarm_Spec.thy ===== *)
theory Alarm_Spec
  imports Prelude
begin

text \<open>
  The contract of an alarm clock, whatever keeps the sleepers: a clock tick wakes exactly the
  sleepers that are due, and nothing else that happens touches a sleeper. What follows for a thread
  that sleeps is proved once, inside the locale.
\<close>

section \<open>Runs\<close>

text \<open>A run with \<open>n\<close> ticks of the clock, each taken in a state that lets the interrupt in, and any
  number of other steps.\<close>

inductive alarm_run :: "('k \<Rightarrow> bool) \<Rightarrow> ('k \<Rightarrow> 'k res) \<Rightarrow> ('k \<Rightarrow> 'k \<Rightarrow> bool) \<Rightarrow> nat \<Rightarrow> 'k \<Rightarrow> 'k \<Rightarrow> bool"
  for enabled tick other where
  start: "alarm_run enabled tick other 0 k k"
| other: "alarm_run enabled tick other n k k1 \<Longrightarrow> other k1 k2 \<Longrightarrow> alarm_run enabled tick other n k k2"
| tick: "alarm_run enabled tick other n k k1 \<Longrightarrow> enabled k1 \<Longrightarrow> tick k1 = Inr k2 \<Longrightarrow>
     alarm_run enabled tick other (Suc n) k k2"

lemma one_tick: "enabled k \<Longrightarrow> tick k = Inr k' \<Longrightarrow> alarm_run enabled tick other 1 k k'"
  using alarm_run.tick[of enabled tick other 0 k k k'] alarm_run.start[of enabled tick other k] by simp

text \<open>The tick that wakes a thread with wake-up time \<open>w\<close>: the one that reaches \<open>w\<close>, and the next one if
  that time has passed.\<close>

definition due_tick :: "int \<Rightarrow> int \<Rightarrow> nat" where
  "due_tick w now = max 1 (nat (w - now))"

section \<open>The contract\<close>

locale alarm_clock =
  fixes ok :: "'k \<Rightarrow> bool" and now :: "'k \<Rightarrow> int" and asleep :: "'k \<Rightarrow> 't \<Rightarrow> int option"
    and enabled :: "'k \<Rightarrow> bool" and tick :: "'k \<Rightarrow> 'k res" and other :: "'k \<Rightarrow> 'k \<Rightarrow> bool"
  assumes tick_law: "ok k \<Longrightarrow> enabled k \<Longrightarrow> now k < 2 ^ 63 - 1 \<Longrightarrow>
      \<exists>k'. tick k = Inr k' \<and> ok k' \<and> now k' = now k + 1 \<and>
        (\<forall>t. asleep k' t = (case asleep k t of None \<Rightarrow> None | Some w \<Rightarrow> if w \<le> now k + 1 then None else Some w))"
    and other_law: "ok k \<Longrightarrow> other k k' \<Longrightarrow>
      ok k' \<and> now k' = now k \<and> (\<forall>t w. asleep k t = Some w \<longrightarrow> asleep k' t = Some w)"
begin

abbreviation runs :: "nat \<Rightarrow> 'k \<Rightarrow> 'k \<Rightarrow> bool" where
  "runs \<equiv> alarm_run enabled tick other"

lemma no_fault: "ok k \<Longrightarrow> enabled k \<Longrightarrow> now k < 2 ^ 63 - 1 \<Longrightarrow> \<exists>k'. tick k = Inr k'"
  using tick_law by blast

lemma tick_step:
  assumes "tick k = Inr k'" and "ok k" "enabled k" "now k < 2 ^ 63 - 1"
  shows "ok k' \<and> now k' = now k + 1 \<and>
    asleep k' t = (case asleep k t of None \<Rightarrow> None | Some w \<Rightarrow> if w \<le> now k + 1 then None else Some w)"
  using tick_law[OF assms(2-)] assms(1) by auto

lemma run_ok: "runs n k k' \<Longrightarrow> ok k \<Longrightarrow> now k + int n < 2 ^ 63 \<Longrightarrow> ok k' \<and> now k' = now k + int n"
proof (induction rule: alarm_run.induct)
  case (tick n k k1 k2)
  then have "ok k1" "now k1 = now k + int n" by auto
  then show ?case using tick_step[OF tick(3) _ tick(2)] tick.prems by auto
qed (use other_law in auto)

text \<open>A sleeper stays asleep until its tick, wakes at that tick, and the run goes on from there.\<close>

lemma on_time:
  assumes "runs n k k'" and "ok k" and "now k + int n < 2 ^ 63" and "asleep k t = Some w"
  shows "if n < due_tick w (now k) then asleep k' t = Some w
    else \<exists>k1 k2. runs (due_tick w (now k) - 1) k k1 \<and> asleep k1 t = Some w \<and> enabled k1 \<and> tick k1 = Inr k2 \<and>
      asleep k2 t = None \<and> now k2 = now k + int (due_tick w (now k))"
  using assms
proof (induction rule: alarm_run.induct)
  case (start k)
  then show ?case by (simp add: due_tick_def)
next
  case (other n k k1 k2)
  have "ok k1" using run_ok[OF other.hyps(1)] other.prems by blast
  then show ?case using other.IH other.prems other_law[OF _ other.hyps(2)] by (auto split: if_splits)
next
  case (tick n k k1 k2)
  have k1: "ok k1" "now k1 = now k + int n" using run_ok[OF tick.hyps(1)] tick.prems by auto
  note k2 = tick_step[OF tick.hyps(3) k1(1) tick.hyps(2), of t]
  show ?case
  proof (cases "n < due_tick w (now k)")
    case False
    then show ?thesis using tick.IH tick.prems by auto
  next
    case True
    then have a: "asleep k1 t = Some w" using tick.IH tick.prems by auto
    have le: "w \<le> now k1 + 1 \<longleftrightarrow> Suc n = due_tick w (now k)"
      using True k1(2) by (auto simp: due_tick_def)
    show ?thesis
    proof (cases "Suc n = due_tick w (now k)")
      case due: True
      have "asleep k2 t = None" "now k2 = now k + int (Suc n)"
        using k2 a le due k1(2) tick.prems(2) by auto
      then show ?thesis using due a tick.hyps by (metis diff_Suc_1 less_irrefl)
    next
      case False
      then show ?thesis using k2 a le True k1(2) tick.prems(2) by auto
    qed
  qed
qed

end

end
