(* ===== verification/Alarm_Run.thy ===== *)
theory Alarm_Run
  imports Waiting Alarm_Spec
begin

text \<open>
  The alarm clock of Lab 2 in every run of the kernel: no step but the timer interrupt touches the
  clock or a thread that sleeps, so the kernel meets the contract of an alarm clock.
\<close>

section \<open>Steps that leave the clock alone\<close>

definition gone :: "kernel \<Rightarrow> tptr \<Rightarrow> bool" where
  "gone k t \<longleftrightarrow> threads k t = None"

definition calm :: "kernel \<Rightarrow> kernel \<Rightarrow> bool" where
  "calm k k' \<longleftrightarrow> ticks k' = ticks k \<and> thread_list k' = thread_list k \<and>
     (\<forall>t. t \<noteq> cur k \<and> \<not> gone k t \<longrightarrow> wait_of k' t = wait_of k t)"

definition timeless :: "kernel \<Rightarrow> kernel \<Rightarrow> bool" where
  "timeless k k' \<longleftrightarrow> ticks k' = ticks k \<and> thread_list k' = thread_list k \<and> wait_of k' = wait_of k \<and>
     cur k' = cur k \<and> gone k' = gone k"

lemma wait_of_upd: "(\<And>th. waiting_time (f th) = waiting_time th) \<Longrightarrow> wait_of (upd_thread t f k) = wait_of k"
  by (auto simp: wait_of_def fun_eq_iff threads_upd_thread split: option.splits)

lemma wait_of_same:
  "wait_of (push fs k) = wait_of k" "wait_of (put_sema s sm k) = wait_of k" "wait_of (put_lock l lk k) = wait_of k"
  "wait_of (put_condvar c cv k) = wait_of k" "wait_of (k\<lparr>ready_list := r\<rparr>) = wait_of k" "wait_of (k\<lparr>intr_on := b\<rparr>) = wait_of k"
  "wait_of (k\<lparr>frames := fr\<rparr>) = wait_of k" "wait_of (k\<lparr>idle_thread := i\<rparr>) = wait_of k" "wait_of (k\<lparr>next_tid := n\<rparr>) = wait_of k"
  "wait_of (k\<lparr>all_list := a\<rparr>) = wait_of k" "wait_of (k\<lparr>sems := ss\<rparr>) = wait_of k" "wait_of (k\<lparr>thread_list := a\<rparr>) = wait_of k"
  "wait_of (k\<lparr>cur := t\<rparr>) = wait_of k" "wait_of (k\<lparr>thread_ticks := w\<rparr>) = wait_of k"
  by (simp_all add: wait_of_def fun_eq_iff frame_simps)

lemma gone_same:
  "gone (push fs k) = gone k" "gone (put_sema s sm k) = gone k" "gone (put_lock l lk k) = gone k"
  "gone (put_condvar c cv k) = gone k" "gone (k\<lparr>ready_list := r\<rparr>) = gone k" "gone (k\<lparr>intr_on := b\<rparr>) = gone k"
  "gone (k\<lparr>frames := fr\<rparr>) = gone k" "gone (k\<lparr>idle_thread := i\<rparr>) = gone k" "gone (k\<lparr>next_tid := n\<rparr>) = gone k"
  "gone (k\<lparr>all_list := a\<rparr>) = gone k" "gone (k\<lparr>sems := ss\<rparr>) = gone k" "gone (k\<lparr>thread_list := a\<rparr>) = gone k"
  "gone (k\<lparr>cur := t\<rparr>) = gone k" "gone (k\<lparr>thread_ticks := w\<rparr>) = gone k"
  by (simp_all add: gone_def fun_eq_iff frame_simps)

lemma gone_upd: "gone (upd_thread t f k) = gone k"
  by (simp add: gone_def fun_eq_iff threads_upd_thread)

lemmas clock_simps = calm_def timeless_def wait_of_upd wait_of_same gone_upd gone_same frame_simps

lemma timeless_calm: "timeless k k' \<Longrightarrow> calm k k'"
  by (simp add: timeless_def calm_def)

lemma timeless_refl [simp]: "timeless k k"
  by (simp add: timeless_def)

lemma timeless_trans: "timeless k k1 \<Longrightarrow> timeless k1 k2 \<Longrightarrow> timeless k k2"
  by (simp add: timeless_def)

lemma unblock_timeless:
  assumes "thread_unblock E t k = Inr k'" shows "timeless k k'"
proof -
  note f = thread_unblock_frame[OF assms]
  have "wait_of k' = wait_of k" "gone k' = gone k"
    by (auto simp: wait_of_def gone_def fun_eq_iff f(17) split: option.splits)
  then show ?thesis using f by (simp add: timeless_def)
qed

lemma link_p_elem_timeless: "link_p_elem E h t k = Inr k' \<Longrightarrow> timeless k k'"
  by (auto simp: link_p_elem_def res_simps clock_simps split: if_splits)

lemma drop_donor_timeless: "drop_donor E l h t k = Inr k' \<Longrightarrow> timeless k k'"
  by (auto simp: drop_donor_def res_simps clock_simps Let_def split: option.splits if_splits)

lemma donate_timeless: "donate_to_holder th k = Inr k' \<Longrightarrow> timeless k k'"
  by (auto simp: donate_to_holder_def res_simps clock_simps split: option.splits if_splits)

lemma return_priority_timeless:
  assumes "return_priority E l h k = Inr k'" shows "timeless k k'"
proof -
  obtain hth :: thread and k1 f where k1: "fold_res (drop_donor E l h) (priority_list hth) k = Inr k1"
    and k': "k' = upd_thread h (\<lambda>hth. hth\<lparr>priority := f hth\<rparr>) k1"
    using assms by (rule return_priority_cases)
  have "timeless k k1"
    by (rule fold_res_invariant[OF k1, where P = "timeless k"]) (auto intro: timeless_trans drop_donor_timeless)
  then show ?thesis by (simp add: k' clock_simps)
qed

section \<open>Switching threads\<close>

lemma schedule_calm:
  assumes "schedule k = Inr k'" shows "calm k k'"
proof -
  obtain W k1 where W: "next_thread_to_run k = (W, k1)" by (cases "next_thread_to_run k")
  have k1: "ticks k1 = ticks k" "thread_list k1 = thread_list k" "wait_of k1 = wait_of k" "cur k1 = cur k"
    using W by (auto simp: next_thread_to_run_def clock_simps split: list.splits)
  obtain n where tail: "(if cur k1 \<noteq> n then thread_schedule_tail (Some (cur k1)) (k1\<lparr>cur := n\<rparr>)
                 else thread_schedule_tail None k1) = Inr k'"
    using assms W by (auto simp: schedule_def res_simps split: option.splits)
  have free: "t \<noteq> p \<Longrightarrow> wait_of (palloc_free_page p x) t = wait_of x t" for t p x
    by (simp add: wait_of_def palloc_free_page_def)
  show ?thesis
    using tail by (cases "cur k1 = n")
      (auto simp: thread_schedule_tail_def res_simps Let_def clock_simps k1 free split: if_splits,
        auto simp: palloc_free_page_def clock_simps k1)
qed

lemma block_calm: "thread_block k = Inr k' \<Longrightarrow> calm k k'"
  by (auto simp: thread_block_def res_simps clock_simps dest!: schedule_calm)

lemma yield_calm: "thread_yield E k = Inr k' \<Longrightarrow> calm k k'"
  by (auto simp: thread_yield_def res_simps Let_def clock_simps dest!: schedule_calm split: if_splits)

lemma exit_calm: "thread_exit k = Inr k' \<Longrightarrow> calm k k'"
  by (auto simp: thread_exit_def res_simps Let_def clock_simps dest!: schedule_calm)

section \<open>One frame\<close>

lemma create_calm:
  assumes "thread_create E p k = Inr k'" and "palloc_ok E k" shows "calm k k'"
proof (cases p)
  case (TC_Enter nm pri func)
  then show ?thesis using assms
    by (auto simp: res_simps init_thread_def clock_simps palloc_ok_def wait_of_def gone_def split: option.splits if_splits)
next
  case (TC_Ready t func)
  then show ?thesis using assms
    by (auto simp: res_simps alloc_frame_def clock_simps dest!: unblock_timeless split: if_splits)
qed (use assms in \<open>auto simp: res_simps allocate_tid_def clock_simps split: if_splits\<close>)

lemma down_calm:
  assumes "semaphore_down E p s k = Inr k'" shows "calm k k'"
proof (cases p)
  case (SD_Loop old)
  then show ?thesis using assms
    by (auto simp: res_simps Let_def clock_simps dest!: block_calm donate_timeless split: if_splits)
qed (use assms in \<open>auto simp: res_simps clock_simps\<close>)

lemma up_calm:
  assumes "semaphore_up E p s k = Inr k'" shows "calm k k'"
proof (cases p)
  case SU_Enter
  then show ?thesis using assms
    by (cases "list_sort (lib E) (sem_priority_sort k) (waiters (the (sems k s)))")
      (auto simp: res_simps clock_simps dest!: unblock_timeless)
qed (use assms in \<open>auto simp: res_simps clock_simps split: if_splits\<close>)

lemma lock_calm:
  "lock_acquire E p l k = Inr k' \<Longrightarrow> calm k k'"
  "lock_release E q l k = Inr k' \<Longrightarrow> calm k k'"
proof -
  show "calm k k'" if "lock_acquire E p l k = Inr k'"
    using that by (cases p) (auto simp: res_simps clock_simps dest!: link_p_elem_timeless split: if_splits option.splits)
  show "calm k k'" if "lock_release E q l k = Inr k'"
    using that by (cases q) (auto simp: res_simps clock_simps dest!: return_priority_timeless split: if_splits)
qed

lemma cond_calm:
  "condvar_wait E p c l k = Inr k' \<Longrightarrow> calm k k'" "condvar_signal E c l k = Inr k' \<Longrightarrow> calm k k'"
  "condvar_broadcast c l k = Inr k' \<Longrightarrow> calm k k'"
proof -
  show "calm k k'" if "condvar_wait E p c l k = Inr k'"
    using that by (cases p) (auto simp: res_simps Let_def semaphore_init_def clock_simps)
  show "calm k k'" if "condvar_signal E c l k = Inr k'"
    using that by (auto simp: condvar_signal_def res_simps clock_simps split: if_splits list.splits)
  show "calm k k'" if "condvar_broadcast c l k = Inr k'"
    using that by (auto simp: condvar_broadcast_def res_simps clock_simps)
qed

lemma sleep_calm:
  assumes "timer_sleep E p n k = Inr k'" and "p \<noteq> SL_Block" shows "calm k k'"
proof (cases p)
  case (SL_Mark start)
  then show ?thesis using assms
    by (auto simp: res_simps clock_simps wait_of_def threads_upd_thread split: if_splits)
qed (use assms in \<open>auto simp: clock_simps\<close>)

lemma exec_frame_calm:
  assumes x: "exec_frame E f k = Inr k'" and p: "palloc_ok E k" and f: "\<And>n. f \<noteq> Timer_Sleep SL_Block n"
  shows "calm k k'"
proof (cases f)
  case (Idle_At i)
  then show ?thesis using x by (cases i) (auto simp: res_simps clock_simps dest!: block_calm)
next
  case (Thread_Start i)
  then show ?thesis using x by (cases i) (auto simp: clock_simps)
next
  case (Set_Priority pri)
  then show ?thesis using x by (auto simp: thread_set_priority_def res_simps Let_def clock_simps split: if_splits)
next
  case (Timer_Sleep i n)
  then show ?thesis using x f[of n] sleep_calm[of E i n k k'] by auto
qed (use x p in \<open>auto simp: kernel_thread_def clock_simps
    dest: create_calm yield_calm exit_calm down_calm up_calm lock_calm cond_calm\<close>)

section \<open>The contract\<close>

definition asleep :: "kernel \<Rightarrow> tptr \<Rightarrow> int option" where
  "asleep k t = (if t \<in> set (thread_list k) then Some (wait_of k t) else None)"

text \<open>Every step of the kernel but the timer interrupt.\<close>

definition other_step :: "kernel \<Rightarrow> kernel \<Rightarrow> bool" where
  "other_step k k' \<longleftrightarrow> kernel_step k k' \<and> ticks k' = ticks k"

lemma sleeper_not_running:
  assumes "wf_kernel k" and "t \<in> set (thread_list k)"
  shows "t \<noteq> cur k" "\<not> gone k t"
proof -
  have c: "core (idlers k) k (Some (cur k))" using assms(1) by (simp add: wf_kernel_def)
  have "state_of k t = Some THREAD_BLOCKED" using placed_status[OF core_placed[OF c], of t P_Sleep] assms(2) by simp
  then show "\<not> gone k t" by (auto simp: gone_def state_of_def)
  show "t \<noteq> cur k" using placed_running_nowhere[OF core_placed[OF c], of P_Sleep] assms(2) by auto
qed

lemma block_keeps_sleepers:
  assumes "timer_sleep E SL_Block n k = Inr k'"
  shows "ticks k' = ticks k \<and> set (thread_list k) \<subseteq> set (thread_list k') \<and>
    (\<forall>t. t \<noteq> cur k \<and> \<not> gone k t \<longrightarrow> wait_of k' t = wait_of k t)"
  using assms by (auto simp: res_simps Let_def clock_simps dest!: block_calm)

lemma run_thread_sleepers:
  assumes wf: "wf_kernel k" and p: "palloc_ok E k" and x: "run_thread E k = Inr k'" and t: "asleep k t = Some w"
  shows "asleep k' t = Some w"
proof -
  have l: "t \<in> set (thread_list k)" "wait_of k t = w" using t by (auto simp: asleep_def split: if_splits)
  note nt = sleeper_not_running[OF wf l(1)]
  have pop: "ticks (pop k) = ticks k" "thread_list (pop k) = thread_list k" "cur (pop k) = cur k" "threads (pop k) = threads k"
    by (simp_all add: pop_def)
  then have pop2: "wait_of (pop k) = wait_of k" "gone (pop k) = gone k"
    by (simp_all add: wait_of_def[abs_def] gone_def[abs_def])
  have pop3: "palloc_ok E (pop k)" using p unfolding palloc_ok_def pop(4) .
  show ?thesis
  proof (cases "frames k (cur k)")
    case Nil
    then show ?thesis using x t by (simp add: run_thread_def)
  next
    case (Cons f fs)
    then have f: "exec_frame E f (pop k) = Inr k'" using x by (simp add: run_thread_def)
    have "t \<in> set (thread_list k') \<and> wait_of k' t = wait_of k t"
    proof (cases "\<exists>n. f = Timer_Sleep SL_Block n")
      case True
      then show ?thesis using f block_keeps_sleepers[of E _ "pop k" k'] l nt pop pop2 by auto
    next
      case False
      then show ?thesis using exec_frame_calm[OF f pop3] l nt pop pop2 by (auto simp: calm_def)
    qed
    then show ?thesis using l(2) by (simp add: asleep_def)
  qed
qed

lemma asleep_same: "timeless k k' \<Longrightarrow> asleep k' = asleep k"
  by (simp add: timeless_def asleep_def fun_eq_iff)

lemma other_step_sleepers:
  assumes wf: "wf_kernel k" and s: "other_step k k'" and t: "asleep k t = Some w"
  shows "asleep k' t = Some w"
proof -
  have "kernel_step k k'" and tk: "ticks k' = ticks k" using s by (simp_all add: other_step_def)
  then show ?thesis
  proof (cases rule: kernel_step.cases)
    case (run E)
    then show ?thesis using run_thread_sleepers[OF wf _ _ t] by blast
  next
    case (tick E)
    show ?thesis
    proof (cases "in_int64 (ticks k + 1)")
      case True
      then show ?thesis using timer_irq_effect[OF wf True, of E] tick tk by auto
    next
      case False
      then show ?thesis using tick by (simp add: timer_irq_def timer_interrupt_def add_int64_def)
    qed
  next
    case (call fs f)
    then have "timeless k k'" by (simp add: clock_simps)
    then show ?thesis using t by (simp add: asleep_same)
  next
    case (new_sema fs n v)
    then have "timeless k k'" by (simp add: semaphore_init_def clock_simps)
    then show ?thesis using t by (simp add: asleep_same)
  next
    case (new_lock fs l)
    then have "timeless k k'" by (simp add: lock_init_def semaphore_init_def clock_simps)
    then show ?thesis using t by (simp add: asleep_same)
  next
    case (new_condvar fs c)
    then have "timeless k k'" by (simp add: condvar_init_def clock_simps)
    then show ?thesis using t by (simp add: asleep_same)
  qed
qed

interpretation kernel_clock: alarm_clock "\<lambda>k. wf_kernel k \<and> - (2 ^ 63) \<le> ticks k" ticks asleep intr_on "timer_irq E" other_step for E
proof unfold_locales
  fix k assume k: "wf_kernel k \<and> - (2 ^ 63) \<le> ticks k" "intr_on k" "ticks k < 2 ^ 63 - 1"
  then have "in_int64 (ticks k + 1)" by (simp add: in_int64_def)
  then obtain k' where k': "timer_irq E k = Inr k'" "ticks k' = ticks k + 1" "\<forall>t. wait_of k' t = wait_of k t"
    "thread_list k' = filter (\<lambda>t. ticks k' < wait_of k t) (thread_list k)"
    using timer_irq_effect[of k E] k(1) by blast
  then have "asleep k' t = (case asleep k t of None \<Rightarrow> None | Some w \<Rightarrow> if w \<le> ticks k + 1 then None else Some w)" for t
    by (auto simp: asleep_def)
  then show "\<exists>k'. timer_irq E k = Inr k' \<and> (wf_kernel k' \<and> - (2 ^ 63) \<le> ticks k') \<and> ticks k' = ticks k + 1 \<and>
      (\<forall>t. asleep k' t = (case asleep k t of None \<Rightarrow> None | Some w \<Rightarrow> if w \<le> ticks k + 1 then None else Some w))"
    using k' k timer_irq_wf[of k E k'] by auto
next
  fix k k' assume k: "wf_kernel k \<and> - (2 ^ 63) \<le> ticks k" and s: "other_step k k'"
  then show "(wf_kernel k' \<and> - (2 ^ 63) \<le> ticks k') \<and> ticks k' = ticks k \<and>
      (\<forall>t w. asleep k t = Some w \<longrightarrow> asleep k' t = Some w)"
    using kernel_step_wf[of k k'] other_step_sleepers[of k k'] by (auto simp: other_step_def)
qed

text \<open>C6: In every run of the kernel, whatever the threads do, a thread that \<open>timer_sleep\<close> has put on the
  list of sleepers stays there until its wake-up time, and the timer interrupt that reaches this time, or
  the next one if it has passed already, takes it off.\<close>

theorem sleeper_wakes_on_time:
  assumes "wf_kernel k" and "- (2 ^ 63) \<le> ticks k" and "ticks k + int n < 2 ^ 63" and "asleep k t = Some w"
    and "alarm_run intr_on (timer_irq E) other_step n k k'"
  shows "if n < due_tick w (ticks k) then asleep k' t = Some w
    else \<exists>k1 k2. alarm_run intr_on (timer_irq E) other_step (due_tick w (ticks k) - 1) k k1 \<and> asleep k1 t = Some w \<and>
      intr_on k1 \<and> timer_irq E k1 = Inr k2 \<and> asleep k2 t = None \<and> ticks k2 = ticks k + int (due_tick w (ticks k))"
  by (rule kernel_clock.on_time[OF assms(5) _ assms(3,4)]) (use assms in blast)

theorem sleeper_wakes_on_time_witness:
  "\<exists>k1 k2. alarm_run intr_on (timer_irq demo_env) other_step 0 demo_kernel k1 \<and> asleep k1 3 = Some 5 \<and>
     timer_irq demo_env k1 = Inr k2 \<and> asleep k2 3 = None \<and> ticks k2 = 5"
proof -
  have d: "asleep demo_kernel 3 = Some 5" "ticks demo_kernel = 4" "intr_on demo_kernel" "due_tick 5 4 = 1"
    by (simp_all add: asleep_def wait_of_def demo_kernel_def power_on_def demo_thread_def due_tick_def)
  obtain k' where k': "timer_irq demo_env demo_kernel = Inr k'"
    using timer_irq_effect[OF demo_kernel_wf, of demo_env] d(2) by (auto simp: in_int64_def)
  have "alarm_run intr_on (timer_irq demo_env) other_step 1 demo_kernel k'"
    by (rule one_tick[of intr_on]) (rule d(3), rule k')
  then show ?thesis
    using sleeper_wakes_on_time[OF demo_kernel_wf _ _ d(1), of 1 demo_env k'] d by auto
qed

end
