(* ===== verification/Mutex.thy ===== *)
theory Mutex
  imports Scheduling
begin

text \<open>
  Mutual exclusion of the Lab 2 locks. The right to a lock is one token: it is in the lock's
  semaphore, with the thread that is about to become the holder, with the holder, or on its way
  back to the semaphore. Every step of the machine conserves it, through preemption at any
  control point and whatever the donation code does.
\<close>

section \<open>Tokens on a stack\<close>

definition weight :: "nat \<Rightarrow> frame \<Rightarrow> int" where
  "weight l f =
     (case f of
        Lock_Acquire LA_Own l' \<Rightarrow> if l' = l then 1 else 0
      | Sema_Down p s \<Rightarrow> if s = Lock_Sema l then - 1 else 0
      | Sema_Up SU_Enter s \<Rightarrow> if s = Lock_Sema l then 1 else 0
      | _ \<Rightarrow> 0)"

definition load :: "nat \<Rightarrow> frame list \<Rightarrow> int" where
  "load l fs = sum_list (map (weight l) fs)"

lemma load_simps [simp]:
  "load l [] = 0" "load l (f # fs) = weight l f + load l fs" "load l (us @ fs) = load l us + load l fs"
  by (simp_all add: load_def)

definition yieldish :: "frame \<Rightarrow> bool" where
  "yieldish f = (case f of Thread_Yield \<Rightarrow> True | Intr_Set_Level _ \<Rightarrow> True | _ \<Rightarrow> False)"

definition releasing :: "frame \<Rightarrow> bool" where
  "releasing f = (case f of Lock_Release LR_Clear l \<Rightarrow> True | _ \<Rightarrow> False)"

definition func_ok :: "thread_func \<Rightarrow> bool" where
  "func_ok func = (case func of Client \<Rightarrow> True | Idle s \<Rightarrow> s = Idle_Started)"

definition arg_ok :: "frame \<Rightarrow> bool" where
  "arg_ok f =
     (case f of
        Kernel_Thread func \<Rightarrow> func_ok func
      | Idle_At (IP_Enter s) \<Rightarrow> s = Idle_Started
      | Thread_Create (TC_Enter nm pri func) \<Rightarrow> func_ok func
      | Thread_Create (TC_Ready t func) \<Rightarrow> func_ok func
      | _ \<Rightarrow> True)"

text \<open>
  On every stack a wait for a lock's semaphore lies above the frame that takes possession; above
  the second half of a release there are only frames of a preemption; below the body of a thread
  there is nothing but its exit.
\<close>

fun stack_ok :: "frame list \<Rightarrow> bool" where
  "stack_ok [] = True"
| "stack_ok (f # fs) =
     (stack_ok fs \<and> (\<forall>l. 0 \<le> load l (f # fs)) \<and> (yieldish f \<or> \<not> list_ex releasing fs) \<and>
      (base_frame f \<longrightarrow> list_all base_frame fs) \<and> arg_ok f)"

lemma stack_ok_load: "stack_ok fs \<Longrightarrow> 0 \<le> load l fs"
  by (cases fs) auto

lemma base_weight: "base_frame f \<Longrightarrow> weight l f = 0 \<and> \<not> releasing f"
  by (cases f) (auto simp: base_frame_def weight_def releasing_def)

lemma base_load: "list_all base_frame fs \<Longrightarrow> load l fs = 0 \<and> \<not> list_ex releasing fs"
  by (induction fs) (auto simp: base_weight)

text \<open>Calls an operation may push: weightless ones, or the wait of \<open>lock_acquire\<close>.\<close>

definition light :: "frame \<Rightarrow> bool" where
  "light f \<longleftrightarrow> (\<forall>l. weight l f = 0) \<and> \<not> releasing f \<and> \<not> base_frame f \<and> arg_ok f"

definition tidy :: "frame list \<Rightarrow> bool" where
  "tidy us \<longleftrightarrow> list_all light us \<or>
     (\<exists>l. us = [Sema_Down SD_Enter (Lock_Sema l), Lock_Acquire LA_Own l])"

text \<open>The same for the semaphore a thread waits on in \<open>condvar_wait\<close>; most frames do not touch it.\<close>

definition swing :: "tptr \<Rightarrow> frame \<Rightarrow> int" where
  "swing t f =
     (case f of
        Sema_Down p s \<Rightarrow> if s = Waiter t then - 1 else 0
      | Sema_Up SU_Enter s \<Rightarrow> if s = Waiter t then 1 else 0
      | _ \<Rightarrow> 0)"

definition waiting :: "frame \<Rightarrow> bool" where
  "waiting f = (case f of Cond_Wait _ _ _ \<Rightarrow> True | _ \<Rightarrow> False)"

definition mild :: "frame \<Rightarrow> bool" where
  "mild f \<longleftrightarrow> (\<forall>t. swing t f = 0) \<and> \<not> waiting f"

definition gentle :: "frame \<Rightarrow> bool" where
  "gentle f \<longleftrightarrow> light f \<and> mild f"

lemmas frame_class =
  weight_def releasing_def base_frame_def arg_ok_def func_ok_def yieldish_def mild_def swing_def waiting_def

lemma light_stack:
  "list_all light us \<Longrightarrow> stack_ok fs \<Longrightarrow> \<not> list_ex releasing fs \<or> list_all yieldish us \<Longrightarrow>
     stack_ok (us @ fs) \<and> load l us = 0 \<and> \<not> list_ex releasing us"
  by (induction us) (auto simp: light_def dest: stack_ok_load[where l = "_ :: nat", of "_ @ _", simplified])

lemma tidy_stack:
  assumes "tidy us" and s: "stack_ok fs" and r: "\<not> list_ex releasing fs"
  shows "stack_ok (us @ fs) \<and> load l us = 0 \<and> \<not> list_ex releasing us"
proof (cases "list_all light us")
  case True
  then show ?thesis using light_stack s r by blast
next
  case False
  then obtain l' where "us = [Sema_Down SD_Enter (Lock_Sema l'), Lock_Acquire LA_Own l']"
    using assms(1) by (auto simp: tidy_def)
  then show ?thesis using s r stack_ok_load[OF s] by (auto simp: frame_class)
qed

section \<open>The invariant\<close>

definition lock_holder :: "kernel \<Rightarrow> nat \<Rightarrow> tptr option" where
  "lock_holder k l = (case locks k l of None \<Rightarrow> None | Some lk \<Rightarrow> holder lk)"

definition held :: "kernel \<Rightarrow> nat \<Rightarrow> int" where
  "held k l = (if lock_holder k l = None then 0 else 1)"

definition lock_value :: "kernel \<Rightarrow> nat \<Rightarrow> int" where
  "lock_value k l = (case sems k (Lock_Sema l) of None \<Rightarrow> 0 | Some sm \<Rightarrow> uint (sema_value sm))"

definition waiter_value :: "kernel \<Rightarrow> tptr \<Rightarrow> int" where
  "waiter_value k t = (case sems k (Waiter t) of None \<Rightarrow> 0 | Some sm \<Rightarrow> uint (sema_value sm))"

lemmas values_def = lock_value_def waiter_value_def

definition exists_lock :: "kernel \<Rightarrow> nat \<Rightarrow> int" where
  "exists_lock k l = (if locks k l = None then 0 else 1)"

definition busy :: "kernel \<Rightarrow> tptr set" where
  "busy k = {t. frames k t \<noteq> []}"

definition tokens :: "kernel \<Rightarrow> nat \<Rightarrow> int" where
  "tokens k l = (\<Sum>t \<in> busy k. load l (frames k t)) + held k l + lock_value k l"

definition mutex_inv :: "kernel \<Rightarrow> bool" where
  "mutex_inv k \<longleftrightarrow>
     finite (busy k) \<and> (\<forall>t. stack_ok (frames k t)) \<and> (\<forall>l. tokens k l = exists_lock k l) \<and>
     (\<forall>t l. Lock_Release LR_Clear l \<in> set (frames k t) \<longrightarrow> lock_holder k l = Some t)"

lemma tokens_superset:
  assumes "finite A" and "busy k \<subseteq> A"
  shows "tokens k l = (\<Sum>t \<in> A. load l (frames k t)) + held k l + lock_value k l"
proof -
  have "(\<Sum>t \<in> busy k. load l (frames k t)) = (\<Sum>t \<in> A. load l (frames k t))"
    by (rule sum.mono_neutral_left[OF assms]) (auto simp: busy_def)
  then show ?thesis by (simp add: tokens_def)
qed

text \<open>Threads whose stacks hold nothing that matters may come and go.\<close>

definition inert :: "frame list \<Rightarrow> bool" where
  "inert fs \<longleftrightarrow> list_all base_frame fs \<and> stack_ok fs"

lemma mutex_stepI:
  assumes inv: "mutex_inv k" and fin: "finite (busy k')"
    and others: "\<And>t. t \<noteq> c \<Longrightarrow>
      frames k' t = frames k t \<or> inert (frames k t) \<and> inert (frames k' t)"
    and stack: "stack_ok (frames k' c)"
    and balance: "\<And>l. load l (frames k' c) + held k' l + lock_value k' l + exists_lock k l =
       load l (frames k c) + held k l + lock_value k l + exists_lock k' l"
    and rel: "\<And>l. Lock_Release LR_Clear l \<in> set (frames k' c) \<Longrightarrow> lock_holder k' l = Some c"
    and keep: "\<And>t l. t \<noteq> c \<Longrightarrow> Lock_Release LR_Clear l \<in> set (frames k t) \<Longrightarrow>
      lock_holder k l = Some t \<Longrightarrow> lock_holder k' l = Some t"
  shows "mutex_inv k'"
  unfolding mutex_inv_def
proof (intro conjI allI impI)
  let ?A = "insert c (busy k \<union> busy k')"
  have A: "finite ?A" "busy k \<subseteq> ?A" "busy k' \<subseteq> ?A"
    using inv fin by (auto simp: mutex_inv_def)
  show "finite (busy k')" by (rule fin)
  show "stack_ok (frames k' t)" for t
    using others[of t] stack inv by (cases "t = c") (auto simp: mutex_inv_def inert_def)
  have load: "t \<noteq> c \<Longrightarrow> load l (frames k' t) = load l (frames k t)" for t l
    using others[of t] base_load by (auto simp: inert_def)
  show "tokens k' l = exists_lock k' l" for l
  proof -
    have "(\<Sum>t \<in> ?A. load l (frames k' t)) - load l (frames k' c) =
        (\<Sum>t \<in> ?A. load l (frames k t)) - load l (frames k c)"
      using A(1) by (simp add: sum.insert_remove load)
    then have "tokens k' l - exists_lock k' l = tokens k l - exists_lock k l"
      using balance[of l] tokens_superset[OF A(1,2), of l] tokens_superset[OF A(1,3), of l] by linarith
    then show ?thesis using inv by (simp add: mutex_inv_def)
  qed
  fix t l assume r: "Lock_Release LR_Clear l \<in> set (frames k' t)"
  show "lock_holder k' l = Some t"
  proof (cases "t = c")
    case False
    have "frames k' t = frames k t"
      using others[OF False] r base_load[of "frames k' t"]
      by (force simp: inert_def list_ex_iff releasing_def)
    then show ?thesis using keep[OF False] r inv by (auto simp: mutex_inv_def)
  qed (use rel r in simp)
qed


section \<open>Operations that leave the locks alone\<close>

definition still :: "kernel \<Rightarrow> kernel \<Rightarrow> bool" where
  "still k k' \<longleftrightarrow> locks k' = locks k \<and> sems k' = sems k \<and> condvars k' = condvars k \<and> frames k' = frames k \<and> cur k' = cur k"

definition acts :: "frame list \<Rightarrow> kernel \<Rightarrow> kernel \<Rightarrow> bool" where
  "acts us k k' \<longleftrightarrow>
     locks k' = locks k \<and> lock_value k' = lock_value k \<and> condvars k' = condvars k \<and>
     waiter_value k' = waiter_value k \<and> frames k' = (frames k)(cur k := us @ frames k (cur k))"

text \<open>The operations of condition variables leave only the locks alone.\<close>

definition acts_locks :: "frame list \<Rightarrow> kernel \<Rightarrow> kernel \<Rightarrow> bool" where
  "acts_locks us k k' \<longleftrightarrow>
     locks k' = locks k \<and> lock_value k' = lock_value k \<and>
     frames k' = (frames k)(cur k := us @ frames k (cur k))"

lemma acts_acts_locks: "acts us k k' \<Longrightarrow> acts_locks us k k'"
  by (simp add: acts_def acts_locks_def)

lemma still_refl [simp]: "still k k"
  by (simp add: still_def)

lemma still_trans: "still k k1 \<Longrightarrow> still k1 k2 \<Longrightarrow> still k k2"
  by (simp add: still_def)

lemma still_upd: "still k k1 \<Longrightarrow> still k (upd_thread t f k1)"
  by (simp add: still_def frame_simps)

lemma acts_push: "still k k1 \<Longrightarrow> acts us k (push us k1)"
  by (simp add: still_def acts_def frame_simps frames_push values_def fun_eq_iff)

lemma acts_Nil: "still k k1 \<Longrightarrow> acts [] k k1"
  by (auto simp: still_def acts_def values_def fun_eq_iff)

lemma link_p_elem_still: "link_p_elem E h t k = Inr k' \<Longrightarrow> still k k'"
  by (auto simp: link_p_elem_def res_simps still_def frame_simps split: if_splits)

lemma drop_donor_still: "drop_donor E l h t k = Inr k' \<Longrightarrow> still k k'"
  by (auto simp: drop_donor_def res_simps still_def frame_simps Let_def split: option.splits if_splits)

lemma donate_still: "donate_to_holder th k = Inr k' \<Longrightarrow> still k k'"
  by (auto simp: donate_to_holder_def res_simps still_def frame_simps split: option.splits if_splits)

lemma fold_drop_still: "fold_res (drop_donor E l h) ts k = Inr k' \<Longrightarrow> still k k'"
  by (erule fold_res_invariant[where P = "still k"]) (auto intro: still_trans drop_donor_still)

lemma return_priority_still:
  assumes "return_priority E l h k = Inr k'" shows "still k k'"
proof -
  obtain hth :: thread and k1 f where k1: "fold_res (drop_donor E l h) (priority_list hth) k = Inr k1"
    and k': "k' = upd_thread h (\<lambda>hth. hth\<lparr>priority := f hth\<rparr>) k1"
    using assms by (rule return_priority_cases)
  show ?thesis unfolding k' by (rule still_upd) (rule fold_drop_still[OF k1])
qed

lemma unblock_still: "thread_unblock E t k = Inr k' \<Longrightarrow> still k k'"
  using thread_unblock_frame[of E t k k'] by (simp add: still_def)

lemma wake_still: "timer_wake E t k = Inr k' \<Longrightarrow> still k k'"
  by (auto simp: timer_wake_def res_simps still_def dest!: unblock_still split: if_splits)

lemma interrupt_still: "timer_interrupt E k = Inr k' \<Longrightarrow> still k k'"
proof -
  assume "timer_interrupt E k = Inr k'"
  then obtain n k1 k2 where k1: "thread_tick (k\<lparr>ticks := n\<rparr>) = Inr k1"
    and k2: "fold_res (timer_wake E) (thread_list k1) (k1\<lparr>intr_on := False\<rparr>) = Inr k2"
    and k': "k' = k2\<lparr>intr_on := intr_on k1\<rparr>"
    by (auto simp: timer_interrupt_def res_simps Let_def)
  have "still (k1\<lparr>intr_on := False\<rparr>) k2"
    using k2 by (rule fold_res_invariant[where P = "still (k1\<lparr>intr_on := False\<rparr>)"])
      (auto intro: still_trans wake_still)
  moreover have "still k (k1\<lparr>intr_on := False\<rparr>)"
    using k1 by (auto simp: thread_tick_def res_simps Let_def still_def split: if_splits)
  ultimately show ?thesis by (simp add: k' still_def)
qed

text \<open>A switch, read off the code.\<close>

lemma schedule_still:
  assumes "schedule k = Inr k'"
  shows "locks k' = locks k \<and> sems k' = sems k \<and> condvars k' = condvars k \<and>
     (\<forall>t. frames k' t = frames k t \<or> t = cur k \<and> state_of k t = Some THREAD_DYING \<and> frames k' t = [])"
proof -
  obtain W k1 where W: "next_thread_to_run k = (W, k1)" by (cases "next_thread_to_run k")
  have k1: "locks k1 = locks k" "sems k1 = sems k" "condvars k1 = condvars k" "frames k1 = frames k" "cur k1 = cur k" "threads k1 = threads k"
    using W by (auto simp: next_thread_to_run_def split: list.splits)
  obtain n where tail: "(if cur k1 \<noteq> n then thread_schedule_tail (Some (cur k1)) (k1\<lparr>cur := n\<rparr>)
                 else thread_schedule_tail None k1) = Inr k'"
    using assms W by (auto simp: schedule_def res_simps split: option.splits)
  show ?thesis
  proof (cases "cur k1 = n")
    case True
    then show ?thesis using tail k1
      by (auto simp: thread_schedule_tail_def res_simps Let_def frame_simps)
  next
    case False
    have st: "state_of ((upd_thread n (\<lambda>th. th\<lparr>status := THREAD_RUNNING\<rparr>) (k1\<lparr>cur := n\<rparr>))\<lparr>thread_ticks := 0\<rparr>) (cur k)
      = state_of k (cur k)"
      using False k1 by (simp add: state_of_def threads_upd_thread)
    show ?thesis using tail k1 False
      by (auto simp: thread_schedule_tail_def res_simps Let_def frame_simps palloc_free_page_def st
          split: if_splits)
  qed
qed

lemma schedule_alive:
  assumes s: "schedule k = Inr k'" and "state_of k (cur k) \<noteq> Some THREAD_DYING"
  shows "locks k' = locks k \<and> sems k' = sems k \<and> condvars k' = condvars k \<and> frames k' = frames k"
  using schedule_still[OF s] assms(2) by (auto simp: fun_eq_iff)

lemma set_status_alive:
  "st \<noteq> THREAD_DYING \<Longrightarrow>
     state_of (upd_thread t (\<lambda>th. th\<lparr>status := st\<rparr>) k) t \<noteq> Some THREAD_DYING"
  by (auto simp: state_of_def threads_upd_thread)

lemma block_still:
  assumes "thread_block k = Inr k'"
  shows "locks k' = locks k \<and> sems k' = sems k \<and> condvars k' = condvars k \<and> frames k' = frames k"
proof -
  have "schedule (upd_thread (cur k) (\<lambda>th. th\<lparr>status := THREAD_BLOCKED\<rparr>) k) = Inr k'"
    using assms by (auto simp: thread_block_def res_simps)
  from schedule_alive[OF this] show ?thesis by (simp add: frame_simps set_status_alive)
qed

lemma yield_acts:
  assumes "thread_yield E k = Inr k'"
  shows "acts [Intr_Set_Level (intr_on k)] k k'"
proof -
  define k1 where "k1 = push [Intr_Set_Level (intr_on k)] (k\<lparr>intr_on := False\<rparr>)"
  define k2 where "k2 = (if Some (cur k1) \<noteq> idle_thread k1
      then k1\<lparr>ready_list := list_insert_ordered (lib E) (list_priority_sort k1) (cur k1) (ready_list k1)\<rparr>
      else k1)"
  have "schedule (upd_thread (cur k2) (\<lambda>th. th\<lparr>status := THREAD_READY\<rparr>) k2) = Inr k'"
    using assms by (auto simp: thread_yield_def res_simps Let_def k1_def k2_def)
  from schedule_alive[OF this] have "locks k' = locks k2 \<and> sems k' = sems k2 \<and> condvars k' = condvars k2 \<and> frames k' = frames k2"
    by (simp add: frame_simps set_status_alive)
  then show ?thesis
    by (auto simp: k2_def k1_def acts_def frame_simps frames_push values_def fun_eq_iff)
qed

lemma exit_still:
  assumes "thread_exit k = Inr k'"
  shows "locks k' = locks k \<and> sems k' = sems k \<and> condvars k' = condvars k \<and>
     (\<forall>t. frames k' t = frames k t \<or> t = cur k \<and> frames k' t = [])"
proof -
  have "schedule (upd_thread (cur k) (\<lambda>th. th\<lparr>status := THREAD_DYING\<rparr>)
      (k\<lparr>intr_on := False, all_list := remove1 (cur k) (all_list k)\<rparr>)) = Inr k'"
    using assms by (auto simp: thread_exit_def res_simps Let_def)
  from schedule_still[OF this] show ?thesis by (auto simp: frame_simps)
qed

end
