(* ===== verification/Mutex_Run.thy ===== *)
theory Mutex_Run
  imports Mutex
begin

text \<open>
  The token of every lock is conserved by every frame, by clients and by the interrupt, so it is
  there in every reachable state; mutual exclusion follows.
\<close>

section \<open>Quiet frames\<close>

lemma busy_upd: "frames k' = (frames k)(c := xs) \<Longrightarrow> finite (busy k) \<Longrightarrow> finite (busy k')"
  by (rule finite_subset[of _ "insert c (busy k)"]) (auto simp: busy_def split: if_splits)

lemma mutexD:
  assumes "mutex_inv k"
  shows "finite (busy k)" "stack_ok (frames k t)" "tokens k l = exists_lock k l"
    "Lock_Release LR_Clear l \<in> set (frames k t) \<Longrightarrow> lock_holder k l = Some t"
  using assms by (simp_all add: mutex_inv_def)

lemma holder_cong: "locks k' = locks k \<Longrightarrow> lock_holder k' = lock_holder k \<and> held k' = held k \<and> exists_lock k' = exists_lock k"
  by (simp add: lock_holder_def held_def exists_lock_def fun_eq_iff)

lemma no_releasing: "\<not> list_ex releasing us \<Longrightarrow> Lock_Release LR_Clear l \<notin> set us"
  by (auto simp: list_ex_iff releasing_def)

text \<open>The running thread leaves the frames \<open>pre\<close> and makes the calls \<open>us\<close>.\<close>

lemma calls_mutex:
  assumes inv: "mutex_inv k" and f: "frames k (cur k) = pre @ fs"
    and k': "frames k' = (frames k)(cur k := us @ fs)" "locks k' = locks k" "lock_value k' = lock_value k"
    and ok: "stack_ok (us @ fs)" "\<And>l. load l us = load l pre" "\<not> list_ex releasing us"
  shows "mutex_inv k'"
proof (rule mutex_stepI[OF inv])
  note h = holder_cong[OF k'(2)]
  show "finite (busy k')" using busy_upd[OF k'(1)] mutexD(1)[OF inv] .
  show "stack_ok (frames k' (cur k))" using ok(1) by (simp add: k')
  show "load l (frames k' (cur k)) + held k' l + lock_value k' l + exists_lock k l =
       load l (frames k (cur k)) + held k l + lock_value k l + exists_lock k' l" for l
    by (simp add: k' h f ok(2))
  show "Lock_Release LR_Clear l \<in> set (frames k' (cur k)) \<Longrightarrow> lock_holder k' l = Some (cur k)" for l
    using no_releasing[OF ok(3)] mutexD(4)[OF inv, of l "cur k"] by (auto simp: k' h f)
qed (auto simp: k' holder_cong[OF k'(2)])

lemma acts_mutex:
  assumes inv: "mutex_inv k" and f: "frames k (cur k) = f # fs" and a: "acts_locks us (pop k) k'"
    and w: "\<And>l. weight l f = 0"
    and us: "\<not> yieldish f \<and> tidy us \<or> list_all light us \<and> list_all yieldish us"
  shows "mutex_inv k'"
proof (rule calls_mutex[OF inv])
  have s: "stack_ok fs" "yieldish f \<or> \<not> list_ex releasing fs"
    using mutexD(2)[OF inv, of "cur k"] f by simp_all
  have r: "stack_ok (us @ fs) \<and> load l us = 0 \<and> \<not> list_ex releasing us" for l
    using us tidy_stack[OF _ s(1)] light_stack[OF _ s(1)] s(2) by blast
  then show "stack_ok (us @ fs)" "load l us = load l [f]" "\<not> list_ex releasing us" for l
    using w by simp_all
  show "frames k (cur k) = [f] @ fs" using f by simp
  show "frames k' = (frames k)(cur k := us @ fs)" "locks k' = locks k" "lock_value k' = lock_value k"
    using a f by (simp_all add: acts_locks_def frames_pop frame_simps lock_value_def fun_eq_iff)
qed

lemma lock_acquire_acts:
  assumes "lock_acquire E p l k = Inr k'" and "p \<noteq> LA_Own"
  shows "\<exists>us. acts us k k' \<and> tidy us \<and> list_all mild us"
proof -
  have one: "tidy [Lock_Acquire p l] \<and> list_all mild [Lock_Acquire p l]" if "p \<noteq> LA_Own" for p
    using that by (auto simp: tidy_def light_def frame_class split: acquire_point.splits)
  have two: "tidy [Sema_Down SD_Enter (Lock_Sema l), Lock_Acquire LA_Own l] \<and>
      list_all mild [Sema_Down SD_Enter (Lock_Sema l), Lock_Acquire LA_Own l]"
    by (auto simp: tidy_def frame_class)
  have push: "still k k1 \<Longrightarrow> tidy us \<and> list_all mild us \<Longrightarrow>
      \<exists>vs. acts vs k (push us k1) \<and> tidy vs \<and> list_all mild vs" for us k1
    using acts_push by blast
  show ?thesis
    using assms
    by (cases p) (auto simp: res_simps intro!: push one two still_upd dest!: link_p_elem_still
        split: option.splits if_splits)
qed

definition lightly :: "kernel \<Rightarrow> kernel \<Rightarrow> bool" where
  "lightly k k' \<longleftrightarrow> (\<exists>us. acts_locks us k k' \<and> list_all light us)"

definition quietly :: "kernel \<Rightarrow> kernel \<Rightarrow> bool" where
  "quietly k k' \<longleftrightarrow> (\<exists>us. acts us k k' \<and> list_all gentle us)"

lemma quietlyI: "acts us k k' \<Longrightarrow> list_all gentle us \<Longrightarrow> quietly k k'"
  unfolding quietly_def by blast

lemma quietly_push: "still k k1 \<Longrightarrow> list_all gentle us \<Longrightarrow> quietly k (push us k1)"
  by (blast intro: quietlyI acts_push)

lemma quietly_other:
  "quietly k k"
  "still k (upd_thread t f k1) \<Longrightarrow> quietly k (upd_thread t f k1)"
  by (rule quietlyI[of "[]"]; simp add: acts_Nil)+

lemma quietly_lightly: "quietly k k' \<Longrightarrow> lightly k k'"
  unfolding quietly_def lightly_def by (auto simp: gentle_def list_all_iff intro: acts_acts_locks)

lemma lightlyI: "acts_locks us k k' \<Longrightarrow> list_all light us \<Longrightarrow> lightly k k'"
  unfolding lightly_def by blast

lemma semaphore_up_acts:
  assumes "semaphore_up E p s k = Inr k'" and "p \<noteq> SU_Enter"
  shows "quietly k k'"
  using assms
  by (cases p) (auto simp: res_simps gentle_def light_def frame_class intro!: quietly_push split: if_splits)

lemma set_priority_acts:
  assumes "thread_set_priority p k = Inr k'"
  shows "quietly k k'"
  using assms
  by (auto simp: thread_set_priority_def res_simps gentle_def light_def frame_class Let_def
      intro!: quietly_push quietly_other still_upd split: if_splits)

lemma lightly_push:
  assumes "locks k1 = locks k \<and> sems k1 = sems k \<and> frames k1 = frames k \<and> cur k1 = cur k" and "list_all light us"
  shows "lightly k (push us k1)"
  by (rule lightlyI[OF _ assms(2)])
    (use assms(1) in \<open>simp add: acts_locks_def frames_push frame_simps lock_value_def fun_eq_iff\<close>)

lemma lightly_refl: "lightly k k"
  by (rule quietly_lightly[OF quietly_other(1)])

lemma cond_acts:
  shows "condvar_signal E c l k = Inr k' \<Longrightarrow> lightly k k'"
    and "condvar_broadcast c l k = Inr k' \<Longrightarrow> lightly k k'"
  by (auto simp: condvar_signal_def condvar_broadcast_def res_simps light_def frame_class frame_simps
      intro!: lightly_push lightly_refl split: if_splits list.splits)

lemma start_acts:
  assumes "thread_start p k = Inr k'"
  shows "quietly k k'"
proof (cases p)
  case TS_Enter
  have "acts [Thread_Create (TC_Enter ''idle'' PRI_MIN (Idle Idle_Started)), Thread_Start TS_Enable] k k'"
    using assms TS_Enter
    by (auto simp: acts_def frame_simps frames_push values_def fun_eq_iff sems_put_sema)
  then show ?thesis by (rule quietlyI) (simp add: gentle_def light_def frame_class)
next
  case TS_Enable
  then show ?thesis using assms
    by (auto simp: gentle_def light_def frame_class still_def intro!: quietly_push)
next
  case TS_Return
  have "acts [] k k'"
    using assms TS_Return by (auto simp: acts_def values_def fun_eq_iff)
  then show ?thesis by (rule quietlyI) simp
qed

lemma wait_acts:
  assumes "condvar_wait E p c l k = Inr k'"
  shows "lightly k k'"
proof (cases p)
  case CW_Enter
  have "acts_locks [Lock_Release LR_Enter l, Sema_Down SD_Enter (Waiter (cur k)),
      Lock_Acquire LA_Enter l, Cond_Wait CW_Return c l] k k'"
    using assms CW_Enter
    by (auto simp: acts_locks_def res_simps Let_def frame_simps frames_push lock_value_def fun_eq_iff
        sems_put_sema semaphore_init_def)
  then show ?thesis by (rule lightlyI) (simp add: light_def frame_class)
next
  case CW_Return
  have "acts_locks [] k k'"
    using assms CW_Return by (auto simp: acts_locks_def lock_value_def fun_eq_iff)
  then show ?thesis by (rule lightlyI) simp
qed

lemma sleep_acts:
  assumes "timer_sleep E p n k = Inr k'"
  shows "quietly k k'"
proof (cases p)
  case SL_Block
  then obtain xs where "thread_block (push [Intr_Set_Level (intr_on k)]
      (k\<lparr>intr_on := False, thread_list := xs\<rparr>)) = Inr k'"
    using assms by (auto simp: res_simps Let_def)
  from block_still[OF this] have "acts [Intr_Set_Level (intr_on k)] k k'"
    by (simp add: acts_def frame_simps frames_push values_def fun_eq_iff)
  then show ?thesis by (rule quietlyI) (simp add: gentle_def light_def frame_class)
qed (use assms in \<open>auto simp: res_simps gentle_def light_def frame_class intro!: quietly_push quietly_other
    still_upd split: if_splits\<close>)

lemma idle_acts:
  assumes "idle E p k = Inr k'" and "\<And>s. p = IP_Enter s \<Longrightarrow> s = Idle_Started"
  shows "quietly k k'"
proof (cases p)
  case IP_Loop
  then have "thread_block (push [Idle_At IP_Halt] (k\<lparr>intr_on := False\<rparr>)) = Inr k'"
    using assms by simp
  from block_still[OF this] have "acts [Idle_At IP_Halt] k k'"
    by (simp add: acts_def frame_simps frames_push values_def fun_eq_iff)
  then show ?thesis by (rule quietlyI) (simp add: gentle_def light_def frame_class)
qed (use assms in \<open>auto simp: res_simps gentle_def light_def frame_class still_def intro!: quietly_push\<close>)

lemma create_acts:
  assumes "thread_create E p k = Inr k'" and "\<And>t func. p \<noteq> TC_Ready t func"
    and "\<And>nm pri func. p = TC_Enter nm pri func \<Longrightarrow> func_ok func"
  shows "quietly k k'"
proof (cases p)
  case (TC_Enter nm pri func)
  then show ?thesis using assms
    by (auto simp: res_simps init_thread_def gentle_def light_def frame_class still_def
        intro!: quietly_push quietly_other split: option.splits)
next
  case (TC_Tid t)
  then show ?thesis using assms
    by (auto simp: res_simps allocate_tid_def gentle_def light_def frame_class still_def intro!: quietly_push)
qed (use assms in \<open>auto simp: res_simps gentle_def light_def frame_class intro!: quietly_push quietly_other
    still_upd split: if_splits\<close>)


section \<open>Frames that move the token\<close>

lemma tokens_ge:
  assumes inv: "mutex_inv k"
  shows "load l (frames k c) + held k l + lock_value k l \<le> exists_lock k l"
proof -
  have fin: "finite (insert c (busy k))" using mutexD(1)[OF inv] by simp
  have "load l (frames k c) \<le> (\<Sum>t \<in> insert c (busy k). load l (frames k t))"
    by (rule member_le_sum) (use fin mutexD(2)[OF inv] stack_ok_load in auto)
  then show ?thesis
    using tokens_superset[OF fin subset_insertI, of l] mutexD(3)[OF inv, of l] by simp
qed

lemma lock_value_ge: "0 \<le> lock_value k l"
  by (simp add: lock_value_def split: option.splits)

text \<open>Possession is taken only of a free lock.\<close>

lemma own_free:
  assumes inv: "mutex_inv k" and f: "frames k (cur k) = Lock_Acquire LA_Own l # fs"
  shows "lock_holder k l = None" and "lock_value k l = 0"
proof -
  have "0 \<le> load l fs" using mutexD(2)[OF inv, of "cur k"] f by (simp add: stack_ok_load)
  then have "1 + held k l + lock_value k l \<le> exists_lock k l"
    using tokens_ge[OF inv, of l "cur k"] by (simp add: f weight_def)
  moreover have "exists_lock k l \<le> 1" "0 \<le> held k l" by (simp_all add: exists_lock_def held_def)
  ultimately show "lock_holder k l = None" and "lock_value k l = 0"
    using lock_value_ge[of k l] by (auto simp: held_def split: if_splits)
qed

lemma top_quiet:
  assumes "mutex_inv k" and "frames k (cur k) = f # fs" and "\<not> yieldish f"
  shows "stack_ok fs" and "\<not> list_ex releasing fs" and "base_frame f \<Longrightarrow> list_all base_frame fs"
    and "arg_ok f"
  using mutexD(2)[OF assms(1), of "cur k"] assms(2,3) by auto

lemma own_mutex:
  assumes inv: "mutex_inv k" and f: "frames k (cur k) = Lock_Acquire LA_Own l # fs"
    and x: "lock_acquire E LA_Own l (pop k) = Inr k'"
  shows "mutex_inv k'"
proof (rule mutex_stepI[OF inv])
  obtain lk where lk: "locks k l = Some lk"
    and k': "k' = put_lock l (lk\<lparr>holder := Some (cur k)\<rparr>) (pop k)"
    using x by (auto simp: res_simps frame_simps)
  note free = own_free[OF inv f]
  note q = top_quiet[OF inv f, unfolded yieldish_def, simplified]
  have fr: "frames k' = (frames k)(cur k := fs)" by (simp add: k' frame_simps frames_pop f)
  have h: "lock_holder k' = (lock_holder k)(l := Some (cur k))"
    by (auto simp: k' lock_holder_def fun_eq_iff locks_put_lock frame_simps)
  have v: "lock_value k' = lock_value k" by (simp add: k' lock_value_def fun_eq_iff frame_simps)
  have e: "exists_lock k' = exists_lock k"
    by (auto simp: k' exists_lock_def fun_eq_iff locks_put_lock frame_simps lk)
  show "finite (busy k')" using busy_upd[OF fr] mutexD(1)[OF inv] .
  show "stack_ok (frames k' (cur k))" using q(1) by (simp add: fr)
  show "load m (frames k' (cur k)) + held k' m + lock_value k' m + exists_lock k m =
       load m (frames k (cur k)) + held k m + lock_value k m + exists_lock k' m" for m
    using free by (simp add: fr f v e held_def h weight_def)
  show "Lock_Release LR_Clear m \<in> set (frames k' (cur k)) \<Longrightarrow> lock_holder k' m = Some (cur k)" for m
    using no_releasing[OF q(2)] by (simp add: fr)
  show "lock_holder k' m = Some t" if "lock_holder k m = Some t" for t m
    using that free by (auto simp: h)
  show "t \<noteq> cur k \<Longrightarrow> frames k' t = frames k t \<or> inert (frames k t) \<and> inert (frames k' t)" for t
    by (simp add: fr)
qed

lemma release_enter_mutex:
  assumes inv: "mutex_inv k" and f: "frames k (cur k) = Lock_Release LR_Enter l # fs"
    and x: "lock_release E LR_Enter l (pop k) = Inr k'"
  shows "mutex_inv k'"
proof (rule mutex_stepI[OF inv])
  have h: "lock_holder k l = Some (cur k)"
    using x by (auto simp: res_simps lock_held_by_current_thread_def lock_holder_def frame_simps)
  obtain k1 where s: "still (pop k) k1" and k': "k' = push [Lock_Release LR_Clear l] k1"
    using x by (auto simp: res_simps dest: return_priority_still split: if_splits) (metis still_refl)
  note q = top_quiet[OF inv f, unfolded yieldish_def, simplified]
  have fr: "frames k' = (frames k)(cur k := Lock_Release LR_Clear l # fs)"
    using s by (simp add: k' frames_push still_def frames_pop f frame_simps)
  have l: "locks k' = locks k" and v: "lock_value k' = lock_value k"
    using s by (simp_all add: k' still_def frame_simps lock_value_def fun_eq_iff)
  note hc = holder_cong[OF l]
  show "finite (busy k')" using busy_upd[OF fr] mutexD(1)[OF inv] .
  show "stack_ok (frames k' (cur k))"
    using q stack_ok_load[OF q(1)] by (simp add: fr frame_class)
  show "load m (frames k' (cur k)) + held k' m + lock_value k' m + exists_lock k m =
       load m (frames k (cur k)) + held k m + lock_value k m + exists_lock k' m" for m
    by (simp add: fr f v hc weight_def)
  show "Lock_Release LR_Clear m \<in> set (frames k' (cur k)) \<Longrightarrow> lock_holder k' m = Some (cur k)" for m
    using no_releasing[OF q(2)] h by (auto simp: fr hc)
  show "t \<noteq> cur k \<Longrightarrow> frames k' t = frames k t \<or> inert (frames k t) \<and> inert (frames k' t)" for t
    by (simp add: fr)
  show "lock_holder k' m = Some t" if "lock_holder k m = Some t" for t m
    using that by (simp add: hc)
qed

lemma release_clear_mutex:
  assumes inv: "mutex_inv k" and f: "frames k (cur k) = Lock_Release LR_Clear l # fs"
    and x: "lock_release E LR_Clear l (pop k) = Inr k'"
  shows "mutex_inv k'"
proof (rule mutex_stepI[OF inv])
  have h: "lock_holder k l = Some (cur k)" using mutexD(4)[OF inv, of l "cur k"] f by simp
  obtain lk where lk: "locks k l = Some lk"
    and k': "k' = push [Sema_Up SU_Enter (Lock_Sema l)] (put_lock l (lk\<lparr>holder := None\<rparr>) (pop k))"
    using x by (auto simp: res_simps frame_simps)
  note q = top_quiet[OF inv f, unfolded yieldish_def, simplified]
  have fr: "frames k' = (frames k)(cur k := Sema_Up SU_Enter (Lock_Sema l) # fs)"
    by (simp add: k' frames_push frames_pop f frame_simps)
  have hk: "lock_holder k' = (lock_holder k)(l := None)"
    by (auto simp: k' lock_holder_def fun_eq_iff locks_put_lock frame_simps)
  have v: "lock_value k' = lock_value k" by (simp add: k' lock_value_def fun_eq_iff frame_simps)
  have e: "exists_lock k' = exists_lock k"
    by (auto simp: k' exists_lock_def fun_eq_iff locks_put_lock frame_simps lk)
  show "finite (busy k')" using busy_upd[OF fr] mutexD(1)[OF inv] .
  show "stack_ok (frames k' (cur k))"
    using q stack_ok_load[OF q(1)] by (simp add: fr frame_class)
  show "load m (frames k' (cur k)) + held k' m + lock_value k' m + exists_lock k m =
       load m (frames k (cur k)) + held k m + lock_value k m + exists_lock k' m" for m
    using h by (simp add: fr f v e held_def hk weight_def)
  show "Lock_Release LR_Clear m \<in> set (frames k' (cur k)) \<Longrightarrow> lock_holder k' m = Some (cur k)" for m
    using no_releasing[OF q(2)] by (simp add: fr)
  show "t \<noteq> cur k \<Longrightarrow> frames k' t = frames k t \<or> inert (frames k t) \<and> inert (frames k' t)" for t
    by (simp add: fr)
  show "lock_holder k' m = Some t" if "t \<noteq> cur k" "lock_holder k m = Some t" for t m
    using that h by (auto simp: hk)
qed

text \<open>The wait and the wake-up move the token between a stack and the semaphore.\<close>

lemma sema_mutex:
  assumes inv: "mutex_inv k" and f: "frames k (cur k) = f # fs" and y: "\<not> yieldish f"
    and k': "frames k' = (frames k)(cur k := us @ fs)" "locks k' = locks k"
    and us: "us = [] \<or> us = [g] \<and> \<not> base_frame g \<and> arg_ok g \<and> \<not> releasing g" "\<And>l. weight l f \<le> load l us \<or> 0 \<le> load l us"
    and bal: "\<And>l. load l us + lock_value k' l = weight l f + lock_value k l"
  shows "mutex_inv k'"
proof (rule mutex_stepI[OF inv])
  note q = top_quiet[OF inv f y] and h = holder_cong[OF k'(2)]
  show "finite (busy k')" using busy_upd[OF k'(1)] mutexD(1)[OF inv] .
  have "0 \<le> weight l f + load l fs" for l
    using stack_ok_load[OF mutexD(2)[OF inv, of "cur k"], of l] f by simp
  moreover have "0 \<le> load l fs" for l using stack_ok_load[OF q(1)] .
  ultimately have "0 \<le> load l (us @ fs)" for l
    using us(2)[of l] by (metis add_increasing add_right_mono load_simps(3) order_trans)
  then show "stack_ok (frames k' (cur k))" using us(1) q by (auto simp: k')
  show "load m (frames k' (cur k)) + held k' m + lock_value k' m + exists_lock k m =
       load m (frames k (cur k)) + held k m + lock_value k m + exists_lock k' m" for m
    using bal[of m] by (simp add: k' f h)
  show "Lock_Release LR_Clear m \<in> set (frames k' (cur k)) \<Longrightarrow> lock_holder k' m = Some (cur k)" for m
    using no_releasing[OF q(2)] us(1) by (auto simp: k' releasing_def)
qed (auto simp: k' holder_cong[OF k'(2)])


text \<open>A wait that does not pass stays where it is.\<close>

lemma down_waits:
  assumes x: "semaphore_down E p s (pop k) = Inr k'"
    and False: "\<not> (\<exists>old sm. p = SD_Loop old \<and> sems k s = Some sm \<and> sema_value sm \<noteq> 0)"
  shows "\<exists>p'. acts [Sema_Down p' s] (pop k) k'"
proof (cases p)
  case SD_Enter
  then show ?thesis using x acts_push[of "pop k" "(pop k)\<lparr>intr_on := False\<rparr>"]
    by (auto simp: res_simps still_def frame_simps)
next
  case (SD_Loop old)
  obtain sm where sm: "sems k s = Some sm" using x SD_Loop by (auto simp: res_simps frame_simps)
  from x SD_Loop False sm obtain th k1 xs where d: "donate_to_holder th (pop k) = Inr k1"
    and b: "thread_block (push [Sema_Down (SD_Loop old) s] (put_sema s (sm\<lparr>waiters := xs\<rparr>) k1)) = Inr k'"
    by (auto simp: res_simps frame_simps)
  have "acts [Sema_Down (SD_Loop old) s] (pop k) k'"
    using block_still[OF b] donate_still[OF d] sm
    by (auto simp: acts_def still_def frame_simps frames_push values_def sems_put_sema fun_eq_iff)
  then show ?thesis by blast
qed

lemma down_mutex:
  assumes inv: "mutex_inv k" and f: "frames k (cur k) = Sema_Down p s # fs"
    and x: "semaphore_down E p s (pop k) = Inr k'"
  shows "mutex_inv k'"
proof (cases "\<exists>old sm. p = SD_Loop old \<and> sems k s = Some sm \<and> sema_value sm \<noteq> 0")
  case True
  then obtain old sm where p: "p = SD_Loop old" and sm: "sems k s = Some sm" "sema_value sm \<noteq> 0" by blast
  then have k': "k' = (put_sema s (sm\<lparr>sema_value := sema_value sm - 1\<rparr>) (pop k))\<lparr>intr_on := old\<rparr>"
    using x by (auto simp: res_simps frame_simps)
  have "uint (sema_value sm) \<noteq> 0" using sm(2) by (simp add: uint_0_iff)
  then have "1 \<le> uint (sema_value sm)" using uint_ge_0[of "sema_value sm"] by linarith
  then have u: "uint (sema_value sm - 1) = uint (sema_value sm) - 1"
    using uint_sub_lem[of 1 "sema_value sm"] by simp
  show ?thesis
    by (rule sema_mutex[OF inv f, of k' "[]"])
      (use sm(1) in \<open>auto simp: k' frames_pop f frame_simps frame_class lock_value_def sems_put_sema u\<close>)
next
  case False
  obtain p' where a: "acts [Sema_Down p' s] (pop k) k'" using down_waits[OF x False] by blast
  have lv: "lock_value (pop k) = lock_value k"
    by (simp add: lock_value_def frame_simps fun_eq_iff)
  have k': "frames k' = (frames k)(cur k := [Sema_Down p' s] @ fs)" "locks k' = locks k"
    "lock_value k' = lock_value k"
    using a f lv by (simp_all add: acts_def frames_pop frame_simps)
  show ?thesis
    by (rule sema_mutex[OF inv f _ k'(1,2), where g = "Sema_Down p' s"])
      (simp_all add: frame_class k'(3))
qed

lemma up_enter_cases:
  assumes x: "semaphore_up E SU_Enter s k = Inr k'"
  obtains t sm sm' ws k1 where "sems k s = Some sm"
    and "still k k1 \<or> still (put_sema s (sm\<lparr>waiters := ws\<rparr>) k) k1"
    and "k' = push [Sema_Up (SU_Preempt t) s] (put_sema s sm' k1)"
    and "sema_value sm' = sema_value sm + 1"
proof (cases "list_sort (lib E) (sem_priority_sort k) (waiters (the (sems k s)))")
  case Nil
  then show ?thesis using that[of "the (sems k s)" k "[]" "cur k"] x
    by (auto simp: res_simps frame_simps)
next
  case (Cons t ts)
  obtain sm where sm: "sems k s = Some sm" using x by (auto simp: res_simps frame_simps)
  with x Cons obtain k1 where w: "thread_unblock E t (put_sema s (sm\<lparr>waiters := ts\<rparr>) k) = Inr k1"
    and k': "k' = push [Sema_Up (SU_Preempt t) s]
      (put_sema s (sm\<lparr>waiters := ts, sema_value := sema_value sm + 1\<rparr>) k1)"
    by (auto simp: res_simps frame_simps)
  show ?thesis by (rule that[OF sm _ k']) (use unblock_still[OF w] in auto)
qed

lemma up_mutex:
  assumes inv: "mutex_inv k" and f: "frames k (cur k) = Sema_Up SU_Enter s # fs"
    and x: "semaphore_up E SU_Enter s (pop k) = Inr k'"
  shows "mutex_inv k'"
proof -
  from x obtain t sm sm' ws k1 where sm: "sems (pop k) s = Some sm"
    and s1: "still (pop k) k1 \<or> still (put_sema s (sm\<lparr>waiters := ws\<rparr>) (pop k)) k1"
    and k': "k' = push [Sema_Up (SU_Preempt t) s] (put_sema s sm' k1)" "sema_value sm' = sema_value sm + 1"
    by (rule up_enter_cases)
  have sm: "sems k s = Some sm" using sm by (simp add: frame_simps)
  have k1: "locks k1 = locks k" "frames k1 = frames (pop k)" "cur k1 = cur k"
    "lock_value k1 = lock_value k"
    using s1 sm by (auto simp: still_def frame_simps lock_value_def sems_put_sema fun_eq_iff)
  show ?thesis
  proof (rule sema_mutex[OF inv f, of k' "[Sema_Up (SU_Preempt t) s]" "Sema_Up (SU_Preempt t) s"])
    have small: "uint (sema_value sm) < 2" if "s = Lock_Sema l" for l
    proof -
      have "lock_value k l \<le> exists_lock k l"
        using tokens_ge[OF inv, of l "cur k"] stack_ok_load[OF mutexD(2)[OF inv, of "cur k"], of l]
        by (simp add: held_def split: if_splits)
      then show ?thesis using that sm by (simp add: lock_value_def exists_lock_def split: if_splits)
    qed
    have "uint (sema_value sm + 1) = uint (sema_value sm) + 1" if "s = Lock_Sema l" for l
      using small[OF that] by (simp add: uint_word_ariths)
    then show "load l [Sema_Up (SU_Preempt t) s] + lock_value k' l = weight l (Sema_Up SU_Enter s) + lock_value k l" for l
      using sm k1(4) by (auto simp: weight_def k' lock_value_def frame_simps sems_put_sema fun_eq_iff)
  qed (use k1 f in \<open>auto simp: k' frames_push frames_pop frame_simps frame_class\<close>)
qed


lemma create_ready_effect:
  assumes wf: "wf_kernel k" and f: "frames k (cur k) = Thread_Create (TC_Ready t func) # fs"
    and x: "thread_create E (TC_Ready t func) (pop k) = Inr k'"
  shows "frames k t = []"
    and "frames k' = (frames k)(t := [Kernel_Thread func], cur k := Thread_Create (TC_Preempt t) # fs)"
    and "locks k' = locks k" and "lock_value k' = lock_value k"
    and "condvars k' = condvars k" and "waiter_value k' = waiter_value k"
proof -
  have c: "core (idlers k) k (Some (cur k))" using wf by (simp add: wf_kernel_def)
  have al: "alloc_frame t n k0 = Inr k1 \<Longrightarrow> still k0 k1" for n k0 k1
    by (auto simp: alloc_frame_def res_simps intro: still_upd)
  from x obtain ka kb k1 k2 where
    a: "alloc_frame t kernel_thread_frame_size (pop k) = Inr ka"
      "alloc_frame t (switch_entry_frame_size E) ka = Inr kb"
      "alloc_frame t (switch_threads_frame_size E) kb = Inr k1"
    and wake: "thread_unblock E t (k1\<lparr>frames := (frames k1)(t := [Kernel_Thread func])\<rparr>) = Inr k2"
    and k': "k' = push [Thread_Create (TC_Preempt t)] k2"
    by (auto simp: res_simps)
  have s1: "still (pop k) k1" using still_trans[OF still_trans[OF al[OF a(1)] al[OF a(2)]] al[OF a(3)]] .
  have "t \<in> set (new_threads (frames k (cur k)))" using f by (simp add: new_thread_def)
  then show ft: "frames k t = []" using core_fresh[OF c] unfolding fresh_ok_def by blast
  have tc: "t \<noteq> cur k" using ft f by auto
  show fr: "frames k' = (frames k)(t := [Kernel_Thread func], cur k := Thread_Create (TC_Preempt t) # fs)"
    using unblock_still[OF wake] s1 f tc
    by (auto simp: k' still_def frames_push frames_pop frame_simps fun_eq_iff)
  show "locks k' = locks k" "lock_value k' = lock_value k" "condvars k' = condvars k" "waiter_value k' = waiter_value k"
    using unblock_still[OF wake] s1 by (simp_all add: k' still_def frame_simps values_def fun_eq_iff)
qed

lemma create_ready_mutex:
  assumes inv: "mutex_inv k" and wf: "wf_kernel k"
    and f: "frames k (cur k) = Thread_Create (TC_Ready t func) # fs"
    and x: "thread_create E (TC_Ready t func) (pop k) = Inr k'"
  shows "mutex_inv k'"
proof -
  note eff = create_ready_effect[OF wf f x]
  note ft = eff(1) and fr = eff(2) and l = eff(3,4)
  note h = holder_cong[OF l(1)]
  note q = top_quiet[OF inv f, unfolded yieldish_def, simplified]
  show ?thesis
  proof (rule mutex_stepI[OF inv])
    show "finite (busy k')"
      by (rule finite_subset[of _ "insert t (insert (cur k) (busy k))"])
        (use mutexD(1)[OF inv] in \<open>auto simp: busy_def fr split: if_splits\<close>)
    show "u \<noteq> cur k \<Longrightarrow> frames k' u = frames k u \<or> inert (frames k u) \<and> inert (frames k' u)" for u
      using q(4) ft by (simp add: fr inert_def frame_class)
    show "stack_ok (frames k' (cur k))"
      using q stack_ok_load[OF q(1)] by (simp add: fr frame_class)
    show "load m (frames k' (cur k)) + held k' m + lock_value k' m + exists_lock k m =
         load m (frames k (cur k)) + held k m + lock_value k m + exists_lock k' m" for m
      by (simp add: fr f l h weight_def)
    show "Lock_Release LR_Clear m \<in> set (frames k' (cur k)) \<Longrightarrow> lock_holder k' m = Some (cur k)" for m
      using no_releasing[OF q(2)] by (simp add: fr)
  qed (auto simp: h)
qed

lemma exit_mutex:
  assumes inv: "mutex_inv k" and f: "frames k (cur k) = Thread_Exit # fs"
    and x: "thread_exit (pop k) = Inr k'"
  shows "mutex_inv k'"
proof -
  note q = top_quiet[OF inv f, unfolded yieldish_def base_frame_def, simplified]
  have base: "list_all base_frame fs" using q(3) by (simp add: base_frame_def[abs_def])
  have b: "load l fs = 0" for l using base_load[OF base] by simp
  obtain us where us: "frames k' = (frames k)(cur k := us)" "us = fs \<or> us = []"
  proof -
    have "\<forall>t. frames k' t = frames (pop k) t \<or> t = cur k \<and> frames k' t = []"
      using exit_still[OF x] by (simp add: frame_simps)
    then have "frames k' = (frames k)(cur k := frames k' (cur k)) \<and> (frames k' (cur k) = fs \<or> frames k' (cur k) = [])"
      by (auto simp: frames_pop f fun_eq_iff split: if_splits)
    then show ?thesis using that by blast
  qed
  have l: "locks k' = locks k" "lock_value k' = lock_value k"
    using exit_still[OF x] by (simp_all add: frame_simps lock_value_def fun_eq_iff)
  note h = holder_cong[OF l(1)]
  show ?thesis
  proof (rule mutex_stepI[OF inv])
    show "finite (busy k')" using busy_upd[OF us(1)] mutexD(1)[OF inv] .
    show "stack_ok (frames k' (cur k))" using us q(1) by auto
    show "load m (frames k' (cur k)) + held k' m + lock_value k' m + exists_lock k m =
         load m (frames k (cur k)) + held k m + lock_value k m + exists_lock k' m" for m
      using us b by (auto simp: f l h weight_def)
    show "Lock_Release LR_Clear m \<in> set (frames k' (cur k)) \<Longrightarrow> lock_holder k' m = Some (cur k)" for m
      using no_releasing[OF q(2)] us by auto
  qed (auto simp: h us)
qed

section \<open>Steps and runs\<close>

lemma lightly_mutex:
  assumes "mutex_inv k" and "frames k (cur k) = f # fs" and "lightly (pop k) k'"
    and "\<And>l. weight l f = 0" and "\<not> yieldish f"
  shows "mutex_inv k'"
  using assms acts_mutex[of k f fs _ k'] unfolding lightly_def tidy_def by blast

lemma base_push_mutex:
  assumes inv: "mutex_inv k" and f: "frames k (cur k) = pre @ fs" and pre: "\<And>l. load l pre = 0"
    and us: "list_all (\<lambda>f. (\<forall>l. weight l f = 0) \<and> \<not> releasing f \<and> arg_ok f) us"
    and fs: "stack_ok fs" "list_all base_frame fs" and b: "\<And>f. f \<in> set (tl us) \<Longrightarrow> base_frame f"
    and k': "frames k' = (frames k)(cur k := us @ fs)" "locks k' = locks k" "lock_value k' = lock_value k"
  shows "mutex_inv k'"
proof (rule calls_mutex[OF inv f k'])
  have *: "stack_ok (vs @ fs) \<and> (\<forall>l. load l vs = 0) \<and> \<not> list_ex releasing vs"
    if "list_all (\<lambda>f. (\<forall>l. weight l f = 0) \<and> \<not> releasing f \<and> arg_ok f) vs" "\<forall>f \<in> set (tl vs). base_frame f" for vs
    using that fs base_load[OF fs(2)]
  proof (induction vs)
    case (Cons v vs)
    have "\<forall>f \<in> set (tl vs). base_frame f" using Cons.prems(2) by (cases vs) auto
    with Cons show ?case by (auto simp: list_all_iff)
  qed simp
  show "stack_ok (us @ fs)" "load l us = load l pre" "\<not> list_ex releasing us" for l
    using *[OF us] b pre by auto
qed

lemma exec_frame_mutex:
  assumes inv: "mutex_inv k" and wf: "wf_kernel k" and f: "frames k (cur k) = f # fs"
    and x: "exec_frame E f (pop k) = Inr k'"
  shows "mutex_inv k'"
proof -
  have ok: "stack_ok fs" "arg_ok f" "base_frame f \<Longrightarrow> list_all base_frame fs"
    using mutexD(2)[OF inv, of "cur k"] f by simp_all
  note L = lightly_mutex[OF inv f] and fc = frame_class
  show ?thesis
  proof (cases f)
    case (Kernel_Thread func)
    define us where "us = (case func of Client \<Rightarrow> [Client_Body, Thread_Exit]
      | Idle s \<Rightarrow> [Idle_At (IP_Enter s), Thread_Exit])"
    have k': "k' = push us ((pop k)\<lparr>intr_on := True\<rparr>)"
      using x Kernel_Thread by (simp add: kernel_thread_def us_def)
    show ?thesis
    proof (rule base_push_mutex[OF inv, of "[f]" fs us])
      show "list_all (\<lambda>f. (\<forall>l. weight l f = 0) \<and> \<not> releasing f \<and> arg_ok f) us"
        using ok(2) Kernel_Thread by (cases func) (simp_all add: us_def fc)
      show "list_all base_frame fs" using ok(3) Kernel_Thread by (simp add: base_frame_def)
      show "f \<in> set (tl us) \<Longrightarrow> base_frame f" for f
        by (cases func) (auto simp: us_def base_frame_def)
    qed (use f ok k' Kernel_Thread in \<open>simp_all add: fc frames_push frames_pop frame_simps lock_value_def fun_eq_iff\<close>)
  next
    case Client_Body
    have "k' = pop k" using x Client_Body by simp
    then show ?thesis
      by (intro base_push_mutex[OF inv, of "[f]" fs "[]"])
        (use ok f Client_Body in \<open>simp_all add: fc frames_pop frame_simps lock_value_def fun_eq_iff\<close>)
  next
    case (Idle_At p)
    have "lightly (pop k) k'"
      by (rule quietly_lightly, rule idle_acts[of E p]) (use x ok(2) Idle_At in \<open>auto simp: arg_ok_def\<close>)
    then show ?thesis by (rule L) (simp_all add: fc Idle_At)
  next
    case Thread_Yield
    have "acts [Intr_Set_Level (intr_on (pop k))] (pop k) k'"
      using x Thread_Yield by (auto intro: yield_acts)
    then show ?thesis by (rule acts_mutex[OF inv f acts_acts_locks]) (simp_all add: Thread_Yield light_def fc)
  next
    case (Intr_Set_Level b)
    have "acts [] (pop k) k'"
      using x Intr_Set_Level by (auto intro!: acts_Nil simp: still_def)
    then show ?thesis by (rule acts_mutex[OF inv f acts_acts_locks]) (simp_all add: Intr_Set_Level light_def fc)
  next
    case Thread_Exit
    then show ?thesis using exit_mutex[OF inv f[unfolded Thread_Exit]] x by simp
  next
    case (Set_Priority p)
    then show ?thesis using L[OF quietly_lightly] set_priority_acts[of p "pop k" k'] x by (auto simp: fc)
  next
    case (Thread_Create p)
    show ?thesis
    proof (cases "\<exists>t func. p = TC_Ready t func")
      case True
      then show ?thesis using create_ready_mutex[OF inv wf] f x Thread_Create by auto
    next
      case False
      have "lightly (pop k) k'"
        by (rule quietly_lightly, rule create_acts[of E p]) (use x False ok(2) Thread_Create in \<open>auto simp: arg_ok_def\<close>)
      then show ?thesis by (rule L) (simp_all add: fc Thread_Create)
    qed
  next
    case (Thread_Start p)
    then show ?thesis using L[OF quietly_lightly] start_acts[of p "pop k" k'] x by (auto simp: fc)
  next
    case (Sema_Down p s)
    then show ?thesis using down_mutex[OF inv f[unfolded Sema_Down]] x by simp
  next
    case (Sema_Up p s)
    show ?thesis
    proof (cases "p = SU_Enter")
      case True
      then show ?thesis using up_mutex[OF inv, of s fs E k'] f x Sema_Up by simp
    next
      case False
      then show ?thesis using L[OF quietly_lightly] semaphore_up_acts[of E p s "pop k" k'] x Sema_Up
        by (auto simp: fc split: up_point.splits)
    qed
  next
    case (Lock_Acquire p l)
    show ?thesis
    proof (cases "p = LA_Own")
      case True
      then show ?thesis using own_mutex[OF inv, of l fs E k'] f x Lock_Acquire by simp
    next
      case False
      then obtain us where "acts us (pop k) k'" "tidy us"
        using lock_acquire_acts[of E p l "pop k" k'] x Lock_Acquire by auto
      then show ?thesis
        by (intro acts_mutex[OF inv f acts_acts_locks, of us]) (use False Lock_Acquire in \<open>auto simp: fc split: acquire_point.splits\<close>)
    qed
  next
    case (Lock_Release p l)
    then show ?thesis
      using release_enter_mutex[OF inv, of l fs E k'] release_clear_mutex[OF inv, of l fs E k'] f x
      by (cases p) simp_all
  next
    case (Cond_Wait p c l)
    then show ?thesis using L wait_acts[of E p c l "pop k" k'] x by (auto simp: fc)
  next
    case (Cond_Signal c l)
    then show ?thesis using L cond_acts(1)[of E c l "pop k" k'] x by (auto simp: fc)
  next
    case (Cond_Broadcast c l)
    then show ?thesis using L cond_acts(2)[of c l "pop k" k'] x by (auto simp: fc)
  next
    case (Timer_Sleep p n)
    then show ?thesis using L[OF quietly_lightly] sleep_acts[of E p n "pop k" k'] x by (auto simp: fc)
  qed
qed

end
