(* ===== verification/Mutex_Props.thy ===== *)
theory Mutex_Props
  imports Mutex_Run
begin

text \<open>
  The token invariant holds at boot and in every state of every run; the mutual exclusion
  theorems of the Lab 2 locks.
\<close>

section \<open>Steps\<close>

lemma mutex_cong:
  assumes "mutex_inv k" and "frames k' = frames k" and "locks k' = locks k" and "lock_value k' = lock_value k"
  shows "mutex_inv k'"
  by (rule calls_mutex[OF assms(1), of "[]" "frames k (cur k)" k' "[]"])
    (use assms mutexD(2)[OF assms(1)] in auto)

lemma client_light:
  "client_call f \<Longrightarrow> (\<forall>l. weight l f = 0) \<and> \<not> releasing f \<and> arg_ok f"
  by (cases f rule: client_call.cases) (simp_all add: frame_class)

lemma client_call_mutex:
  assumes inv: "mutex_inv k" and f: "frames k (cur k) = Client_Body # fs" and call: "client_call f"
  shows "mutex_inv (push [f] k)"
proof (rule base_push_mutex[OF inv, of "[]" "Client_Body # fs" "[f]"])
  have s: "stack_ok (Client_Body # fs)" using mutexD(2)[OF inv, of "cur k"] f by simp
  then show "stack_ok (Client_Body # fs)" "list_all base_frame (Client_Body # fs)"
    by (simp_all add: base_frame_def)
qed (use f client_light[OF call] in \<open>simp_all add: frames_push frame_simps lock_value_def fun_eq_iff\<close>)

lemma new_lock_mutex:
  assumes inv: "mutex_inv k" and l: "locks k l = None" "sems k (Lock_Sema l) = None"
  shows "mutex_inv (lock_init l k)"
proof (rule mutex_stepI[OF inv])
  let ?k = "lock_init l k"
  have fr: "frames ?k = frames k" by (simp add: lock_init_def semaphore_init_def frame_simps)
  have h: "lock_holder ?k = lock_holder k"
    using l by (auto simp: lock_init_def semaphore_init_def lock_holder_def fun_eq_iff frame_simps locks_put_lock)
  have v: "lock_value ?k = (lock_value k)(l := 1)"
    by (auto simp: lock_init_def semaphore_init_def lock_value_def fun_eq_iff frame_simps sems_put_sema)
  have e: "exists_lock ?k = (exists_lock k)(l := 1)"
    by (auto simp: lock_init_def semaphore_init_def exists_lock_def fun_eq_iff frame_simps locks_put_lock)
  show "finite (busy ?k)" using mutexD(1)[OF inv] by (simp add: busy_def fr)
  show "stack_ok (frames ?k (cur k))" using mutexD(2)[OF inv] by (simp add: fr)
  show "load m (frames ?k (cur k)) + held ?k m + lock_value ?k m + exists_lock k m =
       load m (frames k (cur k)) + held k m + lock_value k m + exists_lock ?k m" for m
    using l by (simp add: fr held_def h v e) (simp add: lock_value_def exists_lock_def)
  show "Lock_Release LR_Clear m \<in> set (frames ?k (cur k)) \<Longrightarrow> lock_holder ?k m = Some (cur k)" for m
    using mutexD(4)[OF inv, of m "cur k"] by (simp add: fr h)
  show "t \<noteq> cur k \<Longrightarrow> frames ?k t = frames k t \<or> inert (frames k t) \<and> inert (frames ?k t)" for t
    by (simp add: fr)
  show "lock_holder ?k m = Some t" if "lock_holder k m = Some t" for t m
    using that by (simp add: h)
qed

lemma timer_irq_mutex:
  assumes inv: "mutex_inv k" and x: "timer_irq E k = Inr k'"
  shows "mutex_inv k'" and "locks k' = locks k"
proof -
  obtain k1 where k1: "timer_interrupt E (k\<lparr>intr_on := False, intr_context := True, yield_on_return := False\<rparr>) = Inr k1"
    and k': "k' = (if yield_on_return k1 then push [Thread_Yield, Intr_Set_Level True] (k1\<lparr>intr_context := False\<rparr>)
        else k1\<lparr>intr_context := False, intr_on := True\<rparr>)"
    using x by (auto simp: timer_irq_def res_simps Let_def)
  define us where "us = (if yield_on_return k1 then [Thread_Yield, Intr_Set_Level True] else [])"
  have s: "locks k1 = locks k" "sems k1 = sems k" "frames k1 = frames k" "cur k1 = cur k"
    using interrupt_still[OF k1] by (simp_all add: still_def)
  then have f: "frames k' = (frames k)(cur k := us @ frames k (cur k))" and l: "locks k' = locks k"
    and v: "lock_value k' = lock_value k"
    by (simp_all add: k' us_def frames_push frame_simps lock_value_def fun_eq_iff)
  show "locks k' = locks k" by (rule l)
  have "list_all light us" "list_all yieldish us" by (simp_all add: us_def light_def frame_class)
  then have "stack_ok (us @ frames k (cur k)) \<and> load l us = 0 \<and> \<not> list_ex releasing us" for l
    using light_stack mutexD(2)[OF inv] by blast
  then show "mutex_inv k'" using calls_mutex[OF inv, of "[]" "frames k (cur k)" k' us] f l v by auto
qed

lemma kernel_step_mutex:
  assumes "kernel_step k k'" and wf: "wf_kernel k" and inv: "mutex_inv k"
  shows "mutex_inv k'"
  using assms(1)
proof (cases rule: kernel_step.cases)
  case (run E)
  then show ?thesis using exec_frame_mutex[OF inv wf, of _ _ E k'] inv
    by (auto simp: run_thread_def split: list.splits)
next
  case (call fs f)
  then show ?thesis using client_call_mutex[OF inv] by simp
next
  case (new_sema fs n v)
  then show ?thesis
    by (auto intro!: mutex_cong[OF inv] simp: semaphore_init_def frame_simps lock_value_def fun_eq_iff sems_put_sema)
next
  case (new_lock fs l)
  then show ?thesis using new_lock_mutex[OF inv] by simp
next
  case (new_condvar fs c)
  then show ?thesis
    by (auto intro!: mutex_cong[OF inv] simp: condvar_init_def frame_simps lock_value_def fun_eq_iff)
next
  case (tick E)
  then show ?thesis using timer_irq_mutex[OF inv] by blast
qed

lemma boot_mutex: "boot p = Inr k \<Longrightarrow> mutex_inv k"
proof -
  assume b: "boot p = Inr k"
  note k = boot_state[OF b]
  have "busy k = {p}" by (auto simp: busy_def k)
  then show ?thesis unfolding mutex_inv_def tokens_def
    by (auto simp: k frame_class held_def lock_holder_def lock_value_def exists_lock_def split: if_splits)
qed

lemma kernel_steps_mutex: "kernel_steps k k' \<Longrightarrow> wf_kernel k \<Longrightarrow> mutex_inv k \<Longrightarrow> mutex_inv k'"
proof (induction rule: kernel_steps.induct)
  case (step k k' k'')
  then show ?case using kernel_step_mutex kernel_steps_wf by blast
qed simp

lemma reachable_mutex: "reachable k \<Longrightarrow> mutex_inv k"
  unfolding reachable_def using boot_mutex boot_wf kernel_steps_mutex by blast

section \<open>Who can change a holder\<close>

lemma exec_frame_locks:
  assumes x: "exec_frame E f k = Inr k'" and "\<And>l. f \<noteq> Lock_Acquire LA_Own l" and "\<And>l. f \<noteq> Lock_Release LR_Clear l"
  shows "locks k' = locks k"
proof (cases f)
  case (Kernel_Thread func) then show ?thesis using x by (auto simp: kernel_thread_def frame_simps)
next
  case (Idle_At p) then show ?thesis using x
    by (cases p) (auto simp: res_simps frame_simps dest!: block_still)
next
  case Thread_Yield then show ?thesis using x yield_acts[of E k k'] by (simp add: acts_def)
next
  case Thread_Exit then show ?thesis using x exit_still[of k k'] by simp
next
  case (Set_Priority p) then show ?thesis using x set_priority_acts[of p k k'] by (auto simp: lightly_def acts_locks_def quietly_def acts_def)
next
  case (Thread_Create p)
  then show ?thesis using x
    by (cases p) (auto simp: res_simps frame_simps init_thread_def allocate_tid_def alloc_frame_def
        dest!: unblock_still split: option.splits if_splits, auto simp: still_def frame_simps)
next
  case (Thread_Start p) then show ?thesis using x start_acts[of p k k'] by (auto simp: lightly_def acts_locks_def quietly_def acts_def)
next
  case (Sema_Down p s)
  then show ?thesis using x
    by (cases p) (auto simp: res_simps frame_simps Let_def dest!: block_still donate_still split: if_splits,
        auto simp: still_def frame_simps)
next
  case (Sema_Up p s)
  show ?thesis
  proof (cases "p = SU_Enter")
    case True
    then have "semaphore_up E SU_Enter s k = Inr k'" using x Sema_Up by simp
    then show ?thesis
      by (rule up_enter_cases) (auto simp: still_def frame_simps)
  next
    case False
    then show ?thesis using x Sema_Up semaphore_up_acts[of E p s k k'] by (auto simp: lightly_def acts_locks_def quietly_def acts_def)
  qed
next
  case (Lock_Acquire p l) then show ?thesis using x assms(2) lock_acquire_acts[of E p l k k'] by (auto simp: acts_def)
next
  case (Lock_Release p l)
  then show ?thesis using x assms(3)
    by (cases p) (auto simp: res_simps frame_simps dest!: return_priority_still split: if_splits,
        auto simp: still_def)
next
  case (Cond_Wait p c l) then show ?thesis using x wait_acts[of E p c l k k'] by (auto simp: lightly_def acts_locks_def quietly_def acts_def)
next
  case (Cond_Signal c l) then show ?thesis using x cond_acts(1)[of E c l k k'] by (auto simp: lightly_def acts_locks_def quietly_def acts_def)
next
  case (Cond_Broadcast c l) then show ?thesis using x cond_acts(2)[of c l k k'] by (auto simp: lightly_def acts_locks_def quietly_def acts_def)
next
  case (Timer_Sleep p n) then show ?thesis using x sleep_acts[of E p n k k'] by (auto simp: lightly_def acts_locks_def quietly_def acts_def)
qed (use x in auto)


lemma step_holder:
  assumes step: "kernel_step k k'" and inv: "mutex_inv k"
    and h: "lock_holder k l = Some h" and h': "lock_holder k' l \<noteq> Some h"
  shows "cur k = h \<and> lock_holder k' l = None \<and> (\<exists>fs. frames k h = Lock_Release LR_Clear l # fs)"
proof -
  have ne: "locks k' \<noteq> locks k" using h h' by (auto simp: lock_holder_def)
  show ?thesis
    using step
  proof (cases rule: kernel_step.cases)
    case (run E)
    then obtain f fs where f: "frames k (cur k) = f # fs" and x: "exec_frame E f (pop k) = Inr k'"
      using ne by (auto simp: run_thread_def split: list.splits)
    have "locks k' = locks k" if "\<And>l. f \<noteq> Lock_Acquire LA_Own l" "\<And>l. f \<noteq> Lock_Release LR_Clear l"
      using exec_frame_locks[OF x that] by (simp add: frame_simps)
    with ne consider m where "f = Lock_Acquire LA_Own m" | m where "f = Lock_Release LR_Clear m" by blast
    then show ?thesis
    proof cases
      case 1
      then have "lock_holder k m = None" using own_free[OF inv] f by simp
      moreover obtain lk where "k' = put_lock m (lk\<lparr>holder := Some (cur k)\<rparr>) (pop k)"
        using x 1 by (auto simp: res_simps frame_simps)
      ultimately show ?thesis using h h'
        by (auto simp: lock_holder_def locks_put_lock frame_simps split: if_splits)
    next
      case 2
      obtain lk where k': "k' = push [Sema_Up SU_Enter (Lock_Sema m)] (put_lock m (lk\<lparr>holder := None\<rparr>) (pop k))"
        using x 2 by (auto simp: res_simps frame_simps)
      have hm: "lock_holder k m = Some (cur k)" using mutexD(4)[OF inv, of m "cur k"] f 2 by simp
      have hk: "lock_holder k' = (lock_holder k)(m := None)"
        by (auto simp: k' lock_holder_def fun_eq_iff locks_put_lock frame_simps)
      then have "m = l" using h h' by (auto split: if_splits)
      then show ?thesis using hm h hk f 2 by simp
    qed
  next
    case (new_lock fs m)
    then have "lock_holder k' = lock_holder k"
      by (auto simp: lock_init_def semaphore_init_def lock_holder_def fun_eq_iff frame_simps locks_put_lock)
    then show ?thesis using h h' by simp
  next
    case (tick E)
    then show ?thesis using timer_irq_mutex(2)[OF inv] ne by blast
  qed (use ne in \<open>simp_all add: frame_simps semaphore_init_def condvar_init_def\<close>)
qed


section \<open>The first steps after boot\<close>

lemma reachable_run:
  "reachable k \<Longrightarrow> frames k (cur k) = f # fs \<Longrightarrow> exec_frame demo_env f (pop k) = Inr k' \<Longrightarrow> reachable k'"
proof -
  assume r: "reachable k" and f: "frames k (cur k) = f # fs" and x: "exec_frame demo_env f (pop k) = Inr k'"
  have "kernel_step k k'"
    by (rule kernel_step.run[of demo_env]) (use f x in \<open>simp_all add: palloc_ok_def demo_env_def run_thread_def\<close>)
  with r show "reachable k'" unfolding reachable_def by (blast intro: kernel_steps.step)
qed

text \<open>\<open>main\<close> on page 4096 takes \<open>tid_lock\<close> for its first identifier, and is about to let it go.\<close>

definition boot_view :: "kernel \<Rightarrow> frame list \<Rightarrow> 32 word \<Rightarrow> tptr option \<Rightarrow> bool" where
  "boot_view k fs v h \<longleftrightarrow>
     threads k = [4096 \<mapsto> main_thread 4096] \<and> cur k = 4096 \<and>
     frames k 4096 = fs \<and> sems k (Lock_Sema tid_lock) = Some \<lparr>sema_value = v, waiters = []\<rparr> \<and>
     lock_holder k tid_lock = h \<and> locks k tid_lock \<noteq> None \<and>
     \<not> intr_on k \<and> \<not> intr_context k \<and> in_int64 (ticks k) \<and> next_tid k = 1"

lemma main_current:
  "threads k = [4096 \<mapsto> main_thread 4096] \<Longrightarrow> cur k = 4096 \<Longrightarrow> thread_current k = Inr (main_thread 4096)"
  by (simp add: thread_current_Inr_iff main_thread_def)

lemma boot_acquires:
  "\<exists>k. reachable k \<and> boot_view k [Lock_Acquire LA_Own tid_lock, Thread_Create (TC_Tid 4096),
       Thread_Start TS_Enter, Client_Body] 0 None"
proof -
  let ?rest = "[Lock_Acquire LA_Own tid_lock, Thread_Create (TC_Tid 4096), Thread_Start TS_Enter, Client_Body]"
  let ?sem = "Lock_Sema tid_lock"
  obtain k0 where b: "boot 4096 = Inr k0" using boot_total by blast
  have r0: "reachable k0" unfolding reachable_def using b kernel_steps.refl by blast
  have t0: "ticks k0 = 0" "next_tid k0 = 1"
    using b by (auto simp: boot_def thread_init_def timer_init_def init_thread_def res_simps Let_def power_on_def
        frame_simps lock_init_def semaphore_init_def)
  note s0 = boot_state[OF b]
  define k1 where "k1 = push (Sema_Down SD_Enter ?sem # [Lock_Acquire LA_Own tid_lock]) (pop k0)"
  have r1: "reachable k1"
    by (rule reachable_run[OF r0])
      (simp add: s0, simp add: s0 k1_def lock_held_by_current_thread_def get_lock_def frame_simps main_current)
  define k2 where "k2 = push [Sema_Down (SD_Loop False) ?sem] ((pop k1)\<lparr>intr_on := False\<rparr>)"
  have f1: "frames k1 4096 = Sema_Down SD_Enter ?sem # ?rest" "cur k1 = 4096"
    by (simp_all add: k1_def frames_push frames_pop frame_simps s0)
  have r2: "reachable k2"
    by (rule reachable_run[OF r1]) (simp_all add: f1 k2_def frame_simps, simp_all add: k1_def frame_simps s0)
  define k3 where "k3 = (put_sema ?sem \<lparr>sema_value = 0, waiters = []\<rparr> (pop k2))\<lparr>intr_on := False\<rparr>"
  have f2: "frames k2 4096 = Sema_Down (SD_Loop False) ?sem # ?rest" "cur k2 = 4096"
    by (simp_all add: k2_def frames_push frames_pop frame_simps f1)
  have sem2: "sems k2 ?sem = Some \<lparr>sema_value = 1, waiters = []\<rparr>"
    by (simp add: k2_def k1_def frame_simps s0)
  have r3: "reachable k3"
    by (rule reachable_run[OF r2]) (simp add: f2, simp add: f2 k3_def frame_simps get_sema_def sem2)
  have "boot_view k3 ?rest 0 None"
    by (simp add: boot_view_def k3_def frame_simps sems_put_sema frames_pop f2 lock_holder_def)
      (simp add: k2_def k1_def frame_simps s0 t0 in_int64_def)
  with r3 show ?thesis by blast
qed

lemma boot_releases:
  "\<exists>k k'. reachable k \<and> kernel_step k k' \<and> cur k = 4096 \<and> lock_holder k tid_lock = Some 4096 \<and>
     lock_holder k' tid_lock = None"
proof -
  obtain k3 where r3: "reachable k3" and v3: "boot_view k3 [Lock_Acquire LA_Own tid_lock, Thread_Create (TC_Tid 4096),
       Thread_Start TS_Enter, Client_Body] 0 None"
    using boot_acquires by blast
  then obtain lk where lk: "locks k3 tid_lock = Some lk" by (auto simp: boot_view_def)
  define k4 where "k4 = put_lock tid_lock (lk\<lparr>holder := Some 4096\<rparr>) (pop k3)"
  have r4: "reachable k4"
    by (rule reachable_run[OF r3])
      (use v3 in \<open>simp add: boot_view_def\<close>,
       use v3 in \<open>simp add: boot_view_def k4_def get_lock_def frame_simps lk main_current\<close>)
  have v4: "boot_view k4 [Thread_Create (TC_Tid 4096), Thread_Start TS_Enter, Client_Body] 0 (Some 4096)"
    using v3 by (simp add: boot_view_def k4_def frame_simps frames_pop lock_holder_def locks_put_lock)
  define k5 where "k5 = push [Lock_Release LR_Enter tid_lock, Thread_Create (TC_Store 4096 1)] ((pop k4)\<lparr>next_tid := 2\<rparr>)"
  have r5: "reachable k5"
    by (rule reachable_run[OF r4])
      (use v4 in \<open>simp add: boot_view_def\<close>,
       use v4 in \<open>simp add: boot_view_def k5_def frame_simps allocate_tid_def add_int32_def\<close>)
  have v5: "frames k5 4096 = Lock_Release LR_Enter tid_lock # Thread_Create (TC_Store 4096 1) #
      [Thread_Start TS_Enter, Client_Body]" "cur k5 = 4096" "threads k5 = [4096 \<mapsto> main_thread 4096]"
      "lock_holder k5 tid_lock = Some 4096" "locks k5 tid_lock \<noteq> None"
    using v4 by (simp_all add: boot_view_def k5_def frames_push frame_simps frames_pop lock_holder_def)
  have held: "lock_held_by_current_thread tid_lock (pop k5) = Inr True"
    using v5 by (auto simp: lock_held_by_current_thread_def get_lock_def frame_simps main_current lock_holder_def)
  define k6 where "k6 = push [Lock_Release LR_Clear tid_lock] (pop k5)"
  have r6: "reachable k6"
    by (rule reachable_run[OF r5])
      (use v5 in simp, use v5 held in \<open>simp add: k6_def frame_simps main_current main_thread_def\<close>)
  have f6: "frames k6 (cur k6) = Lock_Release LR_Clear tid_lock # Thread_Create (TC_Store 4096 1) #
      [Thread_Start TS_Enter, Client_Body]" "cur k6 = 4096"
    using v5 by (simp_all add: k6_def frames_push frames_pop frame_simps)
  have h6: "lock_holder k6 tid_lock = Some 4096" "locks k6 = locks k5"
    using v5 by (simp_all add: k6_def lock_holder_def frame_simps)
  obtain lk' where lk': "locks k6 tid_lock = Some lk'" using v5(5) h6(2) by auto
  define k7 where "k7 = push [Sema_Up SU_Enter (Lock_Sema tid_lock)] (put_lock tid_lock (lk'\<lparr>holder := None\<rparr>) (pop k6))"
  have "kernel_step k6 k7"
    by (rule kernel_step.run[of demo_env])
      (simp add: palloc_ok_def demo_env_def, use f6 in \<open>simp add: run_thread_def k7_def get_lock_def frame_simps lk'\<close>)
  moreover have "lock_holder k7 tid_lock = None"
    by (simp add: k7_def lock_holder_def frame_simps locks_put_lock)
  ultimately show ?thesis using r6 f6(2) h6(1) by blast
qed

section \<open>Mutual exclusion\<close>

text \<open>C1: In every run a lock that is held stays with its holder until the holder itself executes the
  second half of \<open>lock_release\<close> on it; no other thread, client call or interrupt takes it away.\<close>

theorem lock_keeps_its_holder:
  assumes "reachable k" and "kernel_step k k'"
    and "lock_holder k l = Some h" and "lock_holder k' l \<noteq> Some h"
  shows "cur k = h \<and> lock_holder k' l = None \<and> (\<exists>fs. frames k h = Lock_Release LR_Clear l # fs)"
  using step_holder[OF assms(2) reachable_mutex[OF assms(1)] assms(3,4)] .

theorem lock_keeps_its_holder_witness:
  "\<exists>k k'. reachable k \<and> kernel_step k k' \<and> lock_holder k tid_lock = Some 4096 \<and>
     (\<exists>fs. frames k 4096 = Lock_Release LR_Clear tid_lock # fs)"
proof -
  obtain k k' where "reachable k" "kernel_step k k'" "lock_holder k tid_lock = Some 4096"
    "lock_holder k' tid_lock = None" using boot_releases by blast
  moreover from this have "lock_holder k' tid_lock \<noteq> Some 4096" by simp
  ultimately show ?thesis using lock_keeps_its_holder by blast
qed

text \<open>C2: Mutual exclusion: in every run, when \<open>lock_acquire\<close> is about to write the holder of a
  lock, the lock has no holder and its semaphore is down.\<close>

theorem lock_acquired_when_free:
  assumes "reachable k" and "frames k (cur k) = Lock_Acquire LA_Own l # fs"
  shows "lock_holder k l = None \<and> lock_value k l = 0"
  using own_free[OF reachable_mutex[OF assms(1)] assms(2)] by simp

theorem lock_acquired_when_free_witness:
  "\<exists>k fs. reachable k \<and> frames k (cur k) = Lock_Acquire LA_Own tid_lock # fs \<and>
     lock_holder k tid_lock = None \<and> lock_value k tid_lock = 0"
proof -
  obtain k where r: "reachable k" and v: "boot_view k [Lock_Acquire LA_Own tid_lock, Thread_Create (TC_Tid 4096),
       Thread_Start TS_Enter, Client_Body] 0 None"
    using boot_acquires by blast
  then have f: "frames k (cur k) = Lock_Acquire LA_Own tid_lock # [Thread_Create (TC_Tid 4096),
       Thread_Start TS_Enter, Client_Body]" by (simp add: boot_view_def)
  show ?thesis using r f lock_acquired_when_free[OF r f] by blast
qed

text \<open>C3: The right to a lock is one token: in every run, for every initialised lock, the value of
  its semaphore, the holder, the threads about to become the holder and the releases on their
  way to the semaphore add up to one.\<close>

theorem lock_token_unique:
  assumes "reachable k" and "locks k l \<noteq> None"
  shows "finite (busy k) \<and>
     (\<Sum>t \<in> busy k. load l (frames k t)) + held k l + lock_value k l = 1 \<and>
     (\<forall>t. 0 \<le> load l (frames k t))"
  using mutexD[OF reachable_mutex[OF assms(1)]] stack_ok_load assms(2)
  by (auto simp: tokens_def exists_lock_def)

theorem lock_token_unique_witness:
  "\<exists>k. reachable k \<and> (\<Sum>t \<in> busy k. load tid_lock (frames k t)) + held k tid_lock + lock_value k tid_lock = 1"
proof -
  obtain k0 where b: "boot 4096 = Inr k0" using boot_total by blast
  then have "reachable k0" unfolding reachable_def using kernel_steps.refl by blast
  moreover have "locks k0 tid_lock \<noteq> None" by (simp add: boot_state[OF b])
  ultimately show ?thesis using lock_token_unique by blast
qed

end
