(* ===== verification/Signals.thy ===== *)
theory Signals
  imports Mutex_Props
begin

text \<open>
  Signals of condition variables are neither lost nor invented. A thread inside \<open>condvar_wait\<close> is on a
  list, or a thread that took it off is about to raise its semaphore, or the semaphore has been
  raised: exactly one of these, once. Every step of the machine conserves it.
\<close>

section \<open>Waits on a stack\<close>

definition ups :: "tptr \<Rightarrow> frame list \<Rightarrow> nat" where
  "ups t fs = length (filter (\<lambda>f. f = Sema_Up SU_Enter (Waiter t)) fs)"

definition downs :: "tptr \<Rightarrow> frame list \<Rightarrow> nat" where
  "downs t fs = length (filter (\<lambda>f. \<exists>p. f = Sema_Down p (Waiter t)) fs)"

definition sway :: "tptr \<Rightarrow> frame list \<Rightarrow> int" where
  "sway t fs = sum_list (map (swing t) fs)"

lemma sway_simps [simp]:
  "sway t [] = 0" "sway t (f # fs) = swing t f + sway t fs" "sway t (us @ fs) = sway t us + sway t fs"
  by (simp_all add: sway_def)

lemma sway_diff: "sway t fs = int (ups t fs) - int (downs t fs)"
  by (induction fs) (auto simp: sway_def ups_def downs_def swing_def split: frame.splits up_point.splits)

lemma mild_sway: "list_all mild us \<Longrightarrow> sway t us = 0"
  by (induction us) (auto simp: mild_def)

lemma base_mild: "base_frame f \<Longrightarrow> mild f"
  by (auto simp: frame_class split: frame.splits)

lemma base_sway: "list_all base_frame fs \<Longrightarrow> sway t fs = 0"
  by (rule mild_sway) (auto simp: list_all_iff base_mild)

text \<open>A call of \<open>condvar_wait\<close> is made from the body of a thread, and the wait on the semaphore is
  directly above it.\<close>

fun wait_ok :: "frame list \<Rightarrow> bool" where
  "wait_ok [] = True"
| "wait_ok (f # fs) =
     (wait_ok fs \<and>
      (case f of
         Cond_Wait p c l \<Rightarrow> list_all base_frame fs
       | Sema_Down p (Waiter t) \<Rightarrow>
           (\<exists>c l gs. fs = Lock_Acquire LA_Enter l # Cond_Wait CW_Return c l # gs)
       | _ \<Rightarrow> True))"

lemma mild_cases: "mild f \<Longrightarrow> \<not> waiting f \<and> (\<forall>p t. f \<noteq> Sema_Down p (Waiter t))"
proof (intro conjI allI notI)
  fix p t assume "mild f" and f: "f = Sema_Down p (Waiter t)"
  then have "swing t f = 0" by (simp add: mild_def)
  then show False by (simp add: f swing_def)
qed (simp add: mild_def)

lemma wait_ok_mild: "list_all mild us \<Longrightarrow> wait_ok (us @ fs) = wait_ok fs"
proof (induction us)
  case (Cons f us)
  then have "mild f" by simp
  from mild_cases[OF this] Cons show ?case
    by (cases f) (auto simp: waiting_def split: semref.splits)
qed simp

lemma wait_ok_base: "list_all base_frame fs \<Longrightarrow> wait_ok fs"
  using wait_ok_mild[of fs "[]"] base_mild by (auto simp: list_all_iff)

lemma wait_ok_downs: "wait_ok fs \<Longrightarrow> downs t fs \<le> 1"
proof (induction fs)
  case (Cons f fs)
  show ?case
  proof (cases "\<exists>p. f = Sema_Down p (Waiter t)")
    case True
    then obtain c l gs where fs: "fs = Lock_Acquire LA_Enter l # Cond_Wait CW_Return c l # gs" "list_all base_frame gs"
      using Cons.prems by auto
    then have "filter (\<lambda>f. \<exists>p. f = Sema_Down p (Waiter t)) gs = []"
      by (auto simp: filter_empty_conv list_all_iff base_frame_def)
    then show ?thesis using fs by (simp add: downs_def)
  qed (use Cons in \<open>simp add: downs_def\<close>)
qed (simp add: downs_def)

section \<open>The invariant\<close>

definition on_lists :: "kernel \<Rightarrow> tptr \<Rightarrow> nat" where
  "on_lists k t = (\<Sum>c \<in> dom (condvars k). count_list (cond_waiters (the (condvars k c))) t)"

definition cond_inv :: "kernel \<Rightarrow> bool" where
  "cond_inv k \<longleftrightarrow>
     finite (busy k) \<and> finite (dom (condvars k)) \<and> (\<forall>t. wait_ok (frames k t)) \<and>
     (\<forall>t. (\<Sum>u \<in> busy k. sway t (frames k u)) + waiter_value k t + int (on_lists k t) = 0)"

lemma condD:
  assumes "cond_inv k"
  shows "finite (busy k)" "finite (dom (condvars k))" "wait_ok (frames k t)"
    "(\<Sum>u \<in> busy k. sway t (frames k u)) + waiter_value k t + int (on_lists k t) = 0"
  using assms by (simp_all add: cond_inv_def)

lemma sway_superset:
  assumes "finite A" and "busy k \<subseteq> A"
  shows "(\<Sum>u \<in> busy k. sway t (frames k u)) = (\<Sum>u \<in> A. sway t (frames k u))"
  by (rule sum.mono_neutral_left[OF assms]) (auto simp: busy_def)

lemma cond_stepI:
  assumes inv: "cond_inv k" and fin: "finite (busy k')" "finite (dom (condvars k'))"
    and others: "\<And>t. t \<noteq> c \<Longrightarrow>
      frames k' t = frames k t \<or> list_all base_frame (frames k t) \<and> list_all base_frame (frames k' t)"
    and stack: "wait_ok (frames k' c)"
    and balance: "\<And>t. sway t (frames k' c) + waiter_value k' t + int (on_lists k' t) =
       sway t (frames k c) + waiter_value k t + int (on_lists k t)"
  shows "cond_inv k'"
  unfolding cond_inv_def
proof (intro conjI allI)
  let ?A = "insert c (busy k \<union> busy k')"
  have A: "finite ?A" "busy k \<subseteq> ?A" "busy k' \<subseteq> ?A" using condD(1)[OF inv] fin by auto
  show "wait_ok (frames k' t)" for t
    using others[of t] stack condD(3)[OF inv, of t] wait_ok_base by (cases "t = c") auto
  have same: "u \<noteq> c \<Longrightarrow> sway t (frames k' u) = sway t (frames k u)" for u t
    using others[of u] base_sway by auto
  show "(\<Sum>u \<in> busy k'. sway t (frames k' u)) + waiter_value k' t + int (on_lists k' t) = 0" for t
  proof -
    have "(\<Sum>u \<in> ?A. sway t (frames k' u)) - sway t (frames k' c) =
        (\<Sum>u \<in> ?A. sway t (frames k u)) - sway t (frames k c)"
      using A(1) by (simp add: sum.insert_remove same)
    then show ?thesis
      using balance[of t] sway_superset[OF A(1,2), of t] sway_superset[OF A(1,3), of t] condD(4)[OF inv, of t]
      by linarith
  qed
qed (use fin in auto)

text \<open>The running thread leaves the frames \<open>pre\<close>, which do not matter, and makes calls that do not either.\<close>

lemma on_lists_cong: "condvars k' = condvars k \<Longrightarrow> on_lists k' = on_lists k"
  by (rule ext) (simp only: on_lists_def)

lemma calls_cond:
  assumes inv: "cond_inv k" and f: "frames k (cur k) = pre @ fs" and pre: "\<And>t. sway t pre = 0"
    and k': "frames k' = (frames k)(cur k := us @ fs)" "condvars k' = condvars k" "waiter_value k' = waiter_value k"
    and us: "list_all mild us" and fs: "wait_ok fs"
  shows "cond_inv k'"
proof (rule cond_stepI[OF inv])
  show "finite (busy k')" using busy_upd[OF k'(1)] condD(1)[OF inv] .
  show "wait_ok (frames k' (cur k))" using fs by (simp add: k' wait_ok_mild[OF us])
  show "sway t (frames k' (cur k)) + waiter_value k' t + int (on_lists k' t) =
       sway t (frames k (cur k)) + waiter_value k t + int (on_lists k t)" for t
    by (simp add: k' f pre mild_sway[OF us] on_lists_cong[OF k'(2)])
qed (use condD(2)[OF inv] in \<open>simp_all add: k'\<close>)

lemma acts_cond:
  assumes inv: "cond_inv k" and f: "frames k (cur k) = f # fs" and m: "mild f"
    and a: "acts us (pop k) k'" and us: "list_all mild us"
  shows "cond_inv k'"
proof (rule calls_cond[OF inv, of "[f]" fs])
  show "frames k' = (frames k)(cur k := us @ fs)" "condvars k' = condvars k" "waiter_value k' = waiter_value k"
    using a f by (simp_all add: acts_def frames_pop frame_simps waiter_value_def fun_eq_iff)
  show "wait_ok fs" using condD(3)[OF inv, of "cur k"] f by simp
qed (use m f us in \<open>simp_all add: mild_def\<close>)

lemma quietly_cond:
  assumes "cond_inv k" and "frames k (cur k) = f # fs" and "mild f" and "quietly (pop k) k'"
  shows "cond_inv k'"
  using assms acts_cond unfolding quietly_def by (fastforce simp: gentle_def list_all_iff)

section \<open>Who waits\<close>

lemma down_is_own:
  assumes "wf_kernel k" and "Sema_Down p (Waiter t) \<in> set (frames k u)"
  shows "t = u"
proof -
  have "list_all (frame_ok (initial_thread k) u) (frames k u)"
    using assms(1) core_frames unfolding wf_kernel_def frames_ok_def by blast
  with assms(2) show ?thesis by (auto simp: list_all_iff frame_ok_def)
qed

lemma downs_others: "wf_kernel k \<Longrightarrow> u \<noteq> t \<Longrightarrow> downs t (frames k u) = 0"
  using down_is_own by (fastforce simp: downs_def filter_empty_conv)

text \<open>The balance, with all its parts counted.\<close>

definition in_wait :: "kernel \<Rightarrow> tptr \<Rightarrow> bool" where
  "in_wait k t \<longleftrightarrow> (\<exists>p. Sema_Down p (Waiter t) \<in> set (frames k t))"

definition raising :: "kernel \<Rightarrow> tptr \<Rightarrow> nat" where
  "raising k t = (\<Sum>u \<in> busy k. ups t (frames k u))"

lemma in_wait_downs: "wait_ok (frames k t) \<Longrightarrow> downs t (frames k t) = (if in_wait k t then 1 else 0)"
  using wait_ok_downs[of "frames k t" t] by (auto simp: in_wait_def downs_def filter_empty_conv le_Suc_eq)

lemma signal_balance:
  assumes inv: "cond_inv k" and wf: "wf_kernel k"
  shows "int (raising k t) + waiter_value k t + int (on_lists k t) = (if in_wait k t then 1 else 0)"
proof -
  have "(\<Sum>u \<in> busy k. int (downs t (frames k u))) = int (downs t (frames k t))"
  proof (cases "t \<in> busy k")
    case True
    then show ?thesis
      using condD(1)[OF inv] downs_others[OF wf] by (simp add: sum.remove)
  next
    case False
    then have "frames k t = []" by (simp add: busy_def)
    have "downs t (frames k u) = 0" if "u \<in> busy k" for u
      using that False by (intro downs_others[OF wf]) auto
    with \<open>frames k t = []\<close> show ?thesis by (simp add: downs_def)
  qed
  then have "(\<Sum>u \<in> busy k. sway t (frames k u)) = int (raising k t) - int (downs t (frames k t))"
    by (simp add: sway_diff sum_subtractf raising_def)
  then show ?thesis using condD(4)[OF inv, of t] in_wait_downs[OF condD(3)[OF inv], of t] by (auto split: if_splits)
qed

lemma uint_pred: "v \<noteq> 0 \<Longrightarrow> uint (v - 1) = uint v - 1" for v :: "'a::len word"
proof -
  assume "v \<noteq> 0"
  then have "1 \<le> uint v" using uint_0_iff[of v] uint_ge_0[of v] by linarith
  then show ?thesis using uint_sub_lem[of 1 v] by simp
qed

section \<open>Steps that count\<close>

text \<open>A thread that does not wait is on no list, and its semaphore is not raised.\<close>

lemma not_waiting:
  assumes inv: "cond_inv k" and wf: "wf_kernel k" and "\<not> in_wait k t"
  shows "waiter_value k t = 0" and "on_lists k t = 0"
proof -
  have "0 \<le> waiter_value k t" by (simp add: waiter_value_def split: option.splits)
  then show "waiter_value k t = 0" and "on_lists k t = 0"
    using signal_balance[OF inv wf, of t] assms(3) by simp_all
qed

text \<open>Below a call of \<open>condvar_wait\<close> there is only the body of the thread.\<close>

lemma wait_on_top:
  assumes inv: "cond_inv k" and wf: "wf_kernel k" and f: "frames k (cur k) = Cond_Wait p c l # fs"
  shows "list_all base_frame fs" and "\<not> in_wait k (cur k)"
proof -
  show b: "list_all base_frame fs" using condD(3)[OF inv, of "cur k"] f by simp
  show "\<not> in_wait k (cur k)" using b by (auto simp: in_wait_def f list_all_iff base_frame_def)
qed

lemma on_lists_put:
  assumes fin: "finite (dom (condvars k))" and c: "condvars k c = Some cv"
  shows "on_lists (put_condvar c cv' k) t + count_list (cond_waiters cv) t =
     on_lists k t + count_list (cond_waiters cv') t"
proof -
  have d: "dom (condvars (put_condvar c cv' k)) = dom (condvars k)" using c by (auto simp: condvars_put_condvar)
  have "c \<in> dom (condvars k)" using c by blast
  then show ?thesis unfolding on_lists_def d
    by (simp add: sum.remove[OF fin] condvars_put_condvar c)
qed

lemma count_list_mset: "mset xs = mset ys \<Longrightarrow> count_list xs = count_list ys"
  by (simp add: fun_eq_iff flip: count_mset)

lemma wait_enter_cond:
  assumes inv: "cond_inv k" and wf: "wf_kernel k" and f: "frames k (cur k) = Cond_Wait CW_Enter c l # fs"
    and x: "condvar_wait E CW_Enter c l (pop k) = Inr k'"
  shows "cond_inv k'"
proof -
  let ?t = "cur k"
  let ?us = "[Lock_Release LR_Enter l, Sema_Down SD_Enter (Waiter ?t), Lock_Acquire LA_Enter l, Cond_Wait CW_Return c l]"
  let ?k = "semaphore_init (Waiter ?t) 0 (pop k)"
  obtain cv where cv: "condvars k c = Some cv"
    using x by (auto simp: res_simps Let_def frame_simps semaphore_init_def)
  define xs where "xs = list_insert_ordered (lib E) (condvar_priority_sort ?k) ?t (cond_waiters cv)"
  have xs: "mset xs = add_mset ?t (mset (cond_waiters cv))" by (simp add: xs_def)
  have k': "k' = push ?us (put_condvar c (cv\<lparr>cond_waiters := xs\<rparr>) ?k)"
    using x cv by (auto simp: res_simps Let_def frame_simps semaphore_init_def xs_def)
  note top = wait_on_top[OF inv wf f] and nw = not_waiting[OF inv wf top(2)]
  have fr: "frames k' = (frames k)(?t := ?us @ fs)"
    by (simp add: k' frames_push frame_simps semaphore_init_def frames_pop f)
  have v: "waiter_value k' = waiter_value k"
    using nw by (auto simp: fun_eq_iff k' frame_simps semaphore_init_def waiter_value_def sems_put_sema)
  have "on_lists k' = on_lists (put_condvar c (cv\<lparr>cond_waiters := xs\<rparr>) k)"
    by (rule on_lists_cong) (simp add: k' frame_simps semaphore_init_def condvars_put_condvar)
  then have o: "on_lists k' t = on_lists k t + (if t = ?t then 1 else 0)" for t
    using on_lists_put[OF condD(2)[OF inv] cv, of "cv\<lparr>cond_waiters := xs\<rparr>" t] xs
    by (auto simp flip: count_mset split: if_splits)
  show ?thesis
  proof (rule cond_stepI[OF inv])
    show "finite (busy k')" using busy_upd[OF fr] condD(1)[OF inv] .
    show "finite (dom (condvars k'))"
      using condD(2)[OF inv] by (simp add: k' frame_simps condvars_put_condvar semaphore_init_def)
    show "wait_ok (frames k' ?t)"
      using top(1) wait_ok_base[OF top(1)] by (simp add: fr)
    show "sway t (frames k' ?t) + waiter_value k' t + int (on_lists k' t) =
        sway t (frames k ?t) + waiter_value k t + int (on_lists k t)" for t
      by (simp add: fr f v o swing_def)
  qed (simp add: fr)
qed

lemma wait_return_cond:
  assumes inv: "cond_inv k" and wf: "wf_kernel k" and f: "frames k (cur k) = Cond_Wait CW_Return c l # fs"
    and x: "condvar_wait E CW_Return c l (pop k) = Inr k'"
  shows "cond_inv k'"
proof -
  note top = wait_on_top[OF inv wf f] and nw = not_waiting[OF inv wf top(2)]
  have k': "k' = (pop k)\<lparr>sems := (sems k)(Waiter (cur k) := None)\<rparr>" using x by (simp add: frame_simps)
  show ?thesis
    by (rule calls_cond[OF inv, of "[Cond_Wait CW_Return c l]" fs k' "[]"])
      (use f nw wait_ok_base[OF top(1)] in \<open>auto simp: k' frames_pop swing_def frame_simps waiter_value_def fun_eq_iff\<close>)
qed

lemma signal_cond:
  assumes inv: "cond_inv k" and f: "frames k (cur k) = Cond_Signal c l # fs"
    and x: "condvar_signal E c l (pop k) = Inr k'"
  shows "cond_inv k'"
proof -
  have fs: "wait_ok fs" using condD(3)[OF inv, of "cur k"] f by simp
  obtain cv where cv: "condvars k c = Some cv" using x by (auto simp: condvar_signal_def res_simps frame_simps)
  show ?thesis
  proof (cases "cond_waiters cv")
    case Nil
    then have "k' = pop k" using x cv by (auto simp: condvar_signal_def res_simps frame_simps)
    then show ?thesis
      by (intro calls_cond[OF inv, of "[Cond_Signal c l]" fs k' "[]"])
        (use f fs in \<open>auto simp: frames_pop swing_def frame_simps waiter_value_def fun_eq_iff\<close>)
  next
    case Cons
    then obtain w ws where ws: "list_sort (lib E) (condvar_priority_sort (pop k)) (cond_waiters cv) = w # ws"
      and k': "k' = push [Sema_Up SU_Enter (Waiter w)] (put_condvar c (cv\<lparr>cond_waiters := ws\<rparr>) (pop k))"
      using x cv by (auto simp: condvar_signal_def res_simps frame_simps split: list.splits)
    have m: "mset (cond_waiters cv) = add_mset w (mset ws)"
      using cond_order.mset_sort[of "lib E" "pop k" "cond_waiters cv"] by (simp add: ws)
    have fr: "frames k' = (frames k)(cur k := Sema_Up SU_Enter (Waiter w) # fs)"
      by (simp add: k' frames_push frame_simps frames_pop f)
    have v: "waiter_value k' = waiter_value k" by (simp add: k' waiter_value_def frame_simps fun_eq_iff)
    have "on_lists k' = on_lists (put_condvar c (cv\<lparr>cond_waiters := ws\<rparr>) k)"
      by (rule on_lists_cong) (simp add: k' frame_simps condvars_put_condvar)
    then have o: "on_lists k' t + (if t = w then 1 else 0) = on_lists k t" for t
      using on_lists_put[OF condD(2)[OF inv] cv, of "cv\<lparr>cond_waiters := ws\<rparr>" t] m
      by (simp flip: count_mset split: if_splits)
    show ?thesis
    proof (rule cond_stepI[OF inv])
      show "finite (busy k')" using busy_upd[OF fr] condD(1)[OF inv] .
      show "finite (dom (condvars k'))"
        using condD(2)[OF inv] by (simp add: k' frame_simps condvars_put_condvar)
      show "wait_ok (frames k' (cur k))" using fs by (simp add: fr)
      show "sway t (frames k' (cur k)) + waiter_value k' t + int (on_lists k' t) =
          sway t (frames k (cur k)) + waiter_value k t + int (on_lists k t)" for t
        using o[of t] by (simp add: fr f v swing_def split: if_splits)
    qed (simp add: fr)
  qed
qed

lemma sema_cond:
  assumes inv: "cond_inv k" and f: "frames k (cur k) = f # fs"
    and fr: "frames k' = (frames k)(cur k := us @ fs)" and c: "condvars k' = condvars k"
    and ok: "wait_ok (us @ fs)"
    and bal: "\<And>t. sway t us + waiter_value k' t = swing t f + waiter_value k t"
  shows "cond_inv k'"
proof (rule cond_stepI[OF inv])
  show "finite (busy k')" using busy_upd[OF fr] condD(1)[OF inv] .
  show "wait_ok (frames k' (cur k))" using ok by (simp add: fr)
  show "sway t (frames k' (cur k)) + waiter_value k' t + int (on_lists k' t) =
      sway t (frames k (cur k)) + waiter_value k t + int (on_lists k t)" for t
    using bal[of t] by (simp add: fr f on_lists_cong[OF c])
qed (use condD(2)[OF inv] in \<open>simp_all add: fr c\<close>)

lemma down_cond:
  assumes inv: "cond_inv k" and f: "frames k (cur k) = Sema_Down p s # fs"
    and x: "semaphore_down E p s (pop k) = Inr k'"
  shows "cond_inv k'"
proof (cases "\<exists>old sm. p = SD_Loop old \<and> sems k s = Some sm \<and> sema_value sm \<noteq> 0")
  case True
  then obtain old sm where p: "p = SD_Loop old" and sm: "sems k s = Some sm" "sema_value sm \<noteq> 0" by blast
  then have k': "k' = (put_sema s (sm\<lparr>sema_value := sema_value sm - 1\<rparr>) (pop k))\<lparr>intr_on := old\<rparr>"
    using x by (auto simp: res_simps frame_simps)
  show ?thesis
    by (rule sema_cond[OF inv f, of k' "[]"])
      (use sm condD(3)[OF inv, of "cur k"] f uint_pred[OF sm(2)] in
        \<open>auto simp: k' frames_pop frame_simps swing_def waiter_value_def sems_put_sema\<close>)
next
  case False
  then obtain p' where a: "acts [Sema_Down p' s] (pop k) k'" using down_waits[OF x] by blast
  have "wait_ok (Sema_Down p s # fs)" using condD(3)[OF inv, of "cur k"] f by simp
  then have "wait_ok ([Sema_Down p' s] @ fs)" by (simp split: semref.splits)
  then show ?thesis
    by (rule sema_cond[OF inv f, rotated 2])
      (use a f in \<open>simp_all add: acts_def frames_pop frame_simps swing_def waiter_value_def fun_eq_iff\<close>)
qed

lemma up_cond:
  assumes inv: "cond_inv k" and wf: "wf_kernel k" and f: "frames k (cur k) = Sema_Up SU_Enter s # fs"
    and x: "semaphore_up E SU_Enter s (pop k) = Inr k'"
  shows "cond_inv k'"
proof -
  from x obtain t sm sm' ws k1 where sm: "sems (pop k) s = Some sm"
    and s1: "still (pop k) k1 \<or> still (put_sema s (sm\<lparr>waiters := ws\<rparr>) (pop k)) k1"
    and k': "k' = push [Sema_Up (SU_Preempt t) s] (put_sema s sm' k1)" "sema_value sm' = sema_value sm + 1"
    by (rule up_enter_cases)
  have sm: "sems k s = Some sm" using sm by (simp add: frame_simps)
  have k1: "condvars k1 = condvars k" "frames k1 = frames (pop k)" "cur k1 = cur k" "waiter_value k1 = waiter_value k"
    using s1 sm by (auto simp: still_def frame_simps waiter_value_def sems_put_sema fun_eq_iff)
  have "waiter_value k t \<le> 1" for t
    using signal_balance[OF inv wf, of t] by (simp split: if_splits)
  then have small: "uint (sema_value sm) \<le> 1" if "s = Waiter t" for t
    using that sm by (metis (mono_tags, lifting) option.simps(5) waiter_value_def)
  have up: "uint (sema_value sm + 1) = uint (sema_value sm) + 1" if "s = Waiter t" for t
    using small[OF that] by (simp add: uint_word_ariths)
  show ?thesis
  proof (rule sema_cond[OF inv f])
    show "frames k' = (frames k)(cur k := [Sema_Up (SU_Preempt t) s] @ fs)" "condvars k' = condvars k"
      using k1 f by (simp_all add: k' frames_push frames_pop frame_simps)
    show "wait_ok ([Sema_Up (SU_Preempt t) s] @ fs)" using condD(3)[OF inv, of "cur k"] f by simp
    show "sway u [Sema_Up (SU_Preempt t) s] + waiter_value k' u = swing u (Sema_Up SU_Enter s) + waiter_value k u" for u
      using sm k1(4) up by (auto simp: swing_def k' waiter_value_def frame_simps sems_put_sema fun_eq_iff)
  qed
qed

lemma create_ready_cond:
  assumes inv: "cond_inv k" and wf: "wf_kernel k" and f: "frames k (cur k) = Thread_Create (TC_Ready t func) # fs"
    and x: "thread_create E (TC_Ready t func) (pop k) = Inr k'"
  shows "cond_inv k'"
proof -
  note eff = create_ready_effect[OF wf f x]
  have fs: "wait_ok fs" using condD(3)[OF inv, of "cur k"] f by simp
  show ?thesis
  proof (rule cond_stepI[OF inv])
    show "finite (busy k')"
      by (rule finite_subset[of _ "insert t (insert (cur k) (busy k))"])
        (use condD(1)[OF inv] in \<open>auto simp: busy_def eff(2) split: if_splits\<close>)
    show "u \<noteq> cur k \<Longrightarrow> frames k' u = frames k u \<or> list_all base_frame (frames k u) \<and> list_all base_frame (frames k' u)" for u
      by (simp add: eff base_frame_def)
    show "wait_ok (frames k' (cur k))" using fs by (simp add: eff(2))
    show "sway u (frames k' (cur k)) + waiter_value k' u + int (on_lists k' u) =
        sway u (frames k (cur k)) + waiter_value k u + int (on_lists k u)" for u
      by (simp add: eff f swing_def on_lists_cong[OF eff(5)])
  qed (use condD(2)[OF inv] in \<open>simp add: eff(5)\<close>)
qed

lemma exit_cond:
  assumes inv: "cond_inv k" and m: "mutex_inv k" and f: "frames k (cur k) = Thread_Exit # fs"
    and x: "thread_exit (pop k) = Inr k'"
  shows "cond_inv k'"
proof -
  have base: "list_all base_frame fs" using mutexD(2)[OF m, of "cur k"] f by (simp add: base_frame_def[abs_def])
  have "\<forall>t. frames k' t = frames (pop k) t \<or> t = cur k \<and> frames k' t = []"
    using exit_still[OF x] by (simp add: frame_simps)
  then have fr: "frames k' = (frames k)(cur k := fs) \<or> frames k' = (frames k)(cur k := [])"
    by (auto simp: frames_pop f fun_eq_iff split: if_splits)
  have same: "condvars k' = condvars k" "waiter_value k' = waiter_value k"
    using exit_still[OF x] by (simp_all add: frame_simps waiter_value_def fun_eq_iff)
  obtain us where us: "frames k' = (frames k)(cur k := us @ [])" "list_all base_frame us"
    using fr base by (elim disjE) (simp_all add: that)
  show ?thesis
    by (rule calls_cond[OF inv, of "Thread_Exit # fs" "[]", OF _ _ us(1) same])
      (use f base us(2) base_sway in \<open>auto simp: swing_def list_all_iff base_mild\<close>)
qed

lemma lock_cond:
  assumes inv: "cond_inv k" and f: "frames k (cur k) = f # fs" and x: "exec_frame E f (pop k) = Inr k'"
    and lock: "f = Lock_Acquire p l \<or> f = Lock_Release q l"
  shows "cond_inv k'"
proof -
  have fs: "wait_ok fs" using condD(3)[OF inv, of "cur k"] f by simp
  have "\<exists>us. frames k' = (frames k)(cur k := us @ fs) \<and> condvars k' = condvars k \<and>
      waiter_value k' = waiter_value k \<and> list_all mild us"
  proof (cases "\<exists>p. f = Lock_Acquire p l \<and> p \<noteq> LA_Own")
    case True
    then obtain us where "acts us (pop k) k'" "list_all mild us"
      using lock_acquire_acts x by fastforce
    then show ?thesis using f
      by (intro exI[of _ us]) (simp add: acts_def frames_pop frame_simps waiter_value_def fun_eq_iff)
  next
    case False
    then consider "f = Lock_Acquire LA_Own l" | "f = Lock_Release LR_Enter l" | "f = Lock_Release LR_Clear l"
      using lock by (cases q) auto
    then show ?thesis
    proof cases
      case 1
      with x f show ?thesis
        by (intro exI[of _ "[]"]) (auto simp: res_simps frames_pop frame_simps waiter_value_def fun_eq_iff)
    next
      case 2
      with x obtain k1 where s: "still (pop k) k1" and k': "k' = push [Lock_Release LR_Clear l] k1"
        by (auto simp: res_simps dest: return_priority_still split: if_splits) (metis still_refl)
      then show ?thesis using f
        by (intro exI[of _ "[Lock_Release LR_Clear l]"])
          (simp add: still_def frames_push frames_pop frame_simps waiter_value_def fun_eq_iff frame_class)
    next
      case 3
      with x f show ?thesis
        by (intro exI[of _ "[Sema_Up SU_Enter (Lock_Sema l)]"])
          (auto simp: res_simps frames_push frames_pop frame_simps waiter_value_def fun_eq_iff frame_class)
    qed
  qed
  then show ?thesis
    using calls_cond[OF inv, of "[f]" fs k'] f fs lock by (auto simp: swing_def)
qed

section \<open>Every step\<close>

lemma exec_frame_cond:
  assumes inv: "cond_inv k" and m: "mutex_inv k" and wf: "wf_kernel k" and f: "frames k (cur k) = f # fs"
    and x: "exec_frame E f (pop k) = Inr k'"
  shows "cond_inv k'"
proof -
  have fs: "wait_ok fs" and arg: "arg_ok f"
    using condD(3)[OF inv, of "cur k"] mutexD(2)[OF m, of "cur k"] f by simp_all
  note Q = quietly_cond[OF inv f] and fc = frame_class
  show ?thesis
  proof (cases f)
    case (Kernel_Thread func)
    then have "\<exists>us. frames k' = (frames k)(cur k := us @ fs) \<and> condvars k' = condvars k \<and>
        waiter_value k' = waiter_value k \<and> list_all mild us"
      using x f by (cases func) (auto simp: kernel_thread_def frames_push frames_pop frame_simps waiter_value_def fc fun_eq_iff)
    then show ?thesis using calls_cond[OF inv, of "[f]" fs k'] f fs Kernel_Thread by (auto simp: swing_def)
  next
    case Client_Body
    then show ?thesis using x f fs
      by (intro calls_cond[OF inv, of "[f]" fs k' "[]"])
        (auto simp: swing_def frames_pop frame_simps waiter_value_def fun_eq_iff)
  next
    case (Idle_At p)
    have "quietly (pop k) k'" by (rule idle_acts[of E p]) (use x arg Idle_At in \<open>auto simp: arg_ok_def\<close>)
    then show ?thesis by (rule Q[rotated]) (simp add: fc Idle_At)
  next
    case Thread_Yield
    have "acts [Intr_Set_Level (intr_on (pop k))] (pop k) k'" using x Thread_Yield by (auto intro: yield_acts)
    then show ?thesis by (rule acts_cond[OF inv f, rotated]) (simp_all add: Thread_Yield fc)
  next
    case (Intr_Set_Level b)
    have "acts [] (pop k) k'" using x Intr_Set_Level by (auto intro!: acts_Nil simp: still_def)
    then show ?thesis by (rule acts_cond[OF inv f, rotated]) (simp_all add: Intr_Set_Level fc)
  next
    case Thread_Exit
    then show ?thesis using exit_cond[OF inv m f[unfolded Thread_Exit]] x by simp
  next
    case (Set_Priority p)
    then show ?thesis using Q set_priority_acts[of p "pop k" k'] x by (simp add: fc)
  next
    case (Thread_Create p)
    show ?thesis
    proof (cases "\<exists>t func. p = TC_Ready t func")
      case True
      then show ?thesis using create_ready_cond[OF inv wf] f x Thread_Create by auto
    next
      case False
      have "quietly (pop k) k'"
        by (rule create_acts[of E p]) (use x False arg Thread_Create in \<open>auto simp: arg_ok_def\<close>)
      then show ?thesis by (rule Q[rotated]) (simp add: fc Thread_Create)
    qed
  next
    case (Thread_Start p)
    then show ?thesis using Q start_acts[of p "pop k" k'] x by (simp add: fc)
  next
    case (Sema_Down p s)
    then show ?thesis using down_cond[OF inv f[unfolded Sema_Down]] x by simp
  next
    case (Sema_Up p s)
    show ?thesis
    proof (cases "p = SU_Enter")
      case True
      then show ?thesis using up_cond[OF inv wf, of s fs E k'] f x Sema_Up by simp
    next
      case False
      then show ?thesis using Q semaphore_up_acts[of E p s "pop k" k'] x Sema_Up
        by (simp add: fc split: up_point.splits)
    qed
  next
    case (Lock_Acquire p l)
    then show ?thesis using lock_cond[OF inv f x] by blast
  next
    case (Lock_Release p l)
    then show ?thesis using lock_cond[OF inv f x] by blast
  next
    case (Cond_Wait p c l)
    then show ?thesis
      using wait_enter_cond[OF inv wf, of c l fs E k'] wait_return_cond[OF inv wf, of c l fs E k'] f x
      by (cases p) simp_all
  next
    case (Cond_Signal c l)
    then show ?thesis using signal_cond[OF inv, of c l fs E k'] f x by simp
  next
    case (Cond_Broadcast c l)
    then have "\<exists>us. frames k' = (frames k)(cur k := us @ fs) \<and> condvars k' = condvars k \<and>
        waiter_value k' = waiter_value k \<and> list_all mild us"
      using x f by (auto simp: condvar_broadcast_def res_simps frames_push frames_pop frame_simps waiter_value_def fc
          fun_eq_iff split: if_splits intro: exI[of _ "[]"] exI[of _ "[Cond_Signal c l, Cond_Broadcast c l]"])
    then show ?thesis using calls_cond[OF inv, of "[f]" fs k'] f fs Cond_Broadcast by (auto simp: swing_def)
  next
    case (Timer_Sleep p n)
    then show ?thesis using Q sleep_acts[of E p n "pop k" k'] x by (simp add: fc)
  qed
qed

lemma cond_cong:
  assumes "cond_inv k" and "frames k' = frames k" and "condvars k' = condvars k" and "waiter_value k' = waiter_value k"
  shows "cond_inv k'"
  by (rule calls_cond[OF assms(1), of "[]" "frames k (cur k)" k' "[]"]) (use assms condD(3)[OF assms(1)] in auto)

lemma client_call_cond:
  assumes inv: "cond_inv k" and m: "mutex_inv k" and f: "frames k (cur k) = Client_Body # fs" and call: "client_call f"
  shows "cond_inv (push [f] k)"
proof (rule cond_stepI[OF inv])
  have fr: "frames (push [f] k) = (frames k)(cur k := [f] @ frames k (cur k))" by (simp add: frames_push)
  have base: "list_all base_frame (frames k (cur k))"
    using mutexD(2)[OF m, of "cur k"] f by (simp add: base_frame_def[abs_def])
  show "finite (busy (push [f] k))" using busy_upd[OF fr] condD(1)[OF inv] .
  show "wait_ok (frames (push [f] k) (cur k))"
    using call base wait_ok_base[OF base] by (cases f rule: client_call.cases) (simp_all add: frames_push)
  have "swing t f = 0" for t using call by (cases f rule: client_call.cases) (simp_all add: swing_def)
  then show "sway t (frames (push [f] k) (cur k)) + waiter_value (push [f] k) t + int (on_lists (push [f] k) t) =
      sway t (frames k (cur k)) + waiter_value k t + int (on_lists k t)" for t
    by (simp add: fr waiter_value_def frame_simps on_lists_def)
qed (use condD(2)[OF inv] in \<open>simp_all add: frame_simps frames_push\<close>)

lemma new_condvar_cond:
  assumes inv: "cond_inv k" and c: "condvars k c = None"
  shows "cond_inv (condvar_init c k)"
proof (rule cond_stepI[OF inv])
  have fr: "frames (condvar_init c k) = frames k" by (simp add: condvar_init_def frame_simps)
  have "c \<notin> dom (condvars k)" using c by blast
  then have "on_lists (condvar_init c k) t = on_lists k t" for t
    using condD(2)[OF inv] by (simp add: on_lists_def condvar_init_def condvars_put_condvar)
      (intro sum.cong, auto)
  then show "sway t (frames (condvar_init c k) (cur k)) + waiter_value (condvar_init c k) t + int (on_lists (condvar_init c k) t) =
      sway t (frames k (cur k)) + waiter_value k t + int (on_lists k t)" for t
    by (simp add: fr waiter_value_def condvar_init_def frame_simps)
qed (use condD[OF inv] in \<open>simp_all add: condvar_init_def frame_simps busy_def condvars_put_condvar\<close>)

lemma timer_irq_cond:
  assumes inv: "cond_inv k" and x: "timer_irq E k = Inr k'"
  shows "cond_inv k'"
proof -
  obtain k1 where k1: "timer_interrupt E (k\<lparr>intr_on := False, intr_context := True, yield_on_return := False\<rparr>) = Inr k1"
    and k': "k' = (if yield_on_return k1 then push [Thread_Yield, Intr_Set_Level True] (k1\<lparr>intr_context := False\<rparr>)
        else k1\<lparr>intr_context := False, intr_on := True\<rparr>)"
    using x by (auto simp: timer_irq_def res_simps Let_def)
  define us where "us = (if yield_on_return k1 then [Thread_Yield, Intr_Set_Level True] else [])"
  have s: "condvars k1 = condvars k" "sems k1 = sems k" "frames k1 = frames k" "cur k1 = cur k"
    using interrupt_still[OF k1] by (simp_all add: still_def)
  show ?thesis
    by (rule calls_cond[OF inv, of "[]" "frames k (cur k)" k' us])
      (use s condD(3)[OF inv] in
        \<open>auto simp: k' us_def frames_push frame_simps waiter_value_def fun_eq_iff frame_class\<close>)
qed

lemma kernel_step_cond:
  assumes "kernel_step k k'" and wf: "wf_kernel k" and m: "mutex_inv k" and inv: "cond_inv k"
  shows "cond_inv k'"
  using assms(1)
proof (cases rule: kernel_step.cases)
  case (run E)
  then show ?thesis using exec_frame_cond[OF inv m wf, of _ _ E k'] inv
    by (auto simp: run_thread_def split: list.splits)
next
  case (call fs f)
  then show ?thesis using client_call_cond[OF inv m] by simp
next
  case (new_sema fs n v)
  then show ?thesis
    by (auto intro!: cond_cong[OF inv] simp: semaphore_init_def frame_simps waiter_value_def fun_eq_iff sems_put_sema)
next
  case (new_lock fs l)
  then show ?thesis
    by (auto intro!: cond_cong[OF inv] simp: lock_init_def semaphore_init_def frame_simps waiter_value_def fun_eq_iff
        sems_put_sema)
next
  case (new_condvar fs c)
  then show ?thesis using new_condvar_cond[OF inv] by simp
next
  case (tick E)
  then show ?thesis using timer_irq_cond[OF inv] by blast
qed

lemma boot_cond: "boot p = Inr k \<Longrightarrow> cond_inv k"
proof -
  assume b: "boot p = Inr k"
  note k = boot_state[OF b]
  have c: "condvars k = (\<lambda>_. None)"
    using b by (auto simp: boot_def thread_init_def timer_init_def init_thread_def res_simps Let_def power_on_def
        frame_simps lock_init_def semaphore_init_def)
  have "busy k = {p}" by (auto simp: busy_def k)
  then show ?thesis
    by (auto simp: cond_inv_def k c swing_def waiter_value_def on_lists_def)
qed

lemma kernel_steps_cond:
  "kernel_steps k k' \<Longrightarrow> wf_kernel k \<Longrightarrow> mutex_inv k \<Longrightarrow> cond_inv k \<Longrightarrow> cond_inv k'"
proof (induction rule: kernel_steps.induct)
  case (step k k' k'')
  then show ?case using kernel_step_cond kernel_steps_wf kernel_steps_mutex by blast
qed simp

lemma reachable_cond: "reachable k \<Longrightarrow> cond_inv k"
  unfolding reachable_def using boot_cond boot_mutex boot_wf kernel_steps_cond by blast

end
