(* ===== verification/Traces.thy ===== *)
theory Traces
  imports Demo
begin

text \<open>
  Concrete runs of the Lab 2 kernel. A schedule is a list of events, \<open>play\<close> executes it, and what it
  leads to can happen: the simplifier runs the kernel on literal states with the bundle \<open>machine\<close>.
\<close>

datatype event = Run nat | Alloc tptr | Call frame | New_Lock nat | New_Sema nat "32 word" | New_Cond nat

primrec runs :: "env \<Rightarrow> nat \<Rightarrow> kernel \<Rightarrow> kernel res" where
  "runs E 0 k = Inr k"
| "runs E (Suc n) k = bind_res (run_thread E k) (runs E n)"

definition at_body :: "kernel \<Rightarrow> bool" where
  "at_body k = (case frames k (cur k) of Client_Body # _ \<Rightarrow> True | _ \<Rightarrow> False)"

text \<open>\<open>Alloc p\<close> is a step in which the allocator would give out page \<open>p\<close>.\<close>

fun happen :: "event \<Rightarrow> kernel \<Rightarrow> kernel res" where
  "happen (Run n) k = runs demo_env n k"
| "happen (Alloc p) k =
     (if threads k p = None then run_thread (demo_env\<lparr>palloc_get_page := Some p\<rparr>) k else Inl Bad_Pointer)"
| "happen (Call f) k = (if at_body k \<and> client_call f then Inr (push [f] k) else Inl Bad_Pointer)"
| "happen (New_Lock l) k =
     (if at_body k \<and> locks k l = None \<and> sems k (Lock_Sema l) = None then Inr (lock_init l k) else Inl Bad_Pointer)"
| "happen (New_Sema n v) k =
     (if at_body k \<and> sems k (Sema n) = None then Inr (semaphore_init (Sema n) v k) else Inl Bad_Pointer)"
| "happen (New_Cond c) k =
     (if at_body k \<and> condvars k c = None then Inr (condvar_init c k) else Inl Bad_Pointer)"

primrec play :: "event list \<Rightarrow> kernel \<Rightarrow> kernel res" where
  "play [] k = Inr k"
| "play (e # es) k = bind_res (happen e k) (play es)"

lemma at_body_iff: "at_body k \<longleftrightarrow> (\<exists>fs. frames k (cur k) = Client_Body # fs)"
  by (auto simp: at_body_def split: list.splits frame.splits)

lemma kernel_steps_trans: "kernel_steps k' k'' \<Longrightarrow> kernel_steps k k' \<Longrightarrow> kernel_steps k k''"
  by (induction rule: kernel_steps.induct) (auto intro: kernel_steps.step)

lemma runs_steps: "runs demo_env n k = Inr k' \<Longrightarrow> kernel_steps k k'"
proof (induction n arbitrary: k)
  case (Suc n)
  then obtain k1 where k1: "run_thread demo_env k = Inr k1" "runs demo_env n k1 = Inr k'" by (auto simp: res_simps)
  have "palloc_ok demo_env k" by (simp add: palloc_ok_def demo_env_def)
  from kernel_step.run[OF this k1(1)] have "kernel_step k k1" .
  then have "kernel_steps k k1" by (rule kernel_steps.step[OF kernel_steps.refl])
  with Suc.IH[OF k1(2)] show ?case by (rule kernel_steps_trans)
qed (simp add: kernel_steps.refl)

lemma happen_steps:
  assumes "happen e k = Inr k'"
  shows "kernel_steps k k'"
proof -
  have one: "kernel_steps k k1" if "kernel_step k k1" for k1
    using kernel_steps.step[OF kernel_steps.refl that] .
  show ?thesis
  proof (cases e)
    case (Run n)
    with assms show ?thesis by (simp add: runs_steps)
  next
    case (Alloc p)
    with assms have p: "threads k p = None" "run_thread (demo_env\<lparr>palloc_get_page := Some p\<rparr>) k = Inr k'"
      by (auto split: if_splits)
    from p(1) have "palloc_ok (demo_env\<lparr>palloc_get_page := Some p\<rparr>) k" by (simp add: palloc_ok_def)
    from kernel_step.run[OF this p(2)] show ?thesis by (rule one)
  next
    case (Call f)
    with assms show ?thesis by (auto simp: at_body_iff split: if_splits intro!: one[OF kernel_step.call])
  next
    case (New_Lock l)
    with assms show ?thesis by (auto simp: at_body_iff split: if_splits intro!: one[OF kernel_step.new_lock])
  next
    case (New_Sema n v)
    with assms show ?thesis by (auto simp: at_body_iff split: if_splits intro!: one[OF kernel_step.new_sema])
  next
    case (New_Cond c)
    with assms show ?thesis by (auto simp: at_body_iff split: if_splits intro!: one[OF kernel_step.new_condvar])
  qed
qed

lemma play_steps: "play es k = Inr k' \<Longrightarrow> kernel_steps k k'"
proof (induction es arbitrary: k)
  case (Cons e es)
  then obtain k1 where k1: "happen e k = Inr k1" "play es k1 = Inr k'" by (auto simp: res_simps)
  from Cons.IH[OF k1(2)] happen_steps[OF k1(1)] show ?case by (rule kernel_steps_trans)
qed (simp add: kernel_steps.refl)

lemma play_reachable: "bind_res (boot p) (play es) = Inr k \<Longrightarrow> reachable k"
  unfolding reachable_def by (auto simp: res_simps intro: play_steps)

section \<open>Running the kernel by simplification\<close>

lemma runs_numeral:
  "runs E (numeral v) k = bind_res (run_thread E k) (runs E (pred_numeral v))"
  "runs E 1 k = run_thread E k"
  by (simp add: numeral_eq_Suc) (cases "run_thread E k"; simp)

lemma demo_env_simps:
  "lib demo_env = stable_lib" "switch_entry_frame_size demo_env = 8" "switch_threads_frame_size demo_env = 28"
  by (simp_all add: demo_env_def)

lemma weak_congs:
  "m = m' \<Longrightarrow> bind_res m f = bind_res m' f"
  "m = m' \<Longrightarrow> Let m g = Let m' g"
  "b = b' \<Longrightarrow> assert_res b msg r = assert_res b' msg r"
  by simp_all

lemmas machine =
  run_thread_def pop_def push_def get_thread_def upd_thread_def get_sema_def put_sema_def get_lock_def
  put_lock_def deref_def prio_def state_of_def thread_current_def is_thread_def
  lock_held_by_current_thread_def link_p_elem_def all_live_def donate_to_holder_def return_priority_def
  drop_donor_def lock_init_def semaphore_init_def thread_block_def thread_unblock_def thread_yield_def
  thread_exit_def schedule_def next_thread_to_run_def thread_schedule_tail_def allocate_tid_def
  alloc_frame_def init_thread_def kernel_thread_def thread_set_priority_def thread_get_priority_def
  kernel_thread_frame_size_def list_priority_sort_def sem_priority_sort_def lock_priority_sort_def
  insertion_sort_def PRI_MIN_def PRI_MAX_def PRI_DEFAULT_def PGSIZE_def tid_lock_def add_int32_def
  get_condvar_def put_condvar_def condvar_init_def condvar_signal_def condvar_broadcast_def
  Let_def at_body_def demo_env_simps runs_numeral

text \<open>The boot.\<close>

lemmas boot_defs = boot_def thread_init_def timer_init_def power_on_def

end
