(* ===== verification/Condvar_Props.thy ===== *)
theory Condvar_Props
  imports Waiting Signals Traces
begin

text \<open>
  Condition variables of Lab 2: the thread a signal wakes, and that no signal is lost or invented.
\<close>

lemma pop_push_one [simp]: "pop (push [f] k) = k"
  by (simp add: pop_def push_def)

text \<open>A waiter of a condition variable that sleeps on its own semaphore.\<close>

definition sleeps :: "kernel \<Rightarrow> tptr \<Rightarrow> bool" where
  "sleeps k t \<longleftrightarrow> t \<in> set (sema_queue k (Waiter t))"

lemma front_waiter_local:
  assumes "local_ok k"
  shows "front_waiter k t = (if sleeps k t then Some t else None)"
proof -
  have "set (sema_queue k (Waiter t)) \<subseteq> {t}" using assms by (simp add: local_ok_def)
  then show ?thesis
    by (auto simp: front_waiter_def sleeps_def sema_queue_def split: option.splits list.splits)
qed

text \<open>So the order of the waiters is: the sleeping ones first, by priority.\<close>

lemma condvar_order:
  assumes "local_ok k"
  shows "condvar_priority_sort k a b \<longleftrightarrow> sleeps k a \<and> (sleeps k b \<longrightarrow> prio k a > prio k b)"
  by (simp add: condvar_priority_sort_def front_waiter_local[OF assms])

lemma signal_result:
  assumes "thread_current k = Inr th" and "lock_holder k l = Some (cur k)" and "\<not> intr_context k"
    and "condvars k c = Some cv" and "cond_waiters cv \<noteq> []"
  obtains w ws where "condvar_signal E c l k =
      Inr (push [Sema_Up SU_Enter (Waiter w)] (put_condvar c (cv\<lparr>cond_waiters := ws\<rparr>) k))"
    and "list_sort (lib E) (condvar_priority_sort k) (cond_waiters cv) = w # ws"
proof -
  obtain lk where lk: "locks k l = Some lk" "holder lk = Some (cur k)"
    using assms(2) by (auto simp: lock_holder_def split: option.splits)
  obtain w ws where ws: "list_sort (lib E) (condvar_priority_sort k) (cond_waiters cv) = w # ws"
    using assms(5) cond_order.sort_Nil_iff by (metis list.exhaust)
  show ?thesis
    by (rule that[OF _ ws])
      (use assms lk ws in \<open>simp add: condvar_signal_def lock_held_by_current_thread_def get_lock_def get_condvar_def\<close>)
qed

text \<open>C10: When waiters sleep, \<open>condvar_signal\<close> and the first part of its \<open>semaphore_up\<close> take one of them off
  the list, of the highest priority among the sleeping ones, and make it ready; the others stay.\<close>

theorem signal_wakes_highest:
  assumes c: "core I k (Some (cur k))" and held: "lock_holder k l = Some (cur k)" and "\<not> intr_context k"
    and cv: "condvars k c = Some cv" and u: "u \<in> set (cond_waiters cv)" "sleeps k u"
  shows "\<exists>k1 k2 w cv'. condvar_signal E c l k = Inr k1 \<and> run_thread E k1 = Inr k2 \<and>
     w \<in> set (cond_waiters cv) \<and> state_of k w = Some THREAD_BLOCKED \<and> state_of k2 w = Some THREAD_READY \<and>
     (\<forall>u \<in> set (cond_waiters cv). sleeps k u \<longrightarrow> prio k u \<le> prio k w) \<and>
     mset (ready_list k2) = add_mset w (mset (ready_list k)) \<and>
     condvars k2 c = Some cv' \<and> mset (cond_waiters cv) = add_mset w (mset (cond_waiters cv'))"
proof -
  note lo = core_local[OF c]
  obtain th where th: "thread_current k = Inr th" using thread_current_core[OF c] by blast
  obtain w ws where sg: "condvar_signal E c l k =
      Inr (push [Sema_Up SU_Enter (Waiter w)] (put_condvar c (cv\<lparr>cond_waiters := ws\<rparr>) k))"
    and srt: "list_sort (lib E) (condvar_priority_sort k) (cond_waiters cv) = w # ws"
    using signal_result[OF th held assms(3) cv] u(1) by (metis empty_iff list.set(1))
  have m: "mset (cond_waiters cv) = add_mset w (mset ws)"
    using cond_order.mset_sort[of "lib E" k "cond_waiters cv"] by (simp add: srt)
  have best: "sleeps k w \<and> (sleeps k v \<longrightarrow> prio k v \<le> prio k w)" if "v \<in> set (cond_waiters cv)" for v
    using cond_order.sort_hd_least[OF srt that] cond_order.sort_hd_least[OF srt u(1)] u(2)
    by (auto simp: condvar_order[OF lo])
  then have w: "sleeps k w" using u(1) by blast
  then obtain sm where sm: "sems k (Waiter w) = Some sm" "w \<in> set (waiters sm)"
    by (cases "sems k (Waiter w)") (auto simp: sleeps_def sema_queue_def)
  have "set (sema_queue k (Waiter w)) \<subseteq> {w}" using lo by (simp add: local_ok_def)
  then have only: "set (waiters sm) \<subseteq> {w}" using sm(1) by (simp add: sema_queue_def)
  let ?k = "put_condvar c (cv\<lparr>cond_waiters := ws\<rparr>) k"
  have "core I ?k (Some (cur ?k))" using core_same[OF same_fields(11) c] by (simp add: frame_simps)
  moreover have "sems ?k (Waiter w) = Some sm" using sm(1) by (simp add: frame_simps)
  ultimately obtain k2 where k2: "semaphore_up E SU_Enter (Waiter w) ?k = Inr k2" "condvars k2 = condvars ?k"
    "state_of ?k w = Some THREAD_BLOCKED"
    "mset (ready_list k2) = add_mset w (mset (ready_list ?k))" "state_of k2 w = Some THREAD_READY"
    using up_wakes[of I ?k "Waiter w" sm E] only sm(2) by (auto split: if_splits)
  have "run_thread E (push [Sema_Up SU_Enter (Waiter w)] ?k) = Inr k2"
    using k2(1) by (simp add: run_thread_def frames_push frame_simps)
  then show ?thesis using sg k2 m best mset_add_facts(1)[OF m]
    by - (rule exI[of _ "push [Sema_Up SU_Enter (Waiter w)] ?k"],
        intro exI[of _ k2] exI[of _ w] exI[of _ "cv\<lparr>cond_waiters := ws\<rparr>"],
        auto simp: frame_simps condvars_put_condvar simp del: semaphore_up.simps)
qed

text \<open>Thread 3 waits on condition variable 0 and the running thread 1 holds lock 5.\<close>

definition signal_kernel :: kernel where
  "signal_kernel = put_condvar 0 \<lparr>cond_waiters = [3]\<rparr> (put_lock 5 \<lparr>holder = Some 1, donor = None\<rparr> (queued_on (Waiter 3)))"

theorem signal_wakes_highest_witness:
  "\<exists>k1 k2 cv'. condvar_signal demo_env 0 5 signal_kernel = Inr k1 \<and> run_thread demo_env k1 = Inr k2 \<and>
     state_of k2 3 = Some THREAD_READY \<and> condvars k2 0 = Some cv' \<and> cond_waiters cv' = []"
proof -
  note d = signal_kernel_def queued_on_def demo_kernel_def power_on_def frame_simps
  have "core {} signal_kernel (Some (cur signal_kernel))"
    using core_same[OF same_fields(11) core_same[OF same_fields(10) queued_on_core[of "Waiter 3"]]]
    by (simp add: signal_kernel_def frame_simps)
  moreover have "lock_holder signal_kernel 5 = Some (cur signal_kernel)"
    by (simp add: lock_holder_def locks_put_lock d)
  moreover have "condvars signal_kernel 0 = Some \<lparr>cond_waiters = [3]\<rparr>"
    by (simp add: signal_kernel_def condvars_put_condvar)
  moreover have "sleeps signal_kernel 3" "\<not> intr_context signal_kernel"
    by (simp_all add: sleeps_def sema_queue_def d)
  ultimately show ?thesis
    using signal_wakes_highest[of "{}" signal_kernel 5 0 "\<lparr>cond_waiters = [3]\<rparr>" 3 demo_env] by auto
qed

section \<open>No signal is lost or invented\<close>

text \<open>C9: In every run a thread that waits in \<open>condvar_wait\<close> is on exactly one list of one condition variable,
  or one signaller has taken it off and is about to raise its semaphore, or the semaphore has been raised
  once: exactly one of the three. A thread that does not wait is on no list and no signal for it is pending.\<close>

theorem wait_signal_balance:
  assumes "reachable k"
  shows "int (raising k t) + waiter_value k t + int (on_lists k t) = (if in_wait k t then 1 else 0)"
  using signal_balance[OF reachable_cond[OF assms] reachable_wf[OF assms]] .

text \<open>\<open>main\<close> waits on condition variable 0.\<close>

theorem wait_signal_balance_witness:
  "\<exists>k. reachable k \<and> in_wait k 2 \<and> waiter_value k 2 = 0 \<and> raising k 2 + on_lists k 2 = 1"
proof -
  let ?es = "[Run 15, Alloc 3, Run 26, New_Lock 5, New_Cond 0, Call (Lock_Acquire LA_Enter 5), Run 4,
      Call (Cond_Wait CW_Enter 0 5), Run 1]"
  have "\<exists>k. bind_res (boot 2) (play ?es) = Inr k \<and> in_wait k 2 \<and> waiter_value k 2 = 0"
    by (simp add: boot_defs machine in_wait_def waiter_value_def cong: weak_congs)
  then obtain k where k: "reachable k" "in_wait k 2" "waiter_value k 2 = 0" using play_reachable by blast
  with wait_signal_balance[OF k(1), of 2] show ?thesis by auto
qed

end
