(* ===== verification/Donation.thy ===== *)
theory Donation
  imports Traces Mutex
begin

text \<open>
  The donation of priorities of \<open>Lab2/lock.c\<close> and \<open>Lab2/semaphore.c\<close>: what a thread that waits for a
  lock gives to its holder, what the holder keeps when it releases the lock, and two runs in which
  the bookkeeping fails.
\<close>

section \<open>Giving\<close>

text \<open>An element that is not linked into the list of a live thread.\<close>

definition unlinked :: "kernel \<Rightarrow> thread \<Rightarrow> bool" where
  "unlinked k th \<longleftrightarrow> (case p_elem th of None \<Rightarrow> True | Some h \<Rightarrow> threads k h = None)"

lemma run_thread_top: "frames k (cur k) = f # fs \<Longrightarrow> run_thread E k = exec_frame E f (pop k)"
  by (simp add: run_thread_def)

lemma link_unlinked:
  assumes "threads k h = Some hth" and "threads k t = Some th" and "unlinked k th" and "all_live k (priority_list hth)"
  shows "link_p_elem E h t k =
    Inr (upd_thread h (\<lambda>hth. hth\<lparr>priority_list := list_insert_ordered (lib E) (lock_priority_sort k) t (priority_list hth)\<rparr>)
           (upd_thread t (\<lambda>th. th\<lparr>p_elem := Some h\<rparr>) k))"
  using assms by (auto simp: link_p_elem_def get_thread_def unlinked_def split: option.splits)

text \<open>C14: A thread that finds a lock held marks the lock, enlists with the holder and gives the holder its
  own priority, whatever the holder had: a thread of lower priority lowers it. The thread the holder
  waits for is raised but never lowered, and no other thread changes.\<close>

theorem donation_overwrites:
  assumes "frames k (cur k) = Lock_Acquire LA_Mark l # fs" and "thread_current k = Inr th" and "unlinked k th"
    and "locks k l = Some lk" and "holder lk = Some h" and "h \<noteq> cur k" and "threads k h = Some hth"
    and "all_live k (priority_list hth)" and "\<And>d. donee hth = Some d \<Longrightarrow> threads k d \<noteq> None"
  shows "\<exists>k' hth'. runs E 5 k = Inr k' \<and> cur k' = cur k \<and>
     frames k' (cur k) = Sema_Down SD_Enter (Lock_Sema l) # Lock_Acquire LA_Own l # fs \<and>
     threads k' h = Some hth' \<and> priority hth' = priority th \<and> prev_priority hth' = prev_priority hth \<and>
     priority_list hth' = list_insert_ordered (lib E) (lock_priority_sort k) (cur k) (priority_list hth) \<and>
     (\<exists>th'. threads k' (cur k) = Some th' \<and> lock_temp th' = Some l \<and> p_elem th' = Some h \<and> donee th' = Some h \<and>
        priority th' = priority th) \<and>
     (\<forall>d. donee hth = Some d \<and> d \<noteq> h \<longrightarrow> prio k' d = max (prio k d) (priority th)) \<and>
     (\<forall>t. t \<noteq> cur k \<and> t \<noteq> h \<and> donee hth \<noteq> Some t \<longrightarrow> threads k' t = threads k t)"
proof -
  have th: "threads k (cur k) = Some th" and run: "status th = THREAD_RUNNING" and magic: "magic th = THREAD_MAGIC"
    using assms(2) by (simp_all add: thread_current_Inr_iff)
  let ?k = "k\<lparr>threads := (threads k)(cur k \<mapsto> th\<lparr>lock_temp := Some l\<rparr>), frames := (frames k)(cur k := fs)\<rparr>"
  have order: "lock_priority_sort ?k = lock_priority_sort k"
    by (simp add: fun_eq_iff lock_priority_sort_def prio_def th)
  have live: "list_all (\<lambda>t. t \<noteq> cur k \<longrightarrow> (\<exists>y. threads k t = Some y)) (priority_list hth)"
    using assms(8) by (auto simp: all_live_def list_all_iff)
  note facts = th run magic order live assms(1,4-7)
  have link: "p_elem th = None \<or> (\<exists>h'. p_elem th = Some h' \<and> h' \<noteq> cur k \<and> threads k h' = None)"
    using assms(3) th by (auto simp: unlinked_def split: option.splits)
  show ?thesis
  proof (cases "donee hth")
    case None
    then show ?thesis
      using facts link by (elim disjE exE conjE; simp add: machine cong: weak_congs)
  next
    case (Some d)
    then obtain dth where dth: "threads k d = Some dth" using assms(9) by blast
    show ?thesis
    proof (cases "d = cur k")
      case True
      then show ?thesis
        using facts link Some by (elim disjE exE conjE; simp add: machine cong: weak_congs)
    next
      case False
      then show ?thesis
        using facts link Some dth
        by (elim disjE exE conjE; cases "d = h"; cases "priority th > priority dth"; simp add: machine max_def cong: weak_congs)
    qed
  qed
qed

text \<open>Thread 1 of priority 31 asks for lock 5, which thread 2 of priority 40 holds.\<close>

definition lent_kernel :: kernel where
  "lent_kernel = demo_kernel\<lparr>locks := [5 \<mapsto> \<lparr>holder = Some 2, donor = None\<rparr>],
     frames := (\<lambda>_. [])(1 := [Lock_Acquire LA_Mark 5, Client_Body])\<rparr>"

theorem donation_overwrites_witness:
  "\<exists>k'. runs demo_env 5 lent_kernel = Inr k' \<and> prio lent_kernel 2 = 40 \<and> prio k' 2 = 31"
proof -
  note d = lent_kernel_def demo_kernel_def power_on_def demo_thread_def
  have "thread_current lent_kernel = Inr (demo_thread THREAD_RUNNING 31 0)"
    by (simp add: thread_current_Inr_iff d)
  from donation_overwrites[OF _ this, of 5 "[Client_Body]" "\<lparr>holder = Some 2, donor = None\<rparr>" 2
      "demo_thread THREAD_READY 40 0" demo_env]
  show ?thesis by (auto simp: d unlinked_def all_live_def prio_def)
qed

section \<open>Taking back\<close>

text \<open>The donors of \<open>h\<close> are live threads, each on the list once, and so are their own donors.\<close>

definition donors_ok :: "kernel \<Rightarrow> tptr \<Rightarrow> tptr list \<Rightarrow> bool" where
  "donors_ok k h ts \<longleftrightarrow> distinct ts \<and> h \<notin> set ts \<and>
     (\<forall>t \<in> set ts. \<exists>th. threads k t = Some th \<and> all_live k (priority_list th))"

definition waits_for :: "kernel \<Rightarrow> nat \<Rightarrow> tptr \<Rightarrow> bool" where
  "waits_for k l t \<longleftrightarrow> (case threads k t of None \<Rightarrow> False | Some th \<Rightarrow> lock_temp th = Some l)"

text \<open>One donor, and then all of them.\<close>

lemma all_live_dom: "dom (threads k') = dom (threads k) \<Longrightarrow> all_live k' = all_live k"
  by (auto simp: all_live_def fun_eq_iff list_all_iff dom_def)

text \<open>The only fields the loop changes in a donor are the link and the donor's own list.\<close>

definition same_donor :: "thread \<Rightarrow> thread \<Rightarrow> bool" where
  "same_donor th th' \<longleftrightarrow> priority th' = priority th \<and> lock_temp th' = lock_temp th \<and>
     set (priority_list th') = set (priority_list th)"

lemma drop_donor_effect:
  assumes t: "threads k t = Some th" and live: "all_live k (priority_list th)" and h: "threads k h = Some hth" and ne: "t \<noteq> h"
  obtains k' th' where "drop_donor E l h t k = Inr k'" and "dom (threads k') = dom (threads k)"
    and "threads k' = (threads k)(t \<mapsto> th',
           h \<mapsto> hth\<lparr>priority_list := (if lock_temp th = Some l then remove1 t (priority_list hth) else priority_list hth)\<rparr>)"
    and "same_donor th th'" and "p_elem th' = (if lock_temp th = Some l then None else p_elem th)"
    and "frames k' = frames k" and "cur k' = cur k" and "locks k' = locks k"
proof (cases "lock_temp th = Some l")
  case False
  with t h have "drop_donor E l h t k = Inr k" by (simp add: drop_donor_def get_thread_def)
  with t h False show ?thesis by (intro that[of k th]) (auto simp: same_donor_def)
next
  case True
  have live': "all_live k' (priority_list th)" if "dom (threads k') = dom (threads k)" for k'
    using live all_live_dom[OF that] by simp
  let ?k = "upd_thread t (\<lambda>th. th\<lparr>p_elem := None\<rparr>)
      (upd_thread h (\<lambda>hth. hth\<lparr>priority_list := remove1 t (priority_list hth)\<rparr>) k)"
  have th1: "threads ?k t = Some (th\<lparr>p_elem := None\<rparr>)" using t ne by (simp add: threads_upd_thread)
  have "all_live ?k (priority_list th)" by (rule live') (use t h in \<open>auto simp: threads_upd_thread\<close>)
  with t True th1 have r: "drop_donor E l h t k = Inr (upd_thread t (\<lambda>th. th\<lparr>priority_list :=
      list_sort (lib E) (lock_priority_sort ?k) (priority_list th)\<rparr>) ?k)"
    by (simp add: drop_donor_def get_thread_def Let_def)
  show ?thesis
    by (rule that[OF r, of "th\<lparr>p_elem := None, priority_list := list_sort (lib E) (lock_priority_sort ?k) (priority_list th)\<rparr>"])
      (use t h ne True in \<open>auto simp: threads_upd_thread fun_eq_iff frame_simps same_donor_def donor_order.set_sort\<close>)
qed

lemma drop_donors:
  assumes "threads k h = Some hth" and "donors_ok k h ts" and "priority_list hth = pre @ ts" and "set pre \<inter> set ts = {}"
  shows "\<exists>k' hth'. fold_res (drop_donor E l h) ts k = Inr k' \<and> threads k' h = Some hth' \<and>
     hth' = hth\<lparr>priority_list := pre @ filter (\<lambda>t. \<not> waits_for k l t) ts\<rparr> \<and>
     (\<forall>t. t \<noteq> h \<and> t \<notin> set ts \<longrightarrow> threads k' t = threads k t) \<and>
     (\<forall>t \<in> set ts. \<exists>th th'. threads k t = Some th \<and> threads k' t = Some th' \<and> same_donor th th' \<and>
        p_elem th' = (if waits_for k l t then None else p_elem th)) \<and>
     frames k' = frames k \<and> cur k' = cur k \<and> locks k' = locks k"
  using assms
proof (induction ts arbitrary: k hth pre)
  case Nil
  then show ?case by simp
next
  case (Cons t ts)
  from Cons.prems(2) obtain th where t: "threads k t = Some th" "all_live k (priority_list th)"
    and ne: "t \<noteq> h" "t \<notin> set ts" and ok: "donors_ok k h ts"
    by (auto simp: donors_ok_def)
  let ?hth = "hth\<lparr>priority_list := (if lock_temp th = Some l then remove1 t (priority_list hth) else priority_list hth)\<rparr>"
  obtain k1 th1 where k1: "drop_donor E l h t k = Inr k1" "dom (threads k1) = dom (threads k)"
    "threads k1 = (threads k)(t \<mapsto> th1, h \<mapsto> ?hth)" "same_donor th th1"
    "p_elem th1 = (if lock_temp th = Some l then None else p_elem th)"
    "frames k1 = frames k" "cur k1 = cur k" "locks k1 = locks k"
    by (rule drop_donor_effect[OF t Cons.prems(1) ne(1)])
  have same: "waits_for k1 l u = waits_for k l u" if "u \<in> set ts" for u
    using that ne ok k1(3) by (auto simp: waits_for_def donors_ok_def)
  have ok1: "donors_ok k1 h ts"
    using ok ne k1(3) by (auto simp: donors_ok_def all_live_dom[OF k1(2)])
  define pre1 where "pre1 = (if lock_temp th = Some l then pre else pre @ [t])"
  have p: "priority_list ?hth = pre1 @ ts" "set pre1 \<inter> set ts = {}"
    using Cons.prems(3,4) ne by (auto simp: pre1_def remove1_append)
  have h1: "threads k1 h = Some ?hth" using k1(3) by simp
  obtain k' hth' where k': "fold_res (drop_donor E l h) ts k1 = Inr k'" "threads k' h = Some hth'"
    "hth' = ?hth\<lparr>priority_list := pre1 @ filter (\<lambda>t. \<not> waits_for k1 l t) ts\<rparr>"
    "\<forall>t. t \<noteq> h \<and> t \<notin> set ts \<longrightarrow> threads k' t = threads k1 t"
    "\<forall>t \<in> set ts. \<exists>th th'. threads k1 t = Some th \<and> threads k' t = Some th' \<and> same_donor th th' \<and>
        p_elem th' = (if waits_for k1 l t then None else p_elem th)"
    "frames k' = frames k1" "cur k' = cur k1" "locks k' = locks k1"
    using Cons.IH[OF h1 ok1 p] by auto
  have w: "waits_for k l t \<longleftrightarrow> lock_temp th = Some l" using t(1) by (simp add: waits_for_def)
  have f: "filter (\<lambda>t. \<not> waits_for k1 l t) ts = filter (\<lambda>t. \<not> waits_for k l t) ts"
    using same by (auto intro: filter_cong)
  have "hth' = hth\<lparr>priority_list := pre @ filter (\<lambda>t. \<not> waits_for k l t) (t # ts)\<rparr>"
    using k'(3) by (simp add: f w pre1_def)
  moreover have "\<exists>th th'. threads k u = Some th \<and> threads k' u = Some th' \<and> same_donor th th' \<and>
        p_elem th' = (if waits_for k l u then None else p_elem th)" if "u \<in> set (t # ts)" for u
  proof (cases "u = t")
    case True
    then show ?thesis using k'(4) k1(3,4,5) ne t(1) w by auto
  next
    case False
    with that have u: "u \<in> set ts" by simp
    with ok have "u \<noteq> h" by (auto simp: donors_ok_def)
    then show ?thesis using k'(5) u False same[OF u] k1(3) by auto
  qed
  moreover have "fold_res (drop_donor E l h) (t # ts) k = Inr k'" using k1(1) k'(1) by simp
  moreover have "threads k' u = threads k u" if "u \<noteq> h" "u \<notin> set (t # ts)" for u
    using that k'(4) k1(3) by simp
  ultimately show ?case using k'(2,6-8) k1(6-8) by auto
qed

text \<open>The priority the holder returns to.\<close>

lemma return_priority_effect:
  assumes h: "threads k h = Some th" and ok: "donors_ok k h (priority_list th)"
    and ts: "ts = filter (\<lambda>t. \<not> waits_for k l t) (priority_list th)"
  obtains k' where "return_priority E l h k = Inr k'"
    and "threads k' h = Some (th\<lparr>priority_list := ts, priority := (if ts = [] then prev_priority th else prio k (hd ts))\<rparr>)"
    and "\<forall>t \<in> set (priority_list th). waits_for k l t \<longrightarrow> map_option p_elem (threads k' t) = Some None"
    and "frames k' = frames k" and "cur k' = cur k"
proof -
  obtain k1 where k1: "fold_res (drop_donor E l h) (priority_list th) k = Inr k1"
    "threads k1 h = Some (th\<lparr>priority_list := ts\<rparr>)"
    "\<forall>t \<in> set (priority_list th). \<exists>th th'. threads k t = Some th \<and> threads k1 t = Some th' \<and> same_donor th th' \<and>
      p_elem th' = (if waits_for k l t then None else p_elem th)"
    "frames k1 = frames k" "cur k1 = cur k"
    using drop_donors[OF h ok, of "[]" E l] by (auto simp: ts)
  define p where "p = (if ts = [] then prev_priority th else prio k (hd ts))"
  define k2 where "k2 = upd_thread h (\<lambda>h. h\<lparr>priority := p\<rparr>) k1"
  have hd: "\<exists>dth. threads k1 (hd ts) = Some dth \<and> priority dth = prio k (hd ts)" if "ts \<noteq> []"
    using k1(3) hd_in_set[OF that] by (fastforce simp: prio_def same_donor_def ts)
  have all: "(if priority_list th \<noteq> [] then fold_res (drop_donor E l h) (priority_list th) k else Inr k) = Inr k1"
    using k1(1) by (cases "priority_list th") simp_all
  have "upd_thread h (\<lambda>h. h\<lparr>priority := prev_priority h\<rparr>) k1 = upd_thread h (\<lambda>h. h\<lparr>priority := prev_priority th\<rparr>) k1"
    using k1(2) by (simp add: upd_thread_def)
  then have "return_priority E l h k = Inr k2"
    using h all k1(2) hd by (cases ts) (auto simp: return_priority_def get_thread_def k2_def p_def)
  moreover have "h \<notin> set (priority_list th)" using ok by (simp add: donors_ok_def)
  ultimately show ?thesis using k1(2-5)
    by (intro that[of k2]) (auto simp: k2_def p_def threads_upd_thread frame_simps)
qed


text \<open>Thread 1 runs at a donated 50; thread 2 waits for lock 5, thread 3 for lock 6.\<close>

definition owing_kernel :: kernel where
  "owing_kernel = demo_kernel\<lparr>locks := [5 \<mapsto> \<lparr>holder = Some 1, donor = None\<rparr>],
     frames := (\<lambda>_. [])(1 := [Lock_Release LR_Enter 5, Client_Body]),
     threads := [1 \<mapsto> (demo_thread THREAD_RUNNING 31 0)\<lparr>priority := 50, priority_list := [2, 3]\<rparr>,
                 2 \<mapsto> (demo_thread THREAD_BLOCKED 50 0)\<lparr>lock_temp := Some 5, p_elem := Some 1\<rparr>,
                 3 \<mapsto> (demo_thread THREAD_BLOCKED 40 0)\<lparr>lock_temp := Some 6, p_elem := Some 1\<rparr>]\<rparr>"


section \<open>Two threads of the same priority\<close>

text \<open>
  \<open>main\<close> boots on page 2, the idle thread gets page 3 and a second thread page 4. In \<open>contend\<close> \<open>main\<close> takes
  lock 5 and lets the other thread run, in \<open>settle\<close> that thread waits for the lock, gets it and
  releases it.
\<close>

definition start_up :: "event list" where
  "start_up = [Run 15, Alloc 3, Run 26, Call (Thread_Create (TC_Enter ''t'' 31 Client)), Alloc 4, Run 16, New_Lock 5]"

definition contend :: "event list" where
  "contend = [Call (Lock_Acquire LA_Enter 5), Run 4, Call Thread_Yield, Run 2]"

definition settle :: "event list" where
  "settle = [Call (Lock_Acquire LA_Enter 5), Run 9, Call (Lock_Release LR_Enter 5), Run 9,
     Call (Lock_Release LR_Enter 5), Run 8]"

lemmas schedules = start_up_def contend_def settle_def boot_defs

text \<open>C12: Two threads of the same priority may not take turns with a lock: the donation of an equal priority
  is not undone by \<open>lock_release\<close>, so the donor stays on the list of the holder, and when it waits for
  that thread a second time the list is corrupted.\<close>

theorem second_wait_corrupts:
  "\<exists>k h. reachable k \<and> lock_holder k 5 = Some h \<and> h \<noteq> cur k \<and> prio k h = prio k (cur k) \<and>
     (\<exists>fs. frames k (cur k) = Lock_Acquire LA_Enlist 5 # fs) \<and> (\<forall>E. run_thread E k = Inl List_Corrupt)"
proof -
  let ?es = "start_up @ contend @ settle @ contend @ [Call (Lock_Acquire LA_Enter 5), Run 2]"
  have "\<exists>k. bind_res (boot 2) (play ?es) = Inr k \<and> lock_holder k 5 = Some 2 \<and> 2 \<noteq> cur k \<and>
      prio k 2 = prio k (cur k) \<and> (\<exists>fs. frames k (cur k) = Lock_Acquire LA_Enlist 5 # fs) \<and>
      (\<forall>E. run_thread E k = Inl List_Corrupt)"
    by (simp add: schedules machine lock_holder_def cong: weak_congs)
  then show ?thesis using play_reachable by blast
qed

text \<open>C13: A thread that once waited for a lock can bring the kernel down by waiting for anything else:
  \<open>semaphore_down\<close> follows the holder of the lock it remembers, and nobody holds that lock any more.\<close>

theorem wait_follows_null:
  "\<exists>k l fs. reachable k \<and> frames k (cur k) = Sema_Down (SD_Loop True) (Sema 7) # fs \<and>
     (\<exists>th. threads k (cur k) = Some th \<and> lock_temp th = Some l) \<and> lock_holder k l = None \<and>
     (\<forall>E. run_thread E k = Inl Bad_Pointer)"
proof -
  let ?es = "start_up @ contend @ settle @ [Call Thread_Yield, Run 2, New_Sema 7 0,
      Call (Sema_Down SD_Enter (Sema 7)), Run 1]"
  have "\<exists>k. bind_res (boot 2) (play ?es) = Inr k \<and>
     (\<exists>fs. frames k (cur k) = Sema_Down (SD_Loop True) (Sema 7) # fs) \<and>
     (\<exists>th. threads k (cur k) = Some th \<and> lock_temp th = Some 5) \<and> lock_holder k 5 = None \<and>
     (\<forall>E. run_thread E k = Inl Bad_Pointer)"
    by (simp add: schedules machine lock_holder_def cong: weak_congs)
  then show ?thesis using play_reachable by blast
qed

section \<open>The idle thread\<close>


end
