(* ===== verification/Sched_Sim.thy ===== *)
theory Sched_Sim
  imports Prelude "HOL-Library.Signed_Division"
begin

text \<open>
  \<open>Assignment4/scheduler.c\<close>: the callbacks of a CPU scheduling simulation. The simulator
  (\<open>sim_time\<close>, \<open>sim_dispatch\<close>, the threads themselves) and the queue library are not in the
  repository: a queue is a list, \<open>queue_sort\<close> is the parameter \<open>qs\<close>, the time of a callback
  is the argument \<open>now\<close>, and the calls to \<open>sim_dispatch\<close> are recorded. A \<open>thread_t\<close> is
  known by its identifier; times are mathematical integers.
\<close>

section \<open>State\<close>

text \<open>\<open>Other_Algorithm\<close> is any algorithm the code does not name; it leaves the queue in arrival order.\<close>

datatype algorithm =
    Other_Algorithm
  | ROUND_ROBIN
  | NON_PREEMPTIVE_PRIORITY
  | PREEMPTIVE_PRIORITY
  | NON_PREEMPTIVE_SHORTEST_JOB_FIRST
  | PREEMPTIVE_SHORTEST_JOB_FIRST
  | NON_PREEMPTIVE_SHORTEST_REMAINING_TIME_FIRST
  | PREEMPTIVE_SHORTEST_REMAINING_TIME_FIRST

record sim_thread =
  tid :: int
  priority :: int
  job_length :: int

record thread_extra =
  extra_tid :: int
  arrive_time :: int
  finish_time :: int
  start_time :: int
  waiting_time :: int
  remaining_time :: int
  tick_count :: int

record sim =
  ready_queue :: "sim_thread list"
  all_threads :: "thread_extra list"
  alg :: algorithm
  quant :: int
  current_thread :: "sim_thread option"
  dispatched :: "sim_thread list"

type_synonym comparator = "sim_thread \<Rightarrow> sim_thread \<Rightarrow> int"
type_synonym queue_sorter = "comparator \<Rightarrow> sim_thread list \<Rightarrow> sim_thread list"

section \<open>Looking up the statistics of a thread\<close>

definition inner_equalitor :: "thread_extra \<Rightarrow> sim_thread \<Rightarrow> bool" where
  "inner_equalitor outer inner \<longleftrightarrow> extra_tid outer = tid inner"

text \<open>\<open>queue_find\<close> gives the first match; what it gives is followed without a test for null.\<close>

definition find_extra :: "sim_thread \<Rightarrow> sim \<Rightarrow> thread_extra res" where
  "find_extra t s =
     (case filter (\<lambda>x. inner_equalitor x t) (all_threads s) of
        [] \<Rightarrow> Inl Bad_Pointer
      | x # _ \<Rightarrow> Inr x)"

fun upd_first :: "('a \<Rightarrow> bool) \<Rightarrow> ('a \<Rightarrow> 'a) \<Rightarrow> 'a list \<Rightarrow> 'a list" where
  "upd_first P f [] = []"
| "upd_first P f (x # xs) = (if P x then f x # xs else x # upd_first P f xs)"

definition upd_extra :: "sim_thread \<Rightarrow> (thread_extra \<Rightarrow> thread_extra) \<Rightarrow> sim \<Rightarrow> sim res" where
  "upd_extra t f s =
     bind_res (find_extra t s) (\<lambda>_.
       Inr (s\<lparr>all_threads := upd_first (\<lambda>x. inner_equalitor x t) f (all_threads s)\<rparr>))"

section \<open>The orders of the ready queue\<close>

definition priority_sort :: comparator where
  "priority_sort a b = priority a - priority b"

definition length_sort :: comparator where
  "length_sort a b = job_length a - job_length b"

definition remaining_of :: "sim \<Rightarrow> sim_thread \<Rightarrow> int" where
  "remaining_of s t = (case find_extra t s of Inl _ \<Rightarrow> 0 | Inr x \<Rightarrow> remaining_time x)"

definition remaining_sort :: "sim \<Rightarrow> comparator" where
  "remaining_sort s a b = remaining_of s a - remaining_of s b"

definition registered :: "sim \<Rightarrow> sim_thread \<Rightarrow> bool" where
  "registered s t \<longleftrightarrow> list_ex (\<lambda>x. inner_equalitor x t) (all_threads s)"

section \<open>The callbacks\<close>

definition scheduler :: "algorithm \<Rightarrow> int \<Rightarrow> sim" where
  "scheduler algorithm quantum =
     \<lparr>ready_queue = [], all_threads = [], alg = algorithm, quant = quantum,
      current_thread = None, dispatched = []\<rparr>"

definition sim_dispatch :: "sim_thread \<Rightarrow> sim \<Rightarrow> sim" where
  "sim_dispatch t s = s\<lparr>dispatched := dispatched s @ [t], current_thread := Some t\<rparr>"

text \<open>\<open>tick\<close>, stage by stage: order the ready queue, charge the running thread, preempt by the
  rule of the algorithm, fill an idle CPU.\<close>

definition resort :: "queue_sorter \<Rightarrow> sim \<Rightarrow> sim res" where
  "resort qs s =
     (if alg s \<in> {NON_PREEMPTIVE_PRIORITY, PREEMPTIVE_PRIORITY}
      then Inr (s\<lparr>ready_queue := qs priority_sort (ready_queue s)\<rparr>)
      else if alg s \<in> {NON_PREEMPTIVE_SHORTEST_JOB_FIRST, PREEMPTIVE_SHORTEST_JOB_FIRST}
      then Inr (s\<lparr>ready_queue := qs length_sort (ready_queue s)\<rparr>)
      else if alg s \<in> {NON_PREEMPTIVE_SHORTEST_REMAINING_TIME_FIRST,
                      PREEMPTIVE_SHORTEST_REMAINING_TIME_FIRST}
      then if \<not> list_all (registered s) (ready_queue s) then Inl Bad_Pointer
           else (let s = s\<lparr>ready_queue := qs (remaining_sort s) (ready_queue s)\<rparr>
                 in case current_thread s of
                      None \<Rightarrow> Inr s
                    | Some c \<Rightarrow> upd_extra c (\<lambda>x. x\<lparr>remaining_time := remaining_time x - 1\<rparr>) s)
      else Inr s)"

definition round_robin :: "int \<Rightarrow> sim \<Rightarrow> sim res" where
  "round_robin now s =
     (case current_thread s of
        None \<Rightarrow> Inr s
      | Some c \<Rightarrow>
          if alg s \<noteq> ROUND_ROBIN then Inr s
          else
            bind_res (upd_extra c (\<lambda>x. x\<lparr>tick_count := tick_count x + 1\<rparr>) s) (\<lambda>s.
            bind_res (find_extra c s) (\<lambda>x.
              if ready_queue s = [] \<and> tick_count x = quant s
              then upd_extra c (\<lambda>x. x\<lparr>tick_count := 0\<rparr>) s
              else if tick_count x = quant s
              then bind_res (upd_extra c (\<lambda>x. x\<lparr>tick_count := 0\<rparr>) s) (\<lambda>s.
                     let s = s\<lparr>ready_queue := ready_queue s @ [c]\<rparr>
                     in case ready_queue s of
                          [] \<Rightarrow> Inl Bad_Pointer
                        | t # ts \<Rightarrow>
                            bind_res (upd_extra t (\<lambda>x. x\<lparr>tick_count := 0,
                                waiting_time := waiting_time x + (now - start_time x)\<rparr>)
                              (s\<lparr>ready_queue := ts\<rparr>)) (\<lambda>s.
                            bind_res (upd_extra c (\<lambda>x. x\<lparr>start_time := now\<rparr>) s) (\<lambda>s.
                              Inr (sim_dispatch t s))))
              else Inr s)))"

text \<open>The switch the preemptive algorithms share: the head of the queue runs, the running thread
  goes to the tail.\<close>

definition swap_in :: "int \<Rightarrow> sim_thread \<Rightarrow> sim_thread \<Rightarrow> sim \<Rightarrow> sim res" where
  "swap_in now t c s =
     bind_res (upd_extra t (\<lambda>x. x\<lparr>waiting_time := waiting_time x + (now - start_time x)\<rparr>) s) (\<lambda>s.
     bind_res (upd_extra c (\<lambda>x. x\<lparr>start_time := now\<rparr>) s) (\<lambda>s.
       Inr (sim_dispatch t (s\<lparr>ready_queue := tl (ready_queue s @ [c])\<rparr>))))"

definition preempt_by :: "(sim_thread \<Rightarrow> int) \<Rightarrow> int \<Rightarrow> sim \<Rightarrow> sim res" where
  "preempt_by key now s =
     (case (ready_queue s, current_thread s) of
        (t # ts, Some c) \<Rightarrow> if key c > key t then swap_in now t c s else Inr s
      | _ \<Rightarrow> Inr s)"

definition preempt_remaining :: "int \<Rightarrow> sim \<Rightarrow> sim res" where
  "preempt_remaining now s =
     (case ready_queue s of
        [] \<Rightarrow> Inr s
      | t # ts \<Rightarrow>
          bind_res (find_extra t s) (\<lambda>next_pjrt.
            case current_thread s of
              None \<Rightarrow> Inr s
            | Some c \<Rightarrow>
                bind_res (find_extra c s) (\<lambda>cur_pjrt.
                  if remaining_time next_pjrt \<le> remaining_time cur_pjrt
                  then bind_res (swap_in now t c s) (\<lambda>s.
                       bind_res (upd_extra t (\<lambda>x. x\<lparr>remaining_time := remaining_time x - 1\<rparr>) s) (\<lambda>s.
                         upd_extra c (\<lambda>x. x\<lparr>remaining_time := remaining_time x + 1\<rparr>) s))
                  else Inr s)))"

definition fill_cpu :: "int \<Rightarrow> sim \<Rightarrow> sim res" where
  "fill_cpu now s =
     (case (current_thread s, ready_queue s) of
        (None, t # ts) \<Rightarrow>
          bind_res (upd_extra t (\<lambda>x. x\<lparr>waiting_time := waiting_time x + (now - start_time x)\<rparr>)
            (s\<lparr>ready_queue := ts\<rparr>)) (\<lambda>s.
          bind_res (if alg s = ROUND_ROBIN then upd_extra t (\<lambda>x. x\<lparr>tick_count := 0\<rparr>) s else Inr s) (\<lambda>s.
          let s = sim_dispatch t s
          in if alg s \<in> {NON_PREEMPTIVE_SHORTEST_REMAINING_TIME_FIRST,
                         PREEMPTIVE_SHORTEST_REMAINING_TIME_FIRST}
             then upd_extra t (\<lambda>x. x\<lparr>remaining_time := remaining_time x - 1\<rparr>) s
             else Inr s))
      | _ \<Rightarrow> Inr s)"

definition preempt :: "int \<Rightarrow> sim \<Rightarrow> sim res" where
  "preempt now s =
     (if alg s = PREEMPTIVE_PRIORITY then preempt_by priority now s
      else if alg s = PREEMPTIVE_SHORTEST_JOB_FIRST then preempt_by job_length now s
      else if alg s = PREEMPTIVE_SHORTEST_REMAINING_TIME_FIRST then preempt_remaining now s
      else Inr s)"

definition tick :: "queue_sorter \<Rightarrow> int \<Rightarrow> sim \<Rightarrow> sim res" where
  "tick qs now s =
     bind_res (resort qs s) (\<lambda>s.
     bind_res (round_robin now s) (\<lambda>s.
     bind_res (preempt now s) (fill_cpu now)))"

text \<open>The two fields \<open>sys_exec\<close> does not set keep what was in the allocated memory.\<close>

definition sys_exec_sim :: "int \<times> int \<Rightarrow> int \<Rightarrow> sim_thread \<Rightarrow> sim \<Rightarrow> sim" where
  "sys_exec_sim garbage now t s =
     s\<lparr>ready_queue := ready_queue s @ [t],
       all_threads := all_threads s @
         [\<lparr>extra_tid = tid t, arrive_time = now, finish_time = fst garbage, start_time = now, waiting_time = 0,
           remaining_time = job_length t, tick_count = snd garbage\<rparr>]\<rparr>"

definition sys_exit_sim :: "int \<Rightarrow> sim_thread \<Rightarrow> sim \<Rightarrow> sim res" where
  "sys_exit_sim now t s =
     bind_res (upd_extra t (\<lambda>x. x\<lparr>finish_time := now + 1\<rparr>) s) (\<lambda>s. Inr (s\<lparr>current_thread := None\<rparr>))"

definition sys_read_sim :: "int \<Rightarrow> sim_thread \<Rightarrow> sim \<Rightarrow> sim res" where
  "sys_read_sim now t s =
     bind_res (upd_extra t (\<lambda>x. x\<lparr>start_time := now + 1\<rparr>) s) (\<lambda>s. Inr (s\<lparr>current_thread := None\<rparr>))"

definition sys_write_sim :: "int \<Rightarrow> sim_thread \<Rightarrow> sim \<Rightarrow> sim res" where
  "sys_write_sim now t s =
     bind_res (upd_extra t (\<lambda>x. x\<lparr>start_time := now + 1\<rparr>) s) (\<lambda>s. Inr (s\<lparr>current_thread := None\<rparr>))"

definition io_complete :: "int \<Rightarrow> sim_thread \<Rightarrow> sim \<Rightarrow> sim res" where
  "io_complete now t s =
     bind_res (upd_extra t (\<lambda>x. x\<lparr>start_time := now + 1\<rparr>) s) (\<lambda>s.
       Inr (s\<lparr>ready_queue := ready_queue s @ [t]\<rparr>))"

definition io_starting :: "int \<Rightarrow> sim_thread \<Rightarrow> sim \<Rightarrow> sim res" where
  "io_starting now t s =
     upd_extra t (\<lambda>x. x\<lparr>waiting_time := waiting_time x + (now - start_time x)\<rparr>) s"

record thread_stats =
  stat_tid :: int
  stat_waiting_time :: int
  stat_turnaround_time :: int

record sim_stats =
  thread_count :: int
  tstats :: "thread_stats list"
  mean_waiting_time :: int
  mean_turnaround_time :: int

definition thread_stats_of :: "thread_extra \<Rightarrow> thread_stats" where
  "thread_stats_of t =
     \<lparr>stat_tid = extra_tid t, stat_waiting_time = waiting_time t,
      stat_turnaround_time = finish_time t - arrive_time t\<rparr>"

text \<open>The averages divide by the number of threads, which is a fault when there are none.\<close>

definition stats :: "sim \<Rightarrow> (sim_stats \<times> sim) res" where
  "stats s =
     (let n = int (length (all_threads s));
          ts = map thread_stats_of (all_threads s)
      in if n = 0 then Inl Div_By_Zero
         else Inr (\<lparr>thread_count = n, tstats = ts,
                    mean_waiting_time = sum_list (map stat_waiting_time ts) sdiv n,
                    mean_turnaround_time = sum_list (map stat_turnaround_time ts) sdiv n\<rparr>,
                   s\<lparr>all_threads := []\<rparr>))"


section \<open>The statistics of registered threads\<close>

definition queue_sort_ok :: "queue_sorter \<Rightarrow> bool" where
  "queue_sort_ok qs \<longleftrightarrow>
     (\<forall>key xs. mset (qs (\<lambda>a b. key a - key b) xs) = mset xs \<and>
        sorted_wrt (\<lambda>a b. key a \<le> key b) (qs (\<lambda>a b. key a - key b) xs))"

lemma registered_iff: "registered s t \<longleftrightarrow> (\<exists>x. find_extra t s = Inr x)"
proof -
  have "list_ex P xs \<longleftrightarrow> filter P xs \<noteq> []" for P and xs :: "thread_extra list"
    by (induction xs) auto
  then show ?thesis by (simp add: registered_def find_extra_def split: list.splits)
qed

lemma registered_tid: "registered s t \<longleftrightarrow> tid t \<in> set (map extra_tid (all_threads s))"
  by (auto simp: registered_def list_ex_iff inner_equalitor_def intro: rev_image_eqI)

lemma filter_upd_first:
  assumes "\<And>x. extra_tid (f x) = extra_tid x"
  shows "filter (\<lambda>x. inner_equalitor x u) (upd_first (\<lambda>x. inner_equalitor x t) f xs) =
     (if tid u = tid t
      then (case filter (\<lambda>x. inner_equalitor x t) xs of [] \<Rightarrow> [] | x # ys \<Rightarrow> f x # ys)
      else filter (\<lambda>x. inner_equalitor x u) xs)"
  using assms by (induction xs) (auto simp: inner_equalitor_def split: list.splits)

text \<open>An update of the statistics of a registered thread.\<close>

lemma upd_extra_ok:
  assumes t: "registered s t" and f: "\<And>x. extra_tid (f x) = extra_tid x"
  obtains A where "upd_extra t f s = Inr (s\<lparr>all_threads := A\<rparr>)"
    and "map extra_tid A = map extra_tid (all_threads s)"
    and "\<And>u s'. all_threads s' = A \<Longrightarrow> find_extra u s' =
      (if tid u = tid t then map_sum id f (find_extra t s) else find_extra u s)"
proof
  let ?A = "upd_first (\<lambda>x. inner_equalitor x t) f (all_threads s)"
  show "upd_extra t f s = Inr (s\<lparr>all_threads := ?A\<rparr>)"
    using t by (auto simp: upd_extra_def registered_iff)
  have "map extra_tid (upd_first P f xs) = map extra_tid xs" for P and xs
    using f by (induction xs) auto
  then show "map extra_tid ?A = map extra_tid (all_threads s)" .
  show "find_extra u s' = (if tid u = tid t then map_sum id f (find_extra t s) else find_extra u s)"
    if "all_threads s' = ?A" for u s'
    by (simp add: find_extra_def that filter_upd_first[OF f] split: list.splits)
qed

lemma registered_cong:
  "map extra_tid (all_threads s') = map extra_tid (all_threads s) \<Longrightarrow> registered s' = registered s"
  by (simp add: fun_eq_iff registered_tid)

section \<open>The invariant of the simulation\<close>

definition running :: "sim \<Rightarrow> sim_thread list" where
  "running s = (case current_thread s of None \<Rightarrow> [] | Some c \<Rightarrow> [c])"

definition sim_ok :: "sim \<Rightarrow> bool" where
  "sim_ok s \<longleftrightarrow>
     distinct (map extra_tid (all_threads s)) \<and> distinct (map tid (running s @ ready_queue s)) \<and>
     list_all (registered s) (running s @ ready_queue s)"

text \<open>What a stage of \<open>tick\<close> may do: statistics change, threads move between CPU and queue.\<close>

definition moves :: "sim \<Rightarrow> sim \<Rightarrow> bool" where
  "moves s s' \<longleftrightarrow>
     map extra_tid (all_threads s') = map extra_tid (all_threads s) \<and>
     mset (running s' @ ready_queue s') = mset (running s @ ready_queue s) \<and>
     alg s' = alg s \<and> quant s' = quant s"

lemma moves_refl [simp]: "moves s s"
  by (simp add: moves_def)

lemma moves_trans: "moves s s1 \<Longrightarrow> moves s1 s2 \<Longrightarrow> moves s s2"
  by (simp add: moves_def)

lemma moves_ok: "moves s s' \<Longrightarrow> sim_ok s \<Longrightarrow> sim_ok s'"
proof -
  assume m: "moves s s'" and ok: "sim_ok s"
  have ms: "mset (running s' @ ready_queue s') = mset (running s @ ready_queue s)"
    using m by (simp add: moves_def)
  have "mset (map tid (running s' @ ready_queue s')) = mset (map tid (running s @ ready_queue s))"
    using ms by (metis mset_map)
  then have "distinct (map tid (running s' @ ready_queue s'))"
    using ok mset_eq_imp_distinct_iff unfolding sim_ok_def by blast
  moreover have "set (running s' @ ready_queue s') = set (running s @ ready_queue s)"
    using ms by (rule mset_eq_setD)
  ultimately show ?thesis
    using m ok registered_cong[of s' s] unfolding sim_ok_def moves_def list_all_iff by simp
qed

lemma upd_moves:
  assumes "registered s t" and "\<And>x. extra_tid (f x) = extra_tid x"
  shows "\<exists>s'. upd_extra t f s = Inr s' \<and> moves s s' \<and> running s' = running s \<and>
     ready_queue s' = ready_queue s \<and> dispatched s' = dispatched s"
proof -
  obtain A where "upd_extra t f s = Inr (s\<lparr>all_threads := A\<rparr>)"
    "map extra_tid A = map extra_tid (all_threads s)"
    using upd_extra_ok[OF assms] by metis
  then show ?thesis by (simp add: moves_def running_def)
qed

lemma sim_okD:
  "sim_ok s \<Longrightarrow> current_thread s = Some c \<Longrightarrow> registered s c"
  "sim_ok s \<Longrightarrow> t \<in> set (ready_queue s) \<Longrightarrow> registered s t"
  "sim_ok s \<Longrightarrow> current_thread s = Some c \<Longrightarrow> t \<in> set (ready_queue s) \<Longrightarrow> tid t \<noteq> tid c"
  by (auto simp: sim_ok_def list_all_iff running_def intro: rev_image_eqI)

section \<open>The stages of a tick\<close>

lemma sort_key:
  assumes "queue_sort_ok qs"
  shows "mset (qs (\<lambda>a b. key a - key b) xs) = mset xs"
    and "sorted_wrt (\<lambda>a b. key a \<le> key b) (qs (\<lambda>a b. key a - key b) xs)"
  using assms by (auto simp: queue_sort_ok_def)

lemma sorts:
  assumes "queue_sort_ok qs"
  shows "mset (qs priority_sort xs) = mset xs" "sorted_wrt (\<lambda>a b. priority a \<le> priority b) (qs priority_sort xs)"
    "mset (qs length_sort xs) = mset xs" "sorted_wrt (\<lambda>a b. job_length a \<le> job_length b) (qs length_sort xs)"
    "mset (qs (remaining_sort s) xs) = mset xs"
    "sorted_wrt (\<lambda>a b. remaining_of s a \<le> remaining_of s b) (qs (remaining_sort s) xs)"
  using sort_key[OF assms, of priority] sort_key[OF assms, of job_length] sort_key[OF assms, of "remaining_of s"]
  by (simp_all add: priority_sort_def[abs_def] length_sort_def[abs_def] remaining_sort_def[abs_def])

lemma requeue_moves: "mset ts = mset (ready_queue s) \<Longrightarrow> moves s (s\<lparr>ready_queue := ts\<rparr>)"
  by (simp add: moves_def running_def)

lemma resort_total:
  assumes ok: "sim_ok s" and qs: "queue_sort_ok qs"
  shows "\<exists>s'. resort qs s = Inr s' \<and> moves s s' \<and> running s' = running s \<and> dispatched s' = dispatched s"
proof (cases "alg s \<in> {NON_PREEMPTIVE_SHORTEST_REMAINING_TIME_FIRST, PREEMPTIVE_SHORTEST_REMAINING_TIME_FIRST}")
  case True
  define s1 where "s1 = s\<lparr>ready_queue := qs (remaining_sort s) (ready_queue s)\<rparr>"
  have m1: "moves s s1" and r1: "running s1 = running s" "dispatched s1 = dispatched s"
    by (simp_all add: s1_def requeue_moves sorts[OF qs] running_def)
  have reg: "list_all (registered s) (ready_queue s)" using ok by (simp add: sim_ok_def)
  show ?thesis
  proof (cases "current_thread s")
    case None
    then have "resort qs s = Inr s1" using True reg by (auto simp: resort_def s1_def Let_def)
    then show ?thesis using m1 r1 by blast
  next
    case (Some c)
    have "registered s1 c"
      using sim_okD(1)[OF ok Some] registered_cong[of s1 s] m1 by (simp add: moves_def)
    from upd_moves[OF this, of "\<lambda>x. x\<lparr>remaining_time := remaining_time x - 1\<rparr>"]
    obtain s2 where "upd_extra c (\<lambda>x. x\<lparr>remaining_time := remaining_time x - 1\<rparr>) s1 = Inr s2"
      "moves s1 s2" "running s2 = running s1" "dispatched s2 = dispatched s1" by auto
    moreover from this have "resort qs s = Inr s2"
      using True reg Some by (auto simp: resort_def s1_def Let_def)
    ultimately show ?thesis using m1 r1 moves_trans by metis
  qed
next
  case False
  then show ?thesis
    by (auto simp: resort_def running_def intro!: requeue_moves sorts[OF qs])
qed

lemma swap_in_moves:
  assumes ok: "sim_ok s" and r: "ready_queue s = t # ts" and c: "current_thread s = Some c"
  shows "\<exists>s'. swap_in now t c s = Inr s' \<and> moves s s' \<and> current_thread s' = Some t \<and>
     ready_queue s' = ts @ [c] \<and> (\<forall>u. remaining_of s' u = remaining_of s u)"
proof -
  have reg: "registered s t" "registered s c" using sim_okD[OF ok] r c by auto
  let ?f = "\<lambda>x. x\<lparr>waiting_time := waiting_time x + (now - start_time x)\<rparr>"
  obtain A where A: "upd_extra t ?f s = Inr (s\<lparr>all_threads := A\<rparr>)"
    "map extra_tid A = map extra_tid (all_threads s)"
    "\<And>u s'. all_threads s' = A \<Longrightarrow> find_extra u s' =
      (if tid u = tid t then map_sum id ?f (find_extra t s) else find_extra u s)"
    using upd_extra_ok[OF reg(1), of ?f] by auto
  let ?s1 = "s\<lparr>all_threads := A\<rparr>"
  have "registered ?s1 c" using reg(2) registered_cong[of ?s1 s] A(2) by simp
  then obtain B where B: "upd_extra c (\<lambda>x. x\<lparr>start_time := now\<rparr>) ?s1 = Inr (?s1\<lparr>all_threads := B\<rparr>)"
    "map extra_tid B = map extra_tid A"
    "\<And>u s'. all_threads s' = B \<Longrightarrow> find_extra u s' =
      (if tid u = tid c then map_sum id (\<lambda>x. x\<lparr>start_time := now\<rparr>) (find_extra c ?s1) else find_extra u ?s1)"
    using upd_extra_ok[of ?s1 c "\<lambda>x. x\<lparr>start_time := now\<rparr>"] by auto
  let ?s = "sim_dispatch t (s\<lparr>all_threads := B, ready_queue := ts @ [c]\<rparr>)"
  have same_tid: "tid u = tid v \<Longrightarrow> find_extra u s = find_extra v s" for u v
    by (simp add: find_extra_def inner_equalitor_def)
  have fB: "find_extra u ?s =
      (if tid u = tid c then map_sum id (\<lambda>x. x\<lparr>start_time := now\<rparr>) (find_extra c ?s1) else find_extra u ?s1)" for u
    by (rule B(3)) (simp add: sim_dispatch_def)
  have fA: "find_extra u ?s1 = (if tid u = tid t then map_sum id ?f (find_extra t s) else find_extra u s)" for u
    by (rule A(3)) simp
  have "remaining_of ?s u = remaining_of s u" for u
    using same_tid[of u t] same_tid[of u c] same_tid[of c t]
    unfolding remaining_of_def fB fA by (auto split: sum.splits)
  moreover have "swap_in now t c s = Inr ?s"
    using A(1) B(1) by (simp add: swap_in_def r)
  ultimately show ?thesis using A(2) B(2)
    by (auto simp: moves_def running_def sim_dispatch_def r c)
qed

end
