(* ===== verification/Sched_Props.thy ===== *)
theory Sched_Props
  imports Sched_Sim
begin

text \<open>
  Properties of the simulated schedulers of Assignment 4: a clock tick cannot fail and loses no
  thread, the CPU is never idle while a thread is ready, the preemptive algorithms run the best
  thread, round robin respects its quantum, the others never preempt.
\<close>

section \<open>Updates and what they leave alone\<close>

lemma upd_find:
  assumes "registered s t" and "\<And>x. extra_tid (f x) = extra_tid x"
  shows "\<exists>s'. upd_extra t f s = Inr s' \<and> moves s s' \<and> current_thread s' = current_thread s \<and>
     ready_queue s' = ready_queue s \<and> dispatched s' = dispatched s \<and> registered s' = registered s \<and>
     (\<forall>u. find_extra u s' = (if tid u = tid t then map_sum id f (find_extra t s) else find_extra u s))"
proof -
  obtain A where A: "upd_extra t f s = Inr (s\<lparr>all_threads := A\<rparr>)"
    "map extra_tid A = map extra_tid (all_threads s)"
    "\<And>u s'. all_threads s' = A \<Longrightarrow> find_extra u s' =
      (if tid u = tid t then map_sum id f (find_extra t s) else find_extra u s)"
    using upd_extra_ok[OF assms] by metis
  have "\<forall>u. find_extra u (s\<lparr>all_threads := A\<rparr>) =
      (if tid u = tid t then map_sum id f (find_extra t s) else find_extra u s)"
    by (intro allI A(3)) simp
  then show ?thesis using A(1,2) registered_cong[of "s\<lparr>all_threads := A\<rparr>" s]
    by (simp add: moves_def running_def)
qed

definition ticks_of :: "sim \<Rightarrow> sim_thread \<Rightarrow> int" where
  "ticks_of s t = (case find_extra t s of Inl _ \<Rightarrow> 0 | Inr x \<Rightarrow> tick_count x)"

lemma find_same: "tid u = tid v \<Longrightarrow> find_extra u s = find_extra v s"
  by (simp add: find_extra_def inner_equalitor_def)

lemma find_frame [simp]:
  "find_extra u (s\<lparr>ready_queue := ts\<rparr>) = find_extra u s"
  "find_extra u (s\<lparr>current_thread := c\<rparr>) = find_extra u s"
  "find_extra u (sim_dispatch t s) = find_extra u s"
  "registered (s\<lparr>ready_queue := ts\<rparr>) = registered s"
  "registered (sim_dispatch t s) = registered s"
  by (simp_all add: find_extra_def sim_dispatch_def registered_def fun_eq_iff)

section \<open>Round robin\<close>

lemma round_robin_switch:
  assumes ok: "sim_ok s" and c: "current_thread s = Some c" and r: "ready_queue s = t # ts"
  shows "\<exists>s'. bind_res (upd_extra c (\<lambda>x. x\<lparr>tick_count := 0\<rparr>) s) (\<lambda>s.
        let s = s\<lparr>ready_queue := ready_queue s @ [c]\<rparr>
        in case ready_queue s of
             [] \<Rightarrow> Inl Bad_Pointer
           | t # ts \<Rightarrow>
               bind_res (upd_extra t (\<lambda>x. x\<lparr>tick_count := 0,
                   waiting_time := waiting_time x + (now - start_time x)\<rparr>)
                 (s\<lparr>ready_queue := ts\<rparr>)) (\<lambda>s.
               bind_res (upd_extra c (\<lambda>x. x\<lparr>start_time := now\<rparr>) s) (\<lambda>s.
                 Inr (sim_dispatch t s)))) = Inr s' \<and>
     moves s s' \<and> current_thread s' = Some t \<and> ticks_of s' t = 0"
proof -
  have reg: "registered s c" "registered s t" using sim_okD[OF ok] c r by auto
  obtain s1 where s1: "upd_extra c (\<lambda>x. x\<lparr>tick_count := 0\<rparr>) s = Inr s1" "moves s s1"
    "current_thread s1 = Some c" "ready_queue s1 = t # ts" "registered s1 = registered s"
    using upd_find[OF reg(1), of "\<lambda>x. x\<lparr>tick_count := 0\<rparr>"] c r by auto
  let ?f = "\<lambda>x. x\<lparr>tick_count := 0, waiting_time := waiting_time x + (now - start_time x)\<rparr>"
  let ?s1 = "s1\<lparr>ready_queue := ts @ [c]\<rparr>"
  obtain s2 where s2: "upd_extra t ?f ?s1 = Inr s2" "moves ?s1 s2" "current_thread s2 = Some c"
    "ready_queue s2 = ts @ [c]" "registered s2 = registered ?s1"
    "\<And>u. find_extra u s2 = (if tid u = tid t then map_sum id ?f (find_extra t ?s1) else find_extra u ?s1)"
    using upd_find[of ?s1 t ?f] reg(2) s1(3,5) by auto
  obtain s3 where s3: "upd_extra c (\<lambda>x. x\<lparr>start_time := now\<rparr>) s2 = Inr s3" "moves s2 s3"
    "ready_queue s3 = ts @ [c]"
    "\<And>u. find_extra u s3 = (if tid u = tid c then map_sum id (\<lambda>x. x\<lparr>start_time := now\<rparr>) (find_extra c s2)
       else find_extra u s2)"
    using upd_find[of s2 c "\<lambda>x. x\<lparr>start_time := now\<rparr>"] reg(1) s1(5) s2(4,5) by auto
  have ne: "tid t \<noteq> tid c" using sim_okD(3)[OF ok c, of t] r by simp
  have "ticks_of (sim_dispatch t s3) t = 0"
    using ne by (simp add: ticks_of_def s3(4) s2(6) split: sum.splits)
      (cases "find_extra t s1"; simp)
  moreover have "moves s (sim_dispatch t s3)"
    using s1(2) s2(2) s3(2) s1(3,4) s2(3,4) s3(3) c r
    by (simp add: moves_def running_def sim_dispatch_def)
  ultimately show ?thesis using s1(1,4) s2(1) s3(1)
    by (simp add: sim_dispatch_def Let_def)
qed

lemma round_robin_total:
  assumes ok: "sim_ok s"
  shows "\<exists>s'. round_robin now s = Inr s' \<and> moves s s' \<and>
     (alg s \<noteq> ROUND_ROBIN \<or> current_thread s = None \<longrightarrow> s' = s) \<and>
     (alg s = ROUND_ROBIN \<longrightarrow> 0 < quant s \<longrightarrow> (\<forall>c. current_thread s = Some c \<longrightarrow> ticks_of s c < quant s) \<longrightarrow>
        (\<forall>c. current_thread s' = Some c \<longrightarrow> ticks_of s' c < quant s))"
proof (cases "alg s = ROUND_ROBIN \<and> current_thread s \<noteq> None")
  case False
  then show ?thesis by (auto simp: round_robin_def split: option.splits)
next
  case True
  then obtain c where c: "current_thread s = Some c" by blast
  let ?inc = "\<lambda>x. x\<lparr>tick_count := tick_count x + 1\<rparr>"
  have reg: "registered s c" using sim_okD(1)[OF ok c] .
  then obtain x where x: "find_extra c s = Inr x" by (auto simp: registered_iff)
  obtain s1 where s1: "upd_extra c ?inc s = Inr s1" "moves s s1" "current_thread s1 = Some c"
    "ready_queue s1 = ready_queue s" "registered s1 = registered s" "find_extra c s1 = Inr (?inc x)"
    using upd_find[OF reg, of ?inc] c x by auto
  have ok1: "sim_ok s1" using moves_ok[OF s1(2) ok] .
  have q: "quant s1 = quant s" using s1(2) by (simp add: moves_def)
  have t: "ticks_of s c = tick_count x" by (simp add: ticks_of_def x)
  consider (reset) "ready_queue s = []" "tick_count x + 1 = quant s"
    | (switch) t ts where "ready_queue s = t # ts" "tick_count x + 1 = quant s"
    | (go) "tick_count x + 1 \<noteq> quant s" by (cases "ready_queue s") auto
  then show ?thesis
  proof cases
    case reset
    obtain s2 where s2: "upd_extra c (\<lambda>x. x\<lparr>tick_count := 0\<rparr>) s1 = Inr s2" "moves s1 s2"
      "current_thread s2 = Some c" "find_extra c s2 = Inr (?inc x\<lparr>tick_count := 0\<rparr>)"
      using upd_find[of s1 c "\<lambda>x. x\<lparr>tick_count := 0\<rparr>"] reg s1 by auto
    have "round_robin now s = Inr s2"
      using True c s1(1,4,6) reset q s2(1) by (simp add: round_robin_def)
    moreover have "ticks_of s2 c = 0" by (simp add: ticks_of_def s2(4))
    ultimately show ?thesis using moves_trans[OF s1(2) s2(2)] s2(3) True by auto
  next
    case switch
    from round_robin_switch[OF ok1 s1(3), of t ts now] s1(4) switch(1)
    obtain s2 where s2: "bind_res (upd_extra c (\<lambda>x. x\<lparr>tick_count := 0\<rparr>) s1) (\<lambda>s.
        let s = s\<lparr>ready_queue := ready_queue s @ [c]\<rparr>
        in case ready_queue s of
             [] \<Rightarrow> Inl Bad_Pointer
           | t # ts \<Rightarrow>
               bind_res (upd_extra t (\<lambda>x. x\<lparr>tick_count := 0,
                   waiting_time := waiting_time x + (now - start_time x)\<rparr>)
                 (s\<lparr>ready_queue := ts\<rparr>)) (\<lambda>s.
               bind_res (upd_extra c (\<lambda>x. x\<lparr>start_time := now\<rparr>) s) (\<lambda>s.
                 Inr (sim_dispatch t s)))) = Inr s2"
      "moves s1 s2" "current_thread s2 = Some t" "ticks_of s2 t = 0" by auto
    have "round_robin now s = Inr s2"
      using True c s1(1,4,6) switch q s2(1) by (simp add: round_robin_def)
    then show ?thesis using moves_trans[OF s1(2) s2(2)] s2(3,4) True by auto
  next
    case go
    have "round_robin now s = Inr s1"
      using True c s1(1,6) go q by (simp add: round_robin_def)
    moreover have "ticks_of s1 c = tick_count x + 1" by (simp add: ticks_of_def s1(6))
    ultimately show ?thesis using s1(2,3) True c t go by auto
  qed
qed


section \<open>Preemption\<close>

definition best :: "(sim_thread \<Rightarrow> int) \<Rightarrow> sim \<Rightarrow> bool" where
  "best key s \<longleftrightarrow> (\<forall>c. current_thread s = Some c \<longrightarrow> (\<forall>t \<in> set (ready_queue s). key c \<le> key t))"

definition ordered :: "(sim_thread \<Rightarrow> int) \<Rightarrow> sim \<Rightarrow> bool" where
  "ordered key s \<longleftrightarrow> sorted_wrt (\<lambda>a b. key a \<le> key b) (ready_queue s)"

lemma preempt_by_total:
  assumes ok: "sim_ok s"
  shows "\<exists>s'. preempt_by key now s = Inr s' \<and> moves s s' \<and> (current_thread s = None \<longrightarrow> s' = s) \<and>
     (current_thread s \<noteq> None \<longrightarrow> current_thread s' \<noteq> None) \<and> (ordered key s \<longrightarrow> best key s')"
proof (cases "\<exists>t ts c. ready_queue s = t # ts \<and> current_thread s = Some c \<and> key c > key t")
  case True
  then obtain t ts c where r: "ready_queue s = t # ts" and c: "current_thread s = Some c" and k: "key c > key t"
    by blast
  obtain s' where s': "swap_in now t c s = Inr s'" "moves s s'" "current_thread s' = Some t"
    "ready_queue s' = ts @ [c]" using swap_in_moves[OF ok r c] by blast
  then show ?thesis using r c k
    by (auto simp: preempt_by_def ordered_def best_def)
next
  case False
  have "preempt_by key now s = Inr s"
    using False by (auto simp: preempt_by_def split: list.splits option.splits)
  moreover have "ordered key s \<longrightarrow> best key s"
    using False by (cases "ready_queue s") (force simp: ordered_def best_def not_less)+
  ultimately show ?thesis by auto
qed

lemma preempt_remaining_total:
  assumes ok: "sim_ok s"
  shows "\<exists>s'. preempt_remaining now s = Inr s' \<and> moves s s' \<and> (current_thread s = None \<longrightarrow> s' = s) \<and>
     (current_thread s \<noteq> None \<longrightarrow> current_thread s' \<noteq> None) \<and>
     (ordered (remaining_of s) s \<longrightarrow> best (remaining_of s') s')"
proof (cases "ready_queue s")
  case Nil
  then show ?thesis by (auto simp: preempt_remaining_def best_def)
next
  case (Cons t ts)
  have rt: "registered s t" using sim_okD(2)[OF ok, of t] Cons by simp
  then obtain x where x: "find_extra t s = Inr x" by (auto simp: registered_iff)
  show ?thesis
  proof (cases "current_thread s")
    case None
    then show ?thesis using Cons x by (auto simp: preempt_remaining_def best_def)
  next
    case (Some c)
    have rc: "registered s c" using sim_okD(1)[OF ok Some] .
    then obtain y where y: "find_extra c s = Inr y" by (auto simp: registered_iff)
    have rem: "remaining_of s t = remaining_time x" "remaining_of s c = remaining_time y"
      by (simp_all add: remaining_of_def x y)
    show ?thesis
    proof (cases "remaining_time x \<le> remaining_time y")
      case False
      then have "preempt_remaining now s = Inr s" using Cons Some x y by (simp add: preempt_remaining_def)
      moreover have "ordered (remaining_of s) s \<longrightarrow> best (remaining_of s) s"
        using False Cons Some rem by (force simp: ordered_def best_def)
      ultimately show ?thesis by auto
    next
      case True
      obtain s1 where s1: "swap_in now t c s = Inr s1" "moves s s1" "current_thread s1 = Some t"
        "ready_queue s1 = ts @ [c]" "\<And>u. remaining_of s1 u = remaining_of s u"
        using swap_in_moves[OF ok Cons Some] by blast
      have reg1: "registered s1 t" "registered s1 c"
        using rt rc s1(2) registered_cong[of s1 s] by (simp_all add: moves_def)
      obtain s2 where s2: "upd_extra t (\<lambda>x. x\<lparr>remaining_time := remaining_time x - 1\<rparr>) s1 = Inr s2"
        "moves s1 s2" "current_thread s2 = Some t" "ready_queue s2 = ts @ [c]" "registered s2 = registered s1"
        "\<And>u. find_extra u s2 = (if tid u = tid t
           then map_sum id (\<lambda>x. x\<lparr>remaining_time := remaining_time x - 1\<rparr>) (find_extra t s1) else find_extra u s1)"
        using upd_find[OF reg1(1), of "\<lambda>x. x\<lparr>remaining_time := remaining_time x - 1\<rparr>"] s1(3,4) by auto
      obtain s3 where s3: "upd_extra c (\<lambda>x. x\<lparr>remaining_time := remaining_time x + 1\<rparr>) s2 = Inr s3"
        "moves s2 s3" "current_thread s3 = Some t" "ready_queue s3 = ts @ [c]"
        "\<And>u. find_extra u s3 = (if tid u = tid c
           then map_sum id (\<lambda>x. x\<lparr>remaining_time := remaining_time x + 1\<rparr>) (find_extra c s2) else find_extra u s2)"
        using upd_find[of s2 c "\<lambda>x. x\<lparr>remaining_time := remaining_time x + 1\<rparr>"] reg1(2) s2(3-5) by auto
      obtain x1 y1 where f1: "find_extra t s1 = Inr x1" "find_extra c s1 = Inr y1"
        using reg1 by (auto simp: registered_iff)
      have ne: "tid t \<noteq> tid c" using sim_okD(3)[OF ok Some, of t] Cons by simp
      have distinct: "tid u \<noteq> tid t \<and> tid u \<noteq> tid c" if "u \<in> set ts" for u
        using that ok Cons Some by (auto simp: sim_ok_def running_def image_iff)
      have r3: "remaining_of s3 t = remaining_of s t - 1" "remaining_of s3 c = remaining_of s c + 1"
        "u \<in> set ts \<Longrightarrow> remaining_of s3 u = remaining_of s u" for u
        using s1(5)[of t] s1(5)[of c] s1(5)[of u] ne distinct[of u] f1
        by (auto simp: remaining_of_def s3(5) s2(6) split: sum.splits)
      have "ordered (remaining_of s) s \<longrightarrow> best (remaining_of s3) s3"
        using r3 True rem Cons by (force simp: ordered_def best_def s3(3,4))
      moreover have "preempt_remaining now s = Inr s3"
        using Cons Some x y True s1(1) s2(1) s3(1) by (simp add: preempt_remaining_def)
      ultimately show ?thesis
        using moves_trans[OF moves_trans[OF s1(2) s2(2)] s3(2)] s3(3) Some by auto
    qed
  qed
qed

lemma preempt_total:
  assumes ok: "sim_ok s"
  shows "\<exists>s'. preempt now s = Inr s' \<and> moves s s' \<and>
     (current_thread s = None \<longrightarrow> s' = s) \<and> (current_thread s \<noteq> None \<longrightarrow> current_thread s' \<noteq> None) \<and>
     (alg s \<notin> {PREEMPTIVE_PRIORITY, PREEMPTIVE_SHORTEST_JOB_FIRST, PREEMPTIVE_SHORTEST_REMAINING_TIME_FIRST} \<longrightarrow> s' = s) \<and>
     (alg s = PREEMPTIVE_PRIORITY \<longrightarrow> ordered priority s \<longrightarrow> best priority s') \<and>
     (alg s = PREEMPTIVE_SHORTEST_JOB_FIRST \<longrightarrow> ordered job_length s \<longrightarrow> best job_length s') \<and>
     (alg s = PREEMPTIVE_SHORTEST_REMAINING_TIME_FIRST \<longrightarrow> ordered (remaining_of s) s \<longrightarrow>
        best (remaining_of s') s')"
  using preempt_by_total[OF ok, of priority now] preempt_by_total[OF ok, of job_length now]
    preempt_remaining_total[OF ok, of now]
  by (cases "alg s") (auto simp: preempt_def)

section \<open>Filling the CPU\<close>

text \<open>An update made under one algorithm only.\<close>

lemma upd_when:
  assumes reg: "registered s t" and ext: "\<And>x. extra_tid (f x) = extra_tid x"
  obtains s' where "(if b then upd_extra t f s else Inr s) = Inr s'" "moves s s'" "current_thread s' = current_thread s"
    "ready_queue s' = ready_queue s" "registered s' = registered s"
    "\<And>u. find_extra u s' = (if b \<and> tid u = tid t then map_sum id f (find_extra t s) else find_extra u s)"
proof (cases b)
  case True
  then show thesis using upd_find[where f = f, OF reg ext] that by simp (metis (no_types))
next
  case False
  then show thesis using that[of s] by simp
qed

lemma fill_cpu_total:
  assumes ok: "sim_ok s"
  shows "\<exists>s'. fill_cpu now s = Inr s' \<and> moves s s' \<and> (current_thread s \<noteq> None \<longrightarrow> s' = s) \<and>
     (current_thread s' = None \<longrightarrow> ready_queue s' = []) \<and>
     (\<forall>t ts. current_thread s = None \<longrightarrow> ready_queue s = t # ts \<longrightarrow>
        current_thread s' = Some t \<and> ready_queue s' = ts \<and>
        (alg s = ROUND_ROBIN \<longrightarrow> ticks_of s' t = 0) \<and>
        remaining_of s' t \<le> remaining_of s t \<and>
        (\<forall>u \<in> set ts. remaining_of s' u = remaining_of s u))"
proof (cases "current_thread s = None \<and> ready_queue s \<noteq> []")
  case False
  then show ?thesis by (auto simp: fill_cpu_def split: option.splits list.splits)
next
  case True
  then obtain t ts where r: "ready_queue s = t # ts" and n: "current_thread s = None"
    by (cases "ready_queue s") auto
  have reg: "registered s t" using sim_okD(2)[OF ok, of t] r by simp
  then obtain x where x: "find_extra t s = Inr x" by (auto simp: registered_iff)
  have distinct: "tid u \<noteq> tid t" if "u \<in> set ts" for u
    using that ok r n by (auto simp: sim_ok_def running_def image_iff)
  let ?w = "\<lambda>x. x\<lparr>waiting_time := waiting_time x + (now - start_time x)\<rparr>" and ?z = "\<lambda>x. x\<lparr>tick_count := 0\<rparr>"
    and ?d = "\<lambda>x. x\<lparr>remaining_time := remaining_time x - 1\<rparr>" and ?s = "s\<lparr>ready_queue := ts\<rparr>"
    and ?R = "{NON_PREEMPTIVE_SHORTEST_REMAINING_TIME_FIRST, PREEMPTIVE_SHORTEST_REMAINING_TIME_FIRST}"
  obtain s1 where s1: "(if True then upd_extra t ?w ?s else Inr ?s) = Inr s1" "moves ?s s1"
    "current_thread s1 = current_thread ?s" "ready_queue s1 = ready_queue ?s" "registered s1 = registered ?s"
    "\<And>u. find_extra u s1 = (if True \<and> tid u = tid t then map_sum id ?w (find_extra t ?s) else find_extra u ?s)"
    by (rule upd_when[of ?s t ?w True]) (use reg in simp_all)
  obtain s2 where s2: "(if alg s1 = ROUND_ROBIN then upd_extra t ?z s1 else Inr s1) = Inr s2" "moves s1 s2"
    "current_thread s2 = current_thread s1" "ready_queue s2 = ready_queue s1" "registered s2 = registered s1"
    "\<And>u. find_extra u s2 = (if alg s1 = ROUND_ROBIN \<and> tid u = tid t then map_sum id ?z (find_extra t s1) else find_extra u s1)"
    by (rule upd_when[of s1 t ?z "alg s1 = ROUND_ROBIN"]) (use reg s1(5) in simp_all)
  let ?e = "sim_dispatch t s2"
  obtain s3 where s3: "(if alg ?e \<in> ?R then upd_extra t ?d ?e else Inr ?e) = Inr s3" "moves ?e s3"
    "current_thread s3 = current_thread ?e" "ready_queue s3 = ready_queue ?e" "registered s3 = registered ?e"
    "\<And>u. find_extra u s3 = (if alg ?e \<in> ?R \<and> tid u = tid t then map_sum id ?d (find_extra t ?e) else find_extra u ?e)"
    by (rule upd_when[of ?e t ?d "alg ?e \<in> ?R"]) (use reg s1(5) s2(5) in simp_all)
  have q: "current_thread s3 = Some t" "ready_queue s3 = ts" "alg s1 = alg s"
    using s1(2,4) s2(4) s3(3,4) by (simp_all add: sim_dispatch_def moves_def)
  have "fill_cpu now s = Inr s3"
    using r n s1(1) s2(1) s3(1) by (simp add: fill_cpu_def Let_def)
  moreover have "moves s s3"
    using s1(2-4) s2(2-4) s3(2-4) r n by (simp add: moves_def running_def sim_dispatch_def)
  moreover have "alg s = ROUND_ROBIN \<longrightarrow> ticks_of s3 t = 0" "remaining_of s3 t \<le> remaining_of s t"
    by (simp_all add: ticks_of_def remaining_of_def s3(6) s2(6) s1(6) x q(3))
  moreover have "\<forall>u \<in> set ts. remaining_of s3 u = remaining_of s u"
    by (simp add: remaining_of_def s3(6) s2(6) s1(6) distinct)
  ultimately show ?thesis using q r n by simp
qed


section \<open>The tick\<close>

lemma resort_ordered:
  assumes ok: "sim_ok s" and qs: "queue_sort_ok qs" and x: "resort qs s = Inr s'"
  shows "alg s = PREEMPTIVE_PRIORITY \<Longrightarrow> ordered priority s'"
    and "alg s = PREEMPTIVE_SHORTEST_JOB_FIRST \<Longrightarrow> ordered job_length s'"
    and "alg s = PREEMPTIVE_SHORTEST_REMAINING_TIME_FIRST \<Longrightarrow> ordered (remaining_of s') s'"
    and "alg s = ROUND_ROBIN \<Longrightarrow> s' = s"
proof -
  show "alg s = PREEMPTIVE_PRIORITY \<Longrightarrow> ordered priority s'"
    and "alg s = PREEMPTIVE_SHORTEST_JOB_FIRST \<Longrightarrow> ordered job_length s'"
    and "alg s = ROUND_ROBIN \<Longrightarrow> s' = s"
    using x by (auto simp: resort_def ordered_def sorts[OF qs])
  assume a: "alg s = PREEMPTIVE_SHORTEST_REMAINING_TIME_FIRST"
  define s1 where "s1 = s\<lparr>ready_queue := qs (remaining_sort s) (ready_queue s)\<rparr>"
  have rem1: "remaining_of s1 = remaining_of s" by (simp add: fun_eq_iff remaining_of_def s1_def)
  have reg: "list_all (registered s) (ready_queue s)" using ok by (simp add: sim_ok_def)
  show "ordered (remaining_of s') s'"
  proof (cases "current_thread s")
    case None
    then have "s' = s1" using x a reg by (auto simp: resort_def s1_def Let_def)
    then show ?thesis using sorts(6)[OF qs, of s "ready_queue s"] rem1 by (simp add: ordered_def s1_def)
  next
    case (Some c)
    have "registered s1 c" using sim_okD(1)[OF ok Some] by (simp add: s1_def)
    then obtain s2 where s2: "upd_extra c (\<lambda>x. x\<lparr>remaining_time := remaining_time x - 1\<rparr>) s1 = Inr s2"
      "ready_queue s2 = ready_queue s1"
      "\<And>u. find_extra u s2 = (if tid u = tid c
         then map_sum id (\<lambda>x. x\<lparr>remaining_time := remaining_time x - 1\<rparr>) (find_extra c s1) else find_extra u s1)"
      using upd_find[of s1 c "\<lambda>x. x\<lparr>remaining_time := remaining_time x - 1\<rparr>"] by auto
    have s': "s' = s2" using x a reg Some s2(1) by (auto simp: resort_def s1_def Let_def)
    have "remaining_of s2 u = remaining_of s u" if "u \<in> set (ready_queue s2)" for u
    proof -
      have "u \<in> set (ready_queue s)"
        using that s2(2) sorts(5)[OF qs, of s "ready_queue s"] by (simp add: s1_def) (metis mset_eq_setD)
      then have "tid u \<noteq> tid c" using sim_okD(3)[OF ok Some] by simp
      then show ?thesis using rem1 by (simp add: remaining_of_def s2(3) fun_eq_iff)
    qed
    moreover have "sorted_wrt (\<lambda>a b. remaining_of s a \<le> remaining_of s b) (ready_queue s2)"
      using sorts(6)[OF qs, of s "ready_queue s"] s2(2) by (simp add: s1_def)
    ultimately show ?thesis unfolding s' ordered_def
      by (elim sorted_wrt_mono_rel[rotated]) simp
  qed
qed

lemma tick_stages:
  assumes ok: "sim_ok s" and qs: "queue_sort_ok qs"
  obtains s1 s2 s3 s4 where "resort qs s = Inr s1" "moves s s1" "running s1 = running s" "sim_ok s1"
    "round_robin now s1 = Inr s2" "moves s1 s2" "sim_ok s2"
    "preempt now s2 = Inr s3" "moves s2 s3" "sim_ok s3"
    "fill_cpu now s3 = Inr s4" "moves s3 s4" "sim_ok s4" "tick qs now s = Inr s4"
proof -
  obtain s1 where s1: "resort qs s = Inr s1" "moves s s1" "running s1 = running s"
    using resort_total[OF ok qs] by blast
  have ok1: "sim_ok s1" using moves_ok[OF s1(2) ok] .
  obtain s2 where s2: "round_robin now s1 = Inr s2" "moves s1 s2" using round_robin_total[OF ok1] by blast
  have ok2: "sim_ok s2" using moves_ok[OF s2(2) ok1] .
  obtain s3 where s3: "preempt now s2 = Inr s3" "moves s2 s3" using preempt_total[OF ok2] by blast
  have ok3: "sim_ok s3" using moves_ok[OF s3(2) ok2] .
  obtain s4 where s4: "fill_cpu now s3 = Inr s4" "moves s3 s4" using fill_cpu_total[OF ok3] by blast
  have "sim_ok s4" using moves_ok[OF s4(2) ok3] .
  then show ?thesis
    using that[OF s1 ok1 s2 ok2 s3 ok3 s4] s1(1) s2(1) s3(1) s4(1) by (simp add: tick_def)
qed

definition idle_free :: "sim \<Rightarrow> bool" where
  "idle_free s \<longleftrightarrow> current_thread s = None \<longrightarrow> ready_queue s = []"

section \<open>A concrete simulation\<close>

fun insert_by :: "comparator \<Rightarrow> sim_thread \<Rightarrow> sim_thread list \<Rightarrow> sim_thread list" where
  "insert_by cmp x [] = [x]"
| "insert_by cmp x (y # ys) = (if cmp x y \<le> 0 then x # y # ys else y # insert_by cmp x ys)"

definition demo_sort :: queue_sorter where
  "demo_sort cmp xs = foldr (insert_by cmp) xs []"

lemma demo_sort_ok: "queue_sort_ok demo_sort"
proof -
  have m: "mset (insert_by c x ys) = add_mset x (mset ys)" for c x ys
    by (induction ys) auto
  have set: "set (insert_by c x ys) = insert x (set ys)" for c x ys
    by (induction ys) auto
  have s: "sorted_wrt (\<lambda>a b. key a \<le> key b) ys \<Longrightarrow>
      sorted_wrt (\<lambda>a b. key a \<le> key b) (insert_by (\<lambda>a b. key a - key b) x ys)" for key x ys
    by (induction ys) (auto simp: set)
  have "mset (demo_sort c xs) = mset xs" for c xs
    unfolding demo_sort_def by (induction xs) (auto simp: m)
  moreover have "sorted_wrt (\<lambda>a b. key a \<le> key b) (demo_sort (\<lambda>a b. key a - key b) xs)" for key xs
    unfolding demo_sort_def by (induction xs) (auto simp: s)
  ultimately show ?thesis by (simp add: queue_sort_ok_def)
qed

definition job :: "int \<Rightarrow> int \<Rightarrow> int \<Rightarrow> sim_thread" where
  "job i p n = \<lparr>tid = i, priority = p, job_length = n\<rparr>"

text \<open>Two threads arrive at time 0 and the CPU is given to the first one of the queue.\<close>

definition demo_sim :: "algorithm \<Rightarrow> sim" where
  "demo_sim a = sim_dispatch (job 1 5 9) ((sys_exec_sim (0, 0) 0 (job 2 3 4)
     (sys_exec_sim (0, 0) 0 (job 1 5 9) (scheduler a 2)))\<lparr>ready_queue := [job 2 3 4]\<rparr>)"

lemma demo_sim_ok: "sim_ok (demo_sim a)"
  by (simp add: demo_sim_def sys_exec_sim_def scheduler_def sim_dispatch_def sim_ok_def running_def
      job_def registered_def inner_equalitor_def)

lemma demo_sim_fields:
  "alg (demo_sim a) = a" "quant (demo_sim a) = 2" "current_thread (demo_sim a) = Some (job 1 5 9)"
  "ready_queue (demo_sim a) = [job 2 3 4]" "ticks_of (demo_sim a) (job 1 5 9) = 0"
  by (simp_all add: demo_sim_def sys_exec_sim_def scheduler_def sim_dispatch_def ticks_of_def
      find_extra_def inner_equalitor_def job_def)

section \<open>The theorems\<close>

text \<open>C38: In every consistent simulation a clock tick cannot fail, for any of the algorithms: every
  statistics record it follows exists. No thread is lost or duplicated, and afterwards the CPU is
  idle only if no thread is ready.\<close>

theorem tick_total:
  assumes "sim_ok s" and "queue_sort_ok qs"
  shows "\<exists>s'. tick qs now s = Inr s' \<and> sim_ok s' \<and>
     mset (running s' @ ready_queue s') = mset (running s @ ready_queue s) \<and> idle_free s'"
proof -
  obtain s1 s2 s3 s4 where t: "moves s s1" "moves s1 s2" "moves s2 s3" "sim_ok s3"
    "fill_cpu now s3 = Inr s4" "moves s3 s4" "sim_ok s4" "tick qs now s = Inr s4"
    using tick_stages[OF assms, of now] by metis
  have "idle_free s4" using fill_cpu_total[OF t(4), of now] t(5) by (auto simp: idle_free_def)
  moreover have "moves s s4" using t(1-3,6) moves_trans by blast
  ultimately show ?thesis using t(7,8) by (auto simp: moves_def)
qed

theorem tick_total_witness:
  "\<exists>s'. tick demo_sort 1 (demo_sim PREEMPTIVE_PRIORITY) = Inr s' \<and> sim_ok s' \<and>
     mset (running s' @ ready_queue s') = {#job 1 5 9, job 2 3 4#} \<and> idle_free s'"
  using tick_total[OF demo_sim_ok[of PREEMPTIVE_PRIORITY] demo_sort_ok, of 1]
  by (simp add: running_def demo_sim_fields)

lemma fill_best:
  assumes "sim_ok s3" and "fill_cpu now s3 = Inr s4" and "current_thread s3 \<noteq> None \<longrightarrow> best key s3"
    and "current_thread s3 = None \<longrightarrow> ordered key s3"
    and "\<And>t ts u. ready_queue s3 = t # ts \<Longrightarrow> current_thread s3 = None \<Longrightarrow> u \<in> set ts \<Longrightarrow> key' t \<le> key t \<and> key' u = key u"
    and "current_thread s3 \<noteq> None \<Longrightarrow> key' = key"
  shows "best key' s4"
proof (cases "current_thread s3 = None")
  case False
  then have "s4 = s3" using fill_cpu_total[OF assms(1), of now] assms(2) by auto
  then show ?thesis using False assms(3,6) by simp
next
  case True
  show ?thesis
  proof (cases "ready_queue s3")
    case Nil
    then have "s4 = s3" using True assms(2) by (simp add: fill_cpu_def)
    then show ?thesis using True by (simp add: best_def)
  next
    case (Cons t ts)
    then have c: "current_thread s4 = Some t" "ready_queue s4 = ts"
      using fill_cpu_total[OF assms(1), of now] assms(2) True by auto
    have "key t \<le> key u" if "u \<in> set ts" for u
      using that assms(4) True Cons by (simp add: ordered_def)
    then show ?thesis using c assms(5)[OF Cons True] by (force simp: best_def)
  qed
qed


text \<open>What the stages do for the algorithms that have no round robin.\<close>

lemma tick_key:
  assumes ok: "sim_ok s" and qs: "queue_sort_ok qs" and x: "tick qs now s = Inr s'"
    and a: "alg s \<in> {PREEMPTIVE_PRIORITY, PREEMPTIVE_SHORTEST_JOB_FIRST, PREEMPTIVE_SHORTEST_REMAINING_TIME_FIRST}"
  obtains s1 s3 where "resort qs s = Inr s1" "preempt now s1 = Inr s3" "sim_ok s1" "sim_ok s3"
    "fill_cpu now s3 = Inr s'" "alg s1 = alg s"
    "current_thread s1 = None \<longrightarrow> s3 = s1" "current_thread s1 \<noteq> None \<longrightarrow> current_thread s3 \<noteq> None"
proof -
  obtain s1 s2 s3 s4 where t: "resort qs s = Inr s1" "moves s s1" "running s1 = running s" "sim_ok s1"
    "round_robin now s1 = Inr s2" "moves s1 s2" "sim_ok s2"
    "preempt now s2 = Inr s3" "moves s2 s3" "sim_ok s3"
    "fill_cpu now s3 = Inr s4" "moves s3 s4" "sim_ok s4" "tick qs now s = Inr s4"
    by (rule tick_stages[OF ok qs, of now])
  have al: "alg s1 = alg s" using t(2) by (simp add: moves_def)
  then have "s2 = s1" using round_robin_total[OF t(4), of now] t(5) a by auto
  with t(8) have p: "preempt now s1 = Inr s3" by simp
  have e: "s4 = s'" using t(14) x by simp
  show ?thesis
    by (rule that[OF t(1) p t(4) t(10) t(11)[unfolded e] al])
      (use preempt_total[OF t(4), of now] p in auto)
qed



text \<open>Round robin respects its quantum: with a positive quantum the running thread has always
  used fewer ticks than that when a clock tick ends, if it had when the tick began.\<close>

theorem round_robin_quantum:
  assumes ok: "sim_ok s" and qs: "queue_sort_ok qs" and x: "tick qs now s = Inr s'"
    and a: "alg s = ROUND_ROBIN" and q: "0 < quant s"
    and before: "\<And>c. current_thread s = Some c \<Longrightarrow> ticks_of s c < quant s"
  shows "quant s' = quant s \<and> (\<forall>c. current_thread s' = Some c \<longrightarrow> ticks_of s' c < quant s)"
proof -
  obtain s1 s2 s3 s4 where t: "resort qs s = Inr s1" "moves s s1" "running s1 = running s" "sim_ok s1"
    "round_robin now s1 = Inr s2" "moves s1 s2" "sim_ok s2"
    "preempt now s2 = Inr s3" "moves s2 s3" "sim_ok s3"
    "fill_cpu now s3 = Inr s4" "moves s3 s4" "sim_ok s4" "tick qs now s = Inr s4"
    by (rule tick_stages[OF ok qs, of now])
  have e: "s1 = s" using resort_ordered(4)[OF ok qs t(1) a] .
  have a2: "alg s2 = ROUND_ROBIN" using t(6) a e by (simp add: moves_def)
  then have e3: "s3 = s2" using preempt_total[OF t(7), of now] t(8) by auto
  have two: "\<forall>c. current_thread s2 = Some c \<longrightarrow> ticks_of s2 c < quant s"
    using round_robin_total[OF ok, of now] t(5) e a q before by auto
  have four: "ticks_of s4 c < quant s" if c: "current_thread s4 = Some c" for c
  proof (cases "current_thread s2")
    case None
    note f = fill_cpu_total[OF t(10), of now]
    show ?thesis
    proof (cases "ready_queue s2")
      case Nil
      then have "s4 = s2" using None t(11) e3 by (simp add: fill_cpu_def)
      then show ?thesis using None c by simp
    next
      case (Cons u us)
      then have "current_thread s4 = Some u \<and> ticks_of s4 u = 0" using f t(11) e3 None a2 by auto
      then show ?thesis using c q by simp
    qed
  next
    case (Some d)
    then have "s4 = s2" using fill_cpu_total[OF t(10), of now] t(11) e3 by auto
    then show ?thesis using two c by simp
  qed
  have "quant s4 = quant s" using t(2,6,9,12) by (simp add: moves_def)
  then show ?thesis using four t(14) x by simp
qed

theorem round_robin_quantum_witness:
  "\<exists>s'. tick demo_sort 1 (demo_sim ROUND_ROBIN) = Inr s' \<and> quant s' = 2 \<and>
     (\<forall>c. current_thread s' = Some c \<longrightarrow> ticks_of s' c < 2)"
proof -
  obtain s' where s': "tick demo_sort 1 (demo_sim ROUND_ROBIN) = Inr s'"
    using tick_stages[OF demo_sim_ok[of ROUND_ROBIN] demo_sort_ok, of 1] by metis
  have "quant s' = quant (demo_sim ROUND_ROBIN) \<and>
      (\<forall>c. current_thread s' = Some c \<longrightarrow> ticks_of s' c < quant (demo_sim ROUND_ROBIN))"
    by (rule round_robin_quantum[OF demo_sim_ok demo_sort_ok s']) (auto simp: demo_sim_fields)
  then show ?thesis using s' by (simp add: demo_sim_fields)
qed

text \<open>The non-preemptive algorithms never take the CPU from a running thread.\<close>

theorem nonpreemptive_keeps_running:
  assumes ok: "sim_ok s" and qs: "queue_sort_ok qs" and x: "tick qs now s = Inr s'"
    and a: "alg s \<in> {Other_Algorithm, NON_PREEMPTIVE_PRIORITY, NON_PREEMPTIVE_SHORTEST_JOB_FIRST,
       NON_PREEMPTIVE_SHORTEST_REMAINING_TIME_FIRST}"
    and c: "current_thread s = Some c"
  shows "current_thread s' = Some c \<and> dispatched s' = dispatched s"
proof -
  obtain s1 where s1: "resort qs s = Inr s1" "moves s s1" "running s1 = running s" "dispatched s1 = dispatched s"
    using resort_total[OF ok qs] by blast
  have c1: "current_thread s1 = Some c" using s1(3) c by (auto simp: running_def split: option.splits)
  have al: "alg s1 = alg s" using s1(2) by (simp add: moves_def)
  have ok1: "sim_ok s1" using moves_ok[OF s1(2) ok] .
  have "round_robin now s1 = Inr s1" using round_robin_total[OF ok1, of now] al a by auto
  moreover have "preempt now s1 = Inr s1" using preempt_total[OF ok1, of now] al a by auto
  moreover have "fill_cpu now s1 = Inr s1" using c1 by (simp add: fill_cpu_def)
  ultimately have "s' = s1" using x s1(1) by (simp add: tick_def)
  then show ?thesis using c1 s1(4) by simp
qed

theorem nonpreemptive_keeps_running_witness:
  "\<exists>s'. tick demo_sort 1 (demo_sim NON_PREEMPTIVE_PRIORITY) = Inr s' \<and> current_thread s' = Some (job 1 5 9)"
proof -
  obtain s' where s': "tick demo_sort 1 (demo_sim NON_PREEMPTIVE_PRIORITY) = Inr s'"
    using tick_stages[OF demo_sim_ok[of NON_PREEMPTIVE_PRIORITY] demo_sort_ok, of 1] by metis
  show ?thesis
    using nonpreemptive_keeps_running[OF demo_sim_ok demo_sort_ok s'] s' by (simp add: demo_sim_fields)
qed


section \<open>Whole simulations\<close>

text \<open>The simulator's protocol: a thread arrives once, only the running thread exits or asks for
  input or output, and an operation completes for a thread that neither runs nor is ready.\<close>

inductive simulated :: "queue_sorter \<Rightarrow> sim \<Rightarrow> bool" for qs where
  start: "simulated qs (scheduler a q)"
| arrive: "simulated qs s \<Longrightarrow> \<not> registered s t \<Longrightarrow> simulated qs (sys_exec_sim garbage now t s)"
| clock: "simulated qs s \<Longrightarrow> tick qs now s = Inr s' \<Longrightarrow> simulated qs s'"
| finish: "simulated qs s \<Longrightarrow> current_thread s = Some t \<Longrightarrow> sys_exit_sim now t s = Inr s' \<Longrightarrow> simulated qs s'"
| reading: "simulated qs s \<Longrightarrow> current_thread s = Some t \<Longrightarrow> sys_read_sim now t s = Inr s' \<Longrightarrow> simulated qs s'"
| writing: "simulated qs s \<Longrightarrow> current_thread s = Some t \<Longrightarrow> sys_write_sim now t s = Inr s' \<Longrightarrow> simulated qs s'"
| starting: "simulated qs s \<Longrightarrow> registered s t \<Longrightarrow> io_starting now t s = Inr s' \<Longrightarrow> simulated qs s'"
| complete: "simulated qs s \<Longrightarrow> registered s t \<Longrightarrow> tid t \<notin> tid ` set (running s @ ready_queue s) \<Longrightarrow>
     io_complete now t s = Inr s' \<Longrightarrow> simulated qs s'"

lemma upd_effect:
  assumes "upd_extra t f s = Inr s'" and "\<And>x. extra_tid (f x) = extra_tid x"
  shows "moves s s' \<and> current_thread s' = current_thread s \<and> ready_queue s' = ready_queue s \<and>
     registered s' = registered s \<and> map extra_tid (all_threads s') = map extra_tid (all_threads s)"
proof -
  have "registered s t" using assms(1) by (auto simp: upd_extra_def registered_iff res_simps)
  from upd_find[of s t f, OF this assms(2)] assms(1) show ?thesis by (auto simp: moves_def)
qed

lemma stop_ok:
  assumes "sim_ok s" and "moves s s1" and "current_thread s1 = current_thread s" and "ready_queue s1 = ready_queue s"
  shows "sim_ok (s1\<lparr>current_thread := None\<rparr>)"
proof -
  have "sim_ok s1" using moves_ok[OF assms(2,1)] .
  moreover have "registered (s1\<lparr>current_thread := None\<rparr>) = registered s1"
    by (simp add: fun_eq_iff registered_def)
  ultimately show ?thesis by (auto simp: sim_ok_def running_def split: option.splits)
qed

text \<open>The running thread leaves the CPU after an update of its statistics.\<close>

lemma leave_ok:
  assumes ok: "sim_ok s" and f: "\<And>x. extra_tid (f x) = extra_tid x"
    and x: "bind_res (upd_extra t f s) (\<lambda>s. Inr (s\<lparr>current_thread := None\<rparr>)) = Inr s'"
  shows "sim_ok s'"
proof -
  obtain s1 where u: "upd_extra t f s = Inr s1" and s': "s' = s1\<lparr>current_thread := None\<rparr>"
    using x by (cases "upd_extra t f s") auto
  show ?thesis unfolding s' using stop_ok[OF ok] upd_effect[OF u f] by blast
qed

lemma io_complete_ok:
  assumes ok: "sim_ok s" and t: "registered s t" "tid t \<notin> tid ` set (running s @ ready_queue s)"
    and x: "io_complete now t s = Inr s'"
  shows "sim_ok s'"
proof -
  obtain s1 where u: "upd_extra t (\<lambda>x. x\<lparr>start_time := now + 1\<rparr>) s = Inr s1"
    and s': "s' = s1\<lparr>ready_queue := ready_queue s1 @ [t]\<rparr>"
    using x by (auto simp: io_complete_def res_simps)
  have e: "moves s s1" "current_thread s1 = current_thread s" "ready_queue s1 = ready_queue s"
    "registered s1 = registered s"
    using upd_effect[OF u] by simp_all
  have "sim_ok s1" using moves_ok[OF e(1) ok] .
  then show ?thesis using t e
    by (auto simp: s' sim_ok_def running_def split: option.splits)
qed

text \<open>C36: In every run of a simulation that follows the simulator's protocol each thread has exactly
  one statistics record, and no thread is both running and ready or ready twice.\<close>

theorem simulation_consistent:
  assumes "simulated qs s" and "queue_sort_ok qs"
  shows "sim_ok s"
  using assms(1)
proof (induction rule: simulated.induct)
  case (start a q)
  then show ?case by (simp add: scheduler_def sim_ok_def running_def)
next
  case (arrive s t garbage now)
  have "registered (sys_exec_sim garbage now t s) u \<longleftrightarrow> registered s u \<or> tid u = tid t" for u
    by (auto simp: registered_tid sys_exec_sim_def)
  then show ?case using arrive
    by (auto simp: sim_ok_def running_def sys_exec_sim_def registered_tid list_all_iff split: option.splits)
next
  case (clock s now s')
  obtain s4 where "sim_ok s4" "tick qs now s = Inr s4"
    using tick_stages[OF clock.IH assms(2), of now] by metis
  then show ?case using clock.hyps by simp
next
  case (finish s t now s')
  show ?case
    by (rule leave_ok[OF finish.IH _ finish.hyps(3)[unfolded sys_exit_sim_def]]) simp
next
  case (reading s t now s')
  show ?case
    by (rule leave_ok[OF reading.IH _ reading.hyps(3)[unfolded sys_read_sim_def]]) simp
next
  case (writing s t now s')
  show ?case
    by (rule leave_ok[OF writing.IH _ writing.hyps(3)[unfolded sys_write_sim_def]]) simp
next
  case (starting s t now s')
  have "moves s s'" using upd_effect[OF starting.hyps(3)[unfolded io_starting_def]] by simp
  then show ?case using moves_ok starting.IH by blast
next
  case (complete s t now s')
  then show ?case using io_complete_ok by blast
qed

theorem simulation_consistent_witness:
  "sim_ok (sys_exec_sim (7, 7) 0 (job 1 5 9) (scheduler ROUND_ROBIN 2))"
proof (rule simulation_consistent)
  show "simulated demo_sort (sys_exec_sim (7, 7) 0 (job 1 5 9) (scheduler ROUND_ROBIN 2))"
    by (intro simulated.arrive simulated.start) (simp add: registered_def scheduler_def)
qed (rule demo_sort_ok)

end
