(* ===== verification/Timer_Arith.thy ===== *)
theory Timer_Arith
  imports Demo Timer "HOL-Library.Signed_Division"
begin

unbundle bit_operations_syntax

text \<open>
  The arithmetic half of \<open>Lab2/timer.c\<close>: the calibration of the busy-wait loop and the
  conversion of real time into ticks or loops. \<open>TIMER_FREQ\<close> is defined by \<open>timer.h\<close>,
  which is not in the repository: the parameter \<open>freq\<close>. What the machine does is the parameter
  \<open>during\<close>: how many timer interrupts arrive while the loop of \<open>busy_wait\<close>, started right
  after an interrupt, runs the given number of times.
\<close>

section \<open>Busy waiting\<close>

text \<open>
  The result counts the calls of \<open>barrier\<close>. The decrement that ends the loop would overflow
  only for the least \<open>int64_t\<close>.
\<close>

function busy_wait :: "int \<Rightarrow> nat \<Rightarrow> nat" where
  "busy_wait loops n = (if loops > 0 then busy_wait (loops - 1) (Suc n) else n)"
  by pat_completeness auto
termination by (relation "measure (\<lambda>(loops, n). nat loops)") auto

declare busy_wait.simps [simp del]

lemma busy_wait_count: "busy_wait loops n = n + nat loops"
  by (induction loops n rule: busy_wait.induct) (subst busy_wait.simps, auto)

text \<open>The wait for a tick ends with the next interrupt.\<close>

definition too_many_loops :: "(nat \<Rightarrow> nat) \<Rightarrow> 32 word \<Rightarrow> int \<Rightarrow> bool \<times> int" where
  "too_many_loops during loops tk =
     (let start = tk + 1;
          now = start + int (during (busy_wait (uint loops) 0))
      in (start \<noteq> now, now))"

lemma too_many_iff [simp]: "fst (too_many_loops during loops t) \<longleftrightarrow> during (unat loops) \<noteq> 0"
  by (simp add: too_many_loops_def busy_wait_count Let_def)

section \<open>Calibration\<close>

lemma shift_count:
  assumes "push_bit 1 w \<noteq> (0 :: 'a::len word)"
  shows "card {n. push_bit n (push_bit 1 w) \<noteq> 0} < card {n. push_bit n w \<noteq> 0}"
proof -
  have fin: "finite {n. push_bit n w \<noteq> 0}"
  proof (rule finite_subset)
    have "push_bit n w = 0" if "LENGTH('a) \<le> n" for n
    proof -
      have "(2 :: 'a word) ^ n = 0" using that by simp
      then show ?thesis by (simp only: push_bit_eq_mult mult_zero_right)
    qed
    then show "{n. push_bit n w \<noteq> 0} \<subseteq> {..<LENGTH('a)}" by (auto intro: ccontr simp: not_less)
  qed simp
  have "w \<noteq> 0" using assms by auto
  let ?S = "{n. push_bit n (push_bit 1 w) \<noteq> 0}"
  have "Suc ` ?S \<subseteq> {n. push_bit n w \<noteq> 0} - {0}" by auto
  then have "card (Suc ` ?S) \<le> card ({n. push_bit n w \<noteq> 0} - {0})"
    using fin by (intro card_mono) auto
  also have "\<dots> < card {n. push_bit n w \<noteq> 0}"
    using fin \<open>w \<noteq> 0\<close> by (intro card_Diff1_less) auto
  finally show ?thesis by (simp add: card_image)
qed

text \<open>The largest power of two that is not too many loops.\<close>

function double_loops :: "(nat \<Rightarrow> nat) \<Rightarrow> 32 word \<Rightarrow> int \<Rightarrow> (32 word \<times> int) res" where
  "double_loops during l tk =
     (let (too_many, tk) = too_many_loops during (push_bit 1 l) tk
      in if too_many then Inr (l, tk)
         else if push_bit 1 l = 0 then Inl (Assert_Failed ''loops_per_tick != 0'')
         else double_loops during (push_bit 1 l) tk)"
  by pat_completeness auto
termination
  by (relation "measure (\<lambda>(during, l, tk). card {n. push_bit n l \<noteq> 0})") (auto dest: shift_count[simplified])

declare double_loops.simps [simp del]

text \<open>
  The loop over the test bits stops when the bit equals \<open>high_bit >> 10\<close>; for an arbitrary
  \<open>stop\<close> it need not.
\<close>

partial_function (option) refine_loops ::
  "(nat \<Rightarrow> nat) \<Rightarrow> 32 word \<Rightarrow> 32 word \<Rightarrow> 32 word \<Rightarrow> 32 word \<Rightarrow> int \<Rightarrow> (32 word \<times> int) option" where
  "refine_loops during high_bit stop test_bit l tk =
     (if test_bit = stop then Some (l, tk)
      else (case too_many_loops during (high_bit OR test_bit) tk of (too_many, tk) \<Rightarrow>
        refine_loops during high_bit stop (drop_bit 1 test_bit)
          (if too_many then l else l OR test_bit) tk))"

definition timer_calibrate :: "(nat \<Rightarrow> nat) \<Rightarrow> bool \<Rightarrow> int \<Rightarrow> (32 word \<times> int) res option" where
  "timer_calibrate during on tk =
     (if \<not> on then Some (Inl (Assert_Failed ''intr_get_level () == INTR_ON''))
      else (case double_loops during (push_bit 10 1) tk of
              Inl e \<Rightarrow> Some (Inl e)
            | Inr (high_bit, tk) \<Rightarrow>
                map_option Inr (refine_loops during high_bit (drop_bit 10 high_bit) (drop_bit 1 high_bit)
                  high_bit tk)))"

lemma unat_two_power: "unat (2 ^ j :: 32 word) = 2 ^ j mod 2 ^ 32"
  using unat_of_nat[of "2 ^ j", where 'a = 32] by (simp only: of_nat_power of_nat_numeral) simp

lemma unat_two_power_less: "j < 32 \<Longrightarrow> unat (2 ^ j :: 32 word) = 2 ^ j"
  using power_strict_increasing[of j 32 "2 :: nat"] by (simp only: unat_two_power mod_less)

lemma two_power_0: "(2 ^ j :: 32 word) = 0 \<longleftrightarrow> 32 \<le> j"
  by simp

lemma double_loops_power:
  assumes "l = 2 ^ j" and "j < 32" and "10 \<le> j" and "10 < j \<Longrightarrow> during (2 ^ j) = 0"
  shows "case double_loops during l t of
     Inl e \<Rightarrow> during 0 = 0 \<and> (\<forall>i. j < i \<and> i < 32 \<longrightarrow> during (2 ^ i) = 0)
   | Inr (h, t') \<Rightarrow> (\<exists>i. h = 2 ^ i \<and> j \<le> i \<and> i < 32 \<and> (10 < i \<longrightarrow> during (2 ^ i) = 0) \<and>
       during (2 ^ Suc i mod 2 ^ 32) \<noteq> 0)"
  using assms
proof (induction during l t arbitrary: j rule: double_loops.induct)
  case (1 during l t)
  have p: "push_bit 1 l = 2 ^ Suc j" using 1(2) by (simp add: push_bit_eq_mult)
  obtain tm t1 where x: "too_many_loops during (push_bit 1 l) t = (tm, t1)" by (rule prod.exhaust)
  have tm: "tm \<longleftrightarrow> during (2 ^ Suc j mod 2 ^ 32) \<noteq> 0"
    using too_many_iff[of during "push_bit 1 l" t] unfolding x[unfolded p] p unat_two_power fst_conv .
  have step: "double_loops during l t =
      (if tm then Inr (l, t1) else if push_bit 1 l = 0 then Inl (Assert_Failed ''loops_per_tick != 0'')
       else double_loops during (push_bit 1 l) t1)"
    by (subst double_loops.simps, unfold x) simp
  show ?case
  proof (cases tm)
    case True
    then show ?thesis using 1(2-) tm unfolding step by auto
  next
    case False
    show ?thesis
    proof (cases "j = 31")
      case True
      then show ?thesis using False tm p unfolding step by (auto simp: two_power_0)
    next
      case j: False
      then have "Suc j < 32" using 1(3) by simp
      have "during (2 ^ Suc j) = 0"
        using False tm power_strict_increasing[OF \<open>Suc j < 32\<close>, of "2 :: nat"]
        by (simp only: mod_less) simp
      define r where "r = double_loops during (push_bit 1 l) t1"
      have "case r of
          Inl e \<Rightarrow> during 0 = 0 \<and> (\<forall>i. Suc j < i \<and> i < 32 \<longrightarrow> during (2 ^ i) = 0)
        | Inr (h, t') \<Rightarrow> (\<exists>i. h = 2 ^ i \<and> Suc j \<le> i \<and> i < 32 \<and> (10 < i \<longrightarrow> during (2 ^ i) = 0) \<and>
            during (2 ^ Suc i mod 2 ^ 32) \<noteq> 0)"
        using 1(1)[of "(tm, t1)" tm t1 "Suc j"] 1(4) False p x two_power_0[of "Suc j"]
          \<open>Suc j < 32\<close> \<open>during (2 ^ Suc j) = 0\<close> unfolding r_def by simp
      moreover have "double_loops during l t = r"
        using False p \<open>Suc j < 32\<close> two_power_0[of "Suc j"] unfolding step r_def by simp
      moreover have "during (2 ^ i) = 0" if "\<forall>i. Suc j < i \<and> i < 32 \<longrightarrow> during (2 ^ i) = 0" "j < i" "i < 32" for i
        using that \<open>during (2 ^ Suc j) = 0\<close> by (cases "i = Suc j") auto
      ultimately show ?thesis
        by (cases r) (simp, auto simp del: power_Suc dest: Suc_leD)
    qed
  qed
qed

lemma or_bounds:
  fixes x y :: "32 word"
  assumes "unat x < 2 ^ n" and "unat y < 2 ^ n"
  shows "unat x \<le> unat (x OR y)" and "unat (x OR y) < 2 ^ n"
proof -
  show "unat x \<le> unat (x OR y)"
    using word_le_nat_alt le_word_or2 by blast
  have "unat x OR unat y < 2 ^ n"
    using assms by (metis take_bit_nat_eq_self_iff take_bit_or)
  then show "unat (x OR y) < 2 ^ n" by (simp add: unsigned_or_eq)
qed

lemma refine_loops_bounds:
  assumes "i \<le> 10" and "1 \<le> i" and "10 \<le> j" and "j < 32"
    and "2 ^ j \<le> unat l" and "unat l < 2 ^ Suc j"
  shows "\<exists>l' t'. refine_loops during (2 ^ j) (2 ^ (j - 10)) (2 ^ (j - i)) l t = Some (l', t') \<and>
     2 ^ j \<le> unat l' \<and> unat l' < 2 ^ Suc j"
  using assms
proof (induction "10 - i" arbitrary: i l t)
  case 0
  then show ?case by (subst refine_loops.simps) simp
next
  case (Suc m)
  have ne: "(2 ^ (j - i) :: 32 word) \<noteq> 2 ^ (j - 10)"
  proof
    assume "(2 ^ (j - i) :: 32 word) = 2 ^ (j - 10)"
    then have "unat (2 ^ (j - i) :: 32 word) = unat (2 ^ (j - 10) :: 32 word)" by simp
    then have "(2 ^ (j - i) :: nat) = 2 ^ (j - 10)"
      using Suc.prems by (simp add: unat_two_power_less)
    then show False using Suc by auto
  qed
  have half: "drop_bit 1 (2 ^ (j - i)) = (2 ^ (j - Suc i) :: 32 word)"
  proof -
    have "(2 ^ (j - i) :: 32 word) \<noteq> 0" using Suc.prems by simp
    moreover have "1 \<le> j - i" using Suc.hyps(2) Suc.prems by simp
    ultimately show ?thesis using drop_bit_exp_eq[of 1 "j - i", where ?'a = "32 word"]
      by (simp add: possible_bit_def)
  qed
  obtain tm t1 where x: "too_many_loops during (2 ^ j OR 2 ^ (j - i)) t = (tm, t1)" by (rule prod.exhaust)
  let ?l = "if tm then l else l OR 2 ^ (j - i)"
  have "unat (2 ^ (j - i) :: 32 word) < 2 ^ Suc j"
    using Suc.prems power_strict_increasing[of "j - i" "Suc j" "2 :: nat"]
    by (simp add: unat_two_power_less)
  then have "2 ^ j \<le> unat ?l" "unat ?l < 2 ^ Suc j"
    using or_bounds[of l "Suc j" "2 ^ (j - i)"] Suc.prems by auto
  moreover have "m = 10 - Suc i" "Suc i \<le> 10" "1 \<le> Suc i" using Suc.hyps(2) by simp_all
  ultimately have "\<exists>l' t'. refine_loops during (2 ^ j) (2 ^ (j - 10)) (2 ^ (j - Suc i)) ?l t1 = Some (l', t') \<and>
      2 ^ j \<le> unat l' \<and> unat l' < 2 ^ Suc j"
    using Suc.hyps(1) Suc.prems(3,4) by blast
  moreover have "refine_loops during (2 ^ j) (2 ^ (j - 10)) (2 ^ (j - i)) l t =
      refine_loops during (2 ^ j) (2 ^ (j - 10)) (2 ^ (j - Suc i)) ?l t1"
    using ne half by (subst refine_loops.simps) (simp add: x)
  ultimately show ?case by (simp only: ex_simps)
qed

lemma calibrate_stages:
  "case timer_calibrate during True t of
     None \<Rightarrow> False
   | Some (Inl e) \<Rightarrow> during 0 = 0 \<and> (\<forall>i. 10 < i \<and> i < 32 \<longrightarrow> during (2 ^ i) = 0)
   | Some (Inr (l, t')) \<Rightarrow> (\<exists>j. 10 \<le> j \<and> j < 32 \<and> (10 < j \<longrightarrow> during (2 ^ j) = 0) \<and>
       during (2 ^ Suc j mod 2 ^ 32) \<noteq> 0 \<and> 2 ^ j \<le> unat l \<and> unat l < 2 ^ Suc j)"
proof -
  have start: "push_bit 10 1 = (2 ^ 10 :: 32 word)" by simp
  note d = double_loops_power[of "push_bit 10 1" 10 during t, OF start]
  show ?thesis
  proof (cases "double_loops during (push_bit 10 1) t")
    case (Inl e)
    then show ?thesis using d by (simp add: timer_calibrate_def)
  next
    case (Inr p)
    obtain h t1 where p: "p = (h, t1)" by (rule prod.exhaust)
    then obtain j where j: "h = 2 ^ j" "10 \<le> j" "j < 32" "10 < j \<longrightarrow> during (2 ^ j) = 0"
      "during (2 ^ Suc j mod 2 ^ 32) \<noteq> 0"
      using d Inr by auto
    have bits: "drop_bit n (2 ^ j) = (2 ^ (j - n) :: 32 word)" if "n \<le> j" for n
      using drop_bit_exp_eq[of n j, where ?'a = "32 word"] that j(3) by (simp add: possible_bit_def)
    obtain l t2 where "refine_loops during h (drop_bit 10 h) (drop_bit 1 h) h t1 = Some (l, t2)"
      "2 ^ j \<le> unat l" "unat l < 2 ^ Suc j"
      using refine_loops_bounds[of 1 j h during t1] bits[of 10] bits[of 1] j(1-3)
      by (auto simp: unat_two_power_less simp del: power_Suc)
    then show ?thesis using j(2-5) Inr unfolding timer_calibrate_def p by auto
  qed
qed


text \<open>What the calibration returns lies between the power of two it found and its double: that
  power, unless it is the initial one, is short enough to fit into a tick and its double is not.\<close>

theorem calibrate_power:
  assumes "during 0 = 0" and "timer_calibrate during True t = Some (Inr (l, t'))"
  shows "\<exists>j. 10 \<le> j \<and> j < 31 \<and> (10 < j \<longrightarrow> during (2 ^ j) = 0) \<and> during (2 ^ Suc j) \<noteq> 0 \<and>
     2 ^ j \<le> unat l \<and> unat l < 2 ^ Suc j"
proof -
  obtain j where j: "10 \<le> j" "j < 32" "10 < j \<longrightarrow> during (2 ^ j) = 0" "during (2 ^ Suc j mod 2 ^ 32) \<noteq> 0"
    "2 ^ j \<le> unat l" "unat l < 2 ^ Suc j"
    using calibrate_stages[of during t] assms(2) by auto
  have "j \<noteq> 31" using j(4) assms(1) by auto
  then have "j < 31" using j(2) by simp
  then have "(2::nat) ^ Suc j < 2 ^ 32" by (intro power_strict_increasing) auto
  then have "during (2 ^ Suc j) \<noteq> 0" using j(4) by (simp only: mod_less) simp
  then show ?thesis using j \<open>j < 31\<close> by blast
qed

text \<open>A machine whose loop runs 1536 times within a tick.\<close>

definition slow_machine :: "nat \<Rightarrow> nat" where
  "slow_machine n = (if n \<le> 1536 then 0 else 1)"

lemma calibrate_slow: "\<exists>t. timer_calibrate slow_machine True 0 = Some (Inr (2046, t))"
  by (simp add: timer_calibrate_def double_loops.simps refine_loops.simps too_many_loops_def
      busy_wait_count slow_machine_def Let_def)

theorem calibrate_power_witness:
  "\<exists>j. 10 \<le> j \<and> j < 31 \<and> slow_machine (2 ^ Suc j) \<noteq> 0 \<and> 2 ^ j \<le> (2046::nat) \<and> (2046::nat) < 2 ^ Suc j"
proof -
  obtain t where t: "timer_calibrate slow_machine True 0 = Some (Inr (2046, t))" using calibrate_slow by blast
  have "slow_machine 0 = 0" by (simp add: slow_machine_def)
  then show ?thesis using calibrate_power[OF _ t] by (simp del: power_Suc) blast
qed

text \<open>Each of the lower bits is tried on its own and never together with the bits already kept,
  so the calibrated number of loops can itself take too long: on a machine with 1536 loops to a tick
  the result is 2046.\<close>

theorem calibrate_overshoots:
  "\<exists>l t. timer_calibrate slow_machine True 0 = Some (Inr (l, t)) \<and> l = 2046 \<and> fst (too_many_loops slow_machine l t)"
  using calibrate_slow by (auto simp: slow_machine_def)

section \<open>Real time\<close>

text \<open>The numbers of the delay are \<open>int64_t\<close>; the result counts the iterations of the busy wait.\<close>

definition real_time_delay :: "int \<Rightarrow> 32 word \<Rightarrow> int \<Rightarrow> int \<Rightarrow> nat res" where
  "real_time_delay freq loops_per_tick num denom =
     assert_res (denom smod 1000 = 0) ''denom % 1000 == 0''
       (bind_res (mul_int64 (uint loops_per_tick) num) (\<lambda>x.
        bind_res (mul_int64 (x sdiv 1000) freq) (\<lambda>y.
          if denom sdiv 1000 = 0 then Inl Div_By_Zero
          else Inr (busy_wait (y sdiv (denom sdiv 1000)) 0))))"

definition real_time_sleep :: "env \<Rightarrow> int \<Rightarrow> 32 word \<Rightarrow> int \<Rightarrow> int \<Rightarrow> kernel \<Rightarrow> (kernel \<times> nat) res" where
  "real_time_sleep E freq loops_per_tick num denom k =
     bind_res (mul_int64 num freq) (\<lambda>x.
       if denom = 0 then Inl Div_By_Zero
       else let n = x sdiv denom
            in assert_res (intr_on k) ''intr_get_level () == INTR_ON''
                 (if n > 0 then bind_res (timer_sleep E SL_Enter n k) (\<lambda>k. Inr (k, 0))
                  else bind_res (real_time_delay freq loops_per_tick num denom) (\<lambda>loops. Inr (k, loops))))"

definition timer_msleep where "timer_msleep E freq lpt ms k = real_time_sleep E freq lpt ms 1000 k"
definition timer_usleep where "timer_usleep E freq lpt us k = real_time_sleep E freq lpt us (1000 * 1000) k"
definition timer_nsleep where "timer_nsleep E freq lpt ns k = real_time_sleep E freq lpt ns (1000 * 1000 * 1000) k"
definition timer_mdelay where "timer_mdelay freq lpt ms = real_time_delay freq lpt ms 1000"
definition timer_udelay where "timer_udelay freq lpt us = real_time_delay freq lpt us (1000 * 1000)"
definition timer_ndelay where "timer_ndelay freq lpt ns = real_time_delay freq lpt ns (1000 * 1000 * 1000)"

text \<open>The interrupt rates the 8254 timer is set to.\<close>

definition freq_ok :: "int \<Rightarrow> bool" where
  "freq_ok freq \<longleftrightarrow> 19 \<le> freq \<and> freq \<le> 1000"

lemma scaled_bound:
  fixes L num freq d :: int
  assumes "0 \<le> L" "0 \<le> num" "0 \<le> freq" "0 < d" "num * freq < 1000 * d"
  shows "L * num div 1000 * freq div d \<le> L"
proof -
  have "L * num div 1000 * 1000 \<le> L * num" by linarith
  then have "L * num div 1000 * 1000 * freq \<le> L * num * freq"
    using assms(3) by (rule mult_right_mono)
  also have "\<dots> \<le> L * (1000 * d)"
    using assms by (simp add: mult.assoc mult_left_mono)
  finally have "L * num div 1000 * freq \<le> L * d" by (simp add: ac_simps)
  then have "L * num div 1000 * freq div d \<le> L * d div d" using assms(4) by (intro zdiv_mono1) auto
  then show ?thesis using assms(4) by simp
qed

lemma delay_total:
  assumes f: "freq_ok freq" and num: "0 \<le> num" "num * freq < denom"
    and d: "denom \<in> {1000, 1000 * 1000, 1000 * 1000 * 1000}"
  shows "\<exists>n. real_time_delay freq lpt num denom = Inr n \<and> n \<le> unat lpt"
proof -
  have L: "0 \<le> uint lpt" "uint lpt < 2 ^ 32" using uint_lt2p[of lpt] by simp_all
  have n: "num < 10 ^ 9"
  proof -
    have "num * 1 \<le> num * freq" using f num(1) by (intro mult_left_mono) (auto simp: freq_ok_def)
    then show ?thesis using num(2) d by auto
  qed
  have p: "uint lpt * num \<le> 2 ^ 32 * 10 ^ 9" using L n num(1) by (intro mult_mono) auto
  have p0: "0 \<le> uint lpt * num" using L num(1) by simp
  have q: "uint lpt * num div 1000 * freq \<le> 2 ^ 32 * 10 ^ 6 * 1000"
    using p p0 f by (intro mult_mono) (auto simp: freq_ok_def)
  have q0: "0 \<le> uint lpt * num div 1000 * freq" using p0 f by (auto simp: freq_ok_def)
  have "num * freq < 1000 * (denom div 1000)" using num(2) d by auto
  then have b: "uint lpt * num div 1000 * freq div (denom div 1000) \<le> uint lpt"
    using L num(1) f d by (intro scaled_bound) (auto simp: freq_ok_def)
  have s: "x sdiv y = x div y" if "0 \<le> x" "0 \<le> y" for x y :: int
    using that by (simp add: signed_divide_int_def sgn_if)
  have s2: "x sdiv (denom sdiv 1000) = x div (denom div 1000)" if "0 \<le> x" for x
    using d that by (auto simp: s)
  have i: "in_int64 (uint lpt * num)" "in_int64 (uint lpt * num div 1000 * freq)"
    using p p0 q q0 by (simp_all add: in_int64_def)
  have m: "denom smod 1000 = 0" "denom sdiv 1000 \<noteq> 0" using d by (auto simp: s signed_modulo_int_def)
  have "uint lpt * num sdiv 1000 = uint lpt * num div 1000" using s p0 by simp
  then have "real_time_delay freq lpt num denom =
      Inr (nat (uint lpt * num div 1000 * freq div (denom div 1000)))"
    using i m s2[OF q0] by (simp add: real_time_delay_def mul_int64_def busy_wait_count)
  moreover have "nat (uint lpt * num div 1000 * freq div (denom div 1000)) \<le> unat lpt"
    using b by (simp add: nat_le_iff)
  ultimately show ?thesis by blast
qed

text \<open>The three sleep functions convert time exactly: for a time that does not overflow they sleep
  the greatest number of ticks that is not longer than it, and for less than one tick they busy wait,
  without overflow, at most as many loops as fit into a tick.\<close>

theorem sleep_rounds_down:
  assumes "freq_ok freq" and "intr_on k" and num: "0 \<le> num" "num * freq < 2 ^ 63"
    and d: "(denom, sleep) \<in> {(10 ^ 3, timer_msleep), (10 ^ 6, timer_usleep), (10 ^ 9, timer_nsleep)}"
  shows "if denom \<le> num * freq
    then sleep E freq lpt num k = bind_res (timer_sleep E SL_Enter (num * freq div denom) k) (\<lambda>k'. Inr (k', 0))
    else \<exists>n. sleep E freq lpt num k = Inr (k, n) \<and> n \<le> unat lpt"
proof -
  have sl: "sleep E freq lpt num k = real_time_sleep E freq lpt num denom k"
    and dd: "denom \<in> {1000, 1000 * 1000, 1000 * 1000 * 1000}"
    using d by (auto simp: timer_msleep_def timer_usleep_def timer_nsleep_def)
  have p0: "0 \<le> num * freq" using num(1) assms(1) by (simp add: freq_ok_def)
  have p: "mul_int64 num freq = Inr (num * freq)" using p0 num(2) by (simp add: mul_int64_def in_int64_def)
  have s: "num * freq sdiv denom = num * freq div denom"
    using p0 dd by (auto simp: signed_divide_int_def sgn_if)
  show ?thesis
  proof (cases "denom \<le> num * freq")
    case True
    then have "0 < num * freq div denom" using dd by (auto simp: pos_imp_zdiv_pos_iff)
    then show ?thesis using True dd by (auto simp: sl real_time_sleep_def p s assms(2) Let_def)
  next
    case False
    then have "num * freq div denom = 0" using p0 by simp
    moreover obtain n where "real_time_delay freq lpt num denom = Inr n" "n \<le> unat lpt"
      using delay_total[OF assms(1) num(1) _ dd] False by (metis not_less)
    ultimately show ?thesis using False dd by (auto simp: sl real_time_sleep_def p s assms(2) Let_def)
  qed
qed

theorem sleep_rounds_down_witness:
  "\<exists>n. timer_msleep demo_env 100 2046 5 demo_kernel = Inr (demo_kernel, n) \<and> n \<le> 2046"
  using sleep_rounds_down[of 100 demo_kernel 5 "10 ^ 3" timer_msleep demo_env 2046]
  by (simp add: freq_ok_def demo_kernel_def)

end
