(* ===== verification/Fileman.thy ===== *)
theory Fileman
  imports Prelude "HOL-Library.List_Lexorder" "HOL-Library.Char_ord"
begin

text \<open>
  \<open>Assignment5/fileman.c\<close>, a small file manager. The file system is what the C library and
  POSIX calls the code makes show of it: the contents of the regular files by name, what may be opened
  for reading and for writing, and the number of open streams and descriptors. A buffer is the list of
  its bytes; an access outside it is a fault.
\<close>

section \<open>Files\<close>

record fsys =
  contents :: "string \<Rightarrow> string option"
  may_read :: "string \<Rightarrow> bool"
  may_write :: "string \<Rightarrow> bool"
  open_count :: nat

text \<open>A \<open>size_t\<close> returned as an \<open>int\<close>.\<close>

definition size_to_int :: "nat \<Rightarrow> int" where
  "size_to_int n = sint (of_nat n :: 32 word)"

definition exists_file :: "string \<Rightarrow> fsys \<Rightarrow> bool" where
  "exists_file f s \<longleftrightarrow> contents s f \<noteq> None"

text \<open>\<open>fopen\<close> in the modes \<open>r\<close> and \<open>w\<close>: the second creates or empties the file.\<close>

definition fopen_r :: "string \<Rightarrow> fsys \<Rightarrow> fsys option" where
  "fopen_r f s = (if exists_file f s \<and> may_read s f then Some (s\<lparr>open_count := open_count s + 1\<rparr>) else None)"

definition fopen_w :: "string \<Rightarrow> fsys \<Rightarrow> fsys option" where
  "fopen_w f s =
     (if may_write s f then Some (s\<lparr>contents := (contents s)(f \<mapsto> []), open_count := open_count s + 1\<rparr>)
      else None)"

definition close_file :: "fsys \<Rightarrow> fsys" where
  "close_file s = s\<lparr>open_count := open_count s - 1\<rparr>"

text \<open>A write at an offset past the end leaves zero bytes before it.\<close>

definition write_at :: "nat \<Rightarrow> string \<Rightarrow> string \<Rightarrow> string" where
  "write_at off new old =
     (if new = [] then old
      else take off old @ replicate (off - length old) (CHR 0x00) @ new @ drop (off + length new) old)"

definition put_at :: "nat \<Rightarrow> string \<Rightarrow> string \<Rightarrow> string res" where
  "put_at off new buf =
     (if off + length new \<le> length buf then Inr (take off buf @ new @ drop (off + length new) buf)
      else Inl Bad_Pointer)"

section \<open>Reading, writing, appending, copying\<close>

text \<open>\<open>fseek\<close> and \<open>fread\<close> follow the pointer \<open>fopen\<close> gave, which is null if it failed.\<close>

definition fileman_read :: "string \<Rightarrow> nat \<Rightarrow> string \<Rightarrow> nat \<Rightarrow> nat \<Rightarrow> fsys \<Rightarrow> (int \<times> string \<times> fsys) res" where
  "fileman_read fname foffset buf boffset n s =
     (if \<not> exists_file fname s then Inr (-1, buf, s)
      else (case fopen_r fname s of
              None \<Rightarrow> Inl Bad_Pointer
            | Some s \<Rightarrow>
                bind_res (put_at boffset (take n (drop foffset (the (contents s fname)))) buf) (\<lambda>buf.
                  Inr (size_to_int n, buf, close_file s))))"

definition fileman_write :: "string \<Rightarrow> nat \<Rightarrow> string \<Rightarrow> nat \<Rightarrow> nat \<Rightarrow> fsys \<Rightarrow> (int \<times> fsys) res" where
  "fileman_write fname foffset buf boffset n s =
     (if exists_file fname s then Inr (-1, s)
      else (case fopen_w fname s of
              None \<Rightarrow> Inl Bad_Pointer
            | Some s \<Rightarrow>
                if boffset + n \<le> length buf
                then Inr (size_to_int n, close_file (s\<lparr>contents := (contents s)(fname \<mapsto>
                       write_at foffset (take n (drop boffset buf)) (the (contents s fname)))\<rparr>))
                else Inl Bad_Pointer))"

text \<open>A descriptor that could not be opened makes \<open>write\<close> give -1.\<close>

definition fileman_append :: "string \<Rightarrow> string \<Rightarrow> nat \<Rightarrow> fsys \<Rightarrow> (int \<times> fsys) res" where
  "fileman_append fname buf n s =
     (if \<not> exists_file fname s then Inr (-1, s)
      else if \<not> may_write s fname then Inr (-1, s)
      else if n \<le> length buf
      then Inr (size_to_int n,
             s\<lparr>contents := (contents s)(fname \<mapsto> the (contents s fname) @ take n buf)\<rparr>)
      else Inl Bad_Pointer)"

text \<open>The loop that copies 100 bytes at a time: what is left to read, the count, what was written.\<close>

function copy_loop :: "string \<Rightarrow> int \<Rightarrow> string \<Rightarrow> (int \<times> string) res" where
  "copy_loop src copied dest =
     (let buf = take 100 src; num_bytes = length buf
      in bind_res (add_int32 copied (int num_bytes)) (\<lambda>copied.
           if num_bytes = 100 then copy_loop (drop 100 src) copied (dest @ buf)
           else Inr (copied, dest @ buf)))"
  by pat_completeness auto
termination by (relation "measure (\<lambda>(src, _, _). length src)") auto

declare copy_loop.simps [simp del]

text \<open>The streams of the two calls of \<open>fopen\<close> are never closed.\<close>

definition fileman_copy :: "string \<Rightarrow> string \<Rightarrow> fsys \<Rightarrow> (int \<times> fsys) res" where
  "fileman_copy fsrc fdest s =
     (if \<not> exists_file fsrc s \<or> exists_file fdest s then Inr (-1, s)
      else (case fopen_r fsrc s of
              None \<Rightarrow> Inr (-1, s)
            | Some s \<Rightarrow>
                (case fopen_w fdest s of
                   None \<Rightarrow> Inr (-1, s)
                 | Some s \<Rightarrow>
                     bind_res (copy_loop (the (contents s fsrc)) 0 []) (\<lambda>(copied, new).
                       Inr (copied, s\<lparr>contents := (contents s)(fdest \<mapsto>
                         write_at 0 new (the (contents s fdest)))\<rparr>)))))"

section \<open>Directories\<close>

text \<open>A directory that may not be read makes \<open>scandir\<close> fail.\<close>

datatype node = File | Locked_Dir | Dir "(string \<times> node) list"

definition is_dir :: "node \<Rightarrow> bool" where
  "is_dir t = (case t of File \<Rightarrow> False | _ \<Rightarrow> True)"

definition filter_dots :: "string \<times> node \<Rightarrow> bool" where
  "filter_dots e \<longleftrightarrow> fst e \<noteq> ''.'' \<and> fst e \<noteq> ''..''"

text \<open>A directory also lists itself and its parent; \<open>alphasort\<close> compares bytes.\<close>

definition scandir :: "node \<Rightarrow> (string \<times> node) list option" where
  "scandir t =
     (case t of
        Dir es \<Rightarrow> Some (sort_key fst (filter filter_dots ((''.'', t) # (''..'', Locked_Dir) # es)))
      | _ \<Rightarrow> None)"

lemma scandir_size:
  assumes "scandir t = Some es" and "(name, sub) \<in> set es"
  shows "size sub < size t"
proof -
  have "size sub < size (Dir es')" if "(name, sub) \<in> set es'" for es'
    using that by (induction es') auto
  then show ?thesis using assms by (auto simp: scandir_def filter_dots_def split: node.splits)
qed

text \<open>The outline: one line per entry, four more spaces per level.\<close>

function get_dir :: "nat \<Rightarrow> node \<Rightarrow> string" where
  "get_dir indent t =
     (case scandir t of
        None \<Rightarrow> []
      | Some es \<Rightarrow> concat (map (\<lambda>(name, sub).
          replicate (indent + 4) (CHR '' '') @ name @ [CHR 0x0A] @
          (if is_dir sub then get_dir (indent + 4) sub else [])) es))"
  by pat_completeness auto
termination by (relation "measure (\<lambda>(_, t). size t)") (auto dest: scandir_size)

declare get_dir.simps [simp del]

definition fileman_dir :: "string \<Rightarrow> node \<Rightarrow> string" where
  "fileman_dir dname t = dname @ [CHR 0x0A] @ get_dir 0 t"

section \<open>The tree view\<close>

text \<open>The box drawing characters in UTF-8.\<close>

definition TEE :: string where "TEE = [CHR 0xE2, CHR 0x94, CHR 0x9C]"
definition HOR :: string where "HOR = [CHR 0xE2, CHR 0x94, CHR 0x80]"
definition VER :: string where "VER = [CHR 0xE2, CHR 0x94, CHR 0x82]"
definition ELB :: string where "ELB = [CHR 0xE2, CHR 0x94, CHR 0x94]"

definition tree_prefix :: "bool \<Rightarrow> nat \<Rightarrow> bool list \<Rightarrow> string res" where
  "tree_prefix final indent bitmask =
     (if indent \<le> length bitmask
      then Inr (concat (map (\<lambda>j. if bitmask ! j then VER else [CHR '' '']) [0..<indent]) @
                (if final then ELB else TEE) @ HOR @ HOR @ [CHR '' ''])
      else Inl Bad_Pointer)"

text \<open>\<open>draw_entries\<close> is the loop over the entries: the last one is the one nothing follows.\<close>

definition entries_size :: "(string \<times> node) list \<Rightarrow> nat" where
  "entries_size es = sum_list (map (\<lambda>(_, sub). size sub + 1) es)"

lemma entries_size_scandir: "scandir t = Some es \<Longrightarrow> entries_size es < size t"
proof -
  assume "scandir t = Some es"
  then obtain es' where t: "t = Dir es'" and es: "es = sort_key fst (filter filter_dots es')"
    by (auto simp: scandir_def filter_dots_def split: node.splits)
  have sorted: "entries_size (sort_key fst xs) = entries_size xs" for xs :: "(string \<times> node) list"
    by (simp add: entries_size_def flip: sum_mset_sum_list)
  have "entries_size (filter filter_dots es') \<le> entries_size es'"
    by (induction es') (auto simp: entries_size_def)
  also have "entries_size es' < size (Dir es')"
    by (induction es') (auto simp: entries_size_def)
  finally show ?thesis unfolding t es sorted .
qed

function drawTree :: "nat \<Rightarrow> node \<Rightarrow> bool list \<Rightarrow> (string \<times> bool list) res"
  and draw_entries :: "nat \<Rightarrow> (string \<times> node) list \<Rightarrow> bool list \<Rightarrow> (string \<times> bool list) res" where
  "drawTree indent t bitmask =
     (case scandir t of None \<Rightarrow> Inr ([], bitmask) | Some es \<Rightarrow> draw_entries indent es bitmask)"
| "draw_entries indent [] bitmask = Inr ([], bitmask)"
| "draw_entries indent ((name, sub) # es) bitmask =
     bind_res (tree_prefix (es = []) indent bitmask) (\<lambda>prefix.
       if is_dir sub
       then if indent < length bitmask
            then bind_res (drawTree (indent + 4) sub (bitmask[indent := (es \<noteq> [])])) (\<lambda>(below, bitmask).
                 bind_res (draw_entries indent es bitmask) (\<lambda>(rest, bitmask).
                   Inr (prefix @ name @ [CHR 0x0A] @ below @ rest, bitmask)))
            else Inl Bad_Pointer
       else bind_res (draw_entries indent es bitmask) (\<lambda>(rest, bitmask).
              Inr (prefix @ name @ [CHR 0x0A] @ rest, bitmask)))"
  by pat_completeness auto
termination
  by (relation "measure (\<lambda>x. case x of Inl (_, t, _) \<Rightarrow> size t | Inr (_, es, _) \<Rightarrow> entries_size es)")
    (auto dest!: entries_size_scandir simp: entries_size_def)

declare drawTree.simps [simp del] draw_entries.simps(2) [simp del]

text \<open>The mask is a global variable that starts with 100 elements \<open>false\<close>.\<close>

definition no_bars :: "bool list" where "no_bars = replicate 100 False"

definition fileman_tree :: "string \<Rightarrow> node \<Rightarrow> bool list \<Rightarrow> (string \<times> bool list) res" where
  "fileman_tree dname t bitmask =
     bind_res (drawTree 0 t bitmask) (\<lambda>(out, bitmask). Inr (dname @ [CHR 0x0A] @ out, bitmask))"

end
