(* ===== verification/Fileman_Props.thy ===== *)
theory Fileman_Props
  imports Fileman
begin

text \<open>
  What the file manager promises: copies are exact, what is written is read back, the tree view is
  the usual drawing of the directory tree as long as directories are not nested too deeply.
\<close>

section \<open>Files\<close>

lemma size_to_int_small [simp]: "n < 2 ^ 31 \<Longrightarrow> size_to_int n = int n"
  by (simp add: size_to_int_def sint_uint unsigned_of_nat signed_take_bit_int_eq_self take_bit_nat_eq_self
      uint_nat)

lemma copy_loop_exact:
  assumes "0 \<le> c"
  shows "copy_loop src c dest =
     (if c + int (length src) < 2 ^ 31 then Inr (c + int (length src), dest @ src) else Inl Signed_Overflow)"
  using assms
proof (induction src c dest rule: copy_loop.induct)
  case (1 src c dest)
  show ?case
  proof (cases "length (take 100 src) = 100")
    case True
    then have l: "100 \<le> length src" by simp
    show ?thesis
    proof (cases "c + 100 < 2 ^ 31")
      case ok: True
      have "copy_loop src c dest = copy_loop (drop 100 src) (c + 100) (dest @ take 100 src)"
        using True ok 1(2) by (subst copy_loop.simps) (simp add: add_int32_def Let_def min_def)
      also have "\<dots> = (if c + int (length src) < 2 ^ 31 then Inr (c + int (length src), dest @ src)
          else Inl Signed_Overflow)"
        using 1(1)[of "take 100 src" 100 "c + 100"] 1(2) l ok by (simp add: add_int32_def of_nat_diff)
      finally show ?thesis .
    next
      case False
      then show ?thesis using True l by (subst copy_loop.simps) (simp add: add_int32_def Let_def min_def)
    qed
  next
    case False
    then have "length src < 100" by simp
    then show ?thesis using 1(2) by (subst copy_loop.simps) (simp add: add_int32_def Let_def)
  qed
qed

text \<open>C31: Copying a file gives the new file exactly the bytes of the old one and returns their number,
  whatever their number is below 2 GB, and no other file changes; the two streams opened to test the
  names stay open.\<close>

theorem copy_exact:
  assumes "contents s fsrc = Some c" and "contents s fdest = None"
    and "may_read s fsrc" and "may_write s fdest" and "length c < 2 ^ 31"
  shows "fileman_copy fsrc fdest s =
     Inr (int (length c), s\<lparr>contents := (contents s)(fdest \<mapsto> c), open_count := open_count s + 2\<rparr>)"
proof -
  have ne: "fsrc \<noteq> fdest" using assms(1,2) by auto
  have "copy_loop c 0 [] = Inr (int (length c), c)" using copy_loop_exact[of 0 c "[]"] assms(5) by simp
  then show ?thesis using assms ne
    by (simp add: fileman_copy_def exists_file_def fopen_r_def fopen_w_def write_at_def)
qed

definition two_files :: fsys where
  "two_files = \<lparr>contents = [''a'' \<mapsto> ''hello''], may_read = (\<lambda>_. True), may_write = (\<lambda>_. True), open_count = 3\<rparr>"

theorem copy_exact_witness:
  "fileman_copy ''a'' ''b'' two_files =
     Inr (5, two_files\<lparr>contents := [''a'' \<mapsto> ''hello'', ''b'' \<mapsto> ''hello''], open_count := 5\<rparr>)"
  using copy_exact[of two_files "''a''" "''hello''" "''b''"] by (simp add: two_files_def)

text \<open>What is written to a new file at an offset is what a read of the same size at that offset
  brings back into any buffer, and both report that size.\<close>

theorem write_read_roundtrip:
  assumes "contents s f = None" and "may_read s f" and "may_write s f"
    and "boff + n \<le> length buf" and "boff' + n \<le> length buf'" and "n < 2 ^ 31"
  shows "\<exists>s1 s2. fileman_write f foff buf boff n s = Inr (int n, s1) \<and>
     fileman_read f foff buf' boff' n s1 =
       Inr (int n, take boff' buf' @ take n (drop boff buf) @ drop (boff' + n) buf', s2)"
proof -
  have "take n (drop foff (write_at foff (take n (drop boff buf)) [])) = take n (drop boff buf)"
    using assms(4) by (auto simp: write_at_def)
  then show ?thesis using assms
    by (simp add: fileman_write_def fileman_read_def exists_file_def fopen_r_def fopen_w_def close_file_def
        put_at_def)
qed

theorem write_read_roundtrip_witness:
  "\<exists>s1 s2. fileman_write ''b'' 7 ''data'' 1 2 two_files = Inr (2, s1) \<and>
     fileman_read ''b'' 7 ''xxxx'' 2 2 s1 = Inr (2, ''xxat'', s2)"
  using write_read_roundtrip[of two_files "''b''" 1 2 "''data''" 2 "''xxxx''" 7] by (simp add: two_files_def)

text \<open>A read past the end of a file changes nothing in the buffer and still reports the full size.\<close>

theorem read_reports_size:
  assumes "contents s f = Some c" and "may_read s f" and "length c \<le> foff" and "boff \<le> length buf"
  shows "fileman_read f foff buf boff n s = Inr (size_to_int n, buf, s)"
  using assms by (simp add: fileman_read_def exists_file_def fopen_r_def close_file_def put_at_def)

theorem read_reports_size_witness: "fileman_read ''a'' 9 ''xxxx'' 0 4 two_files = Inr (4, ''xxxx'', two_files)"
  using read_reports_size[of two_files "''a''" "''hello''" 9 0 "''xxxx''" 4] by (simp add: two_files_def)

section \<open>The tree view\<close>

text \<open>The drawing, with the text in front of a line built on the way down.\<close>

function tree_lines :: "string \<Rightarrow> node \<Rightarrow> string"
  and entry_lines :: "string \<Rightarrow> (string \<times> node) list \<Rightarrow> string" where
  "tree_lines p t = (case scandir t of None \<Rightarrow> [] | Some es \<Rightarrow> entry_lines p es)"
| "entry_lines p [] = []"
| "entry_lines p ((name, sub) # es) =
     p @ (if es = [] then ELB else TEE) @ HOR @ HOR @ '' '' @ name @ [CHR 0x0A] @
     tree_lines (p @ (if es = [] then ''    '' else VER @ ''   '')) sub @ entry_lines p es"
  by pat_completeness auto
termination
  by (relation "measure (\<lambda>x. case x of Inl (_, t) \<Rightarrow> size t | Inr (_, es) \<Rightarrow> entries_size es)")
    (auto dest!: entries_size_scandir simp: entries_size_def)

text \<open>How deeply directories are nested.\<close>

function dir_levels :: "node \<Rightarrow> nat" and entries_levels :: "(string \<times> node) list \<Rightarrow> nat" where
  "dir_levels t = (case scandir t of None \<Rightarrow> 0 | Some es \<Rightarrow> entries_levels es)"
| "entries_levels [] = 0"
| "entries_levels ((name, sub) # es) = max (if is_dir sub then Suc (dir_levels sub) else 0) (entries_levels es)"
  by pat_completeness auto
termination
  by (relation "measure (\<lambda>x. case x of Inl t \<Rightarrow> size t | Inr es \<Rightarrow> entries_size es)")
    (auto dest!: entries_size_scandir simp: entries_size_def)

declare tree_lines.simps(1) [simp del] dir_levels.simps [simp del]

lemma file_has_none: "\<not> is_dir t \<Longrightarrow> scandir t = None"
  by (auto simp: is_dir_def scandir_def split: node.splits)

definition bars :: "nat \<Rightarrow> bool list \<Rightarrow> string" where
  "bars indent bitmask = concat (map (\<lambda>j. if bitmask ! j then VER else '' '') [0..<indent])"

definition mask_ok :: "bool list \<Rightarrow> bool" where
  "mask_ok bm \<longleftrightarrow> length bm = 100 \<and> (\<forall>j < 100. j mod 4 \<noteq> 0 \<longrightarrow> \<not> bm ! j)"

text \<open>The mask agrees below a level.\<close>

definition same_below :: "nat \<Rightarrow> bool list \<Rightarrow> bool list \<Rightarrow> bool" where
  "same_below k bm bm' \<longleftrightarrow> mask_ok bm' \<and> (\<forall>j < 4 * k. bm' ! j = bm ! j)"

lemma bars_cong: "same_below k bm bm' \<Longrightarrow> bars (4 * k) bm' = bars (4 * k) bm"
  unfolding bars_def same_below_def by (intro arg_cong[where f = concat] map_cong) auto

lemma bars_step:
  assumes "mask_ok bm" and "k < 25"
  shows "bars (4 * Suc k) (bm[4 * k := b]) = bars (4 * k) bm @ (if b then VER @ ''   '' else ''    '')"
    and "mask_ok (bm[4 * k := b])"
proof -
  have l: "length bm = 100" and z: "\<And>j. j < 100 \<Longrightarrow> j mod 4 \<noteq> 0 \<Longrightarrow> \<not> bm ! j"
    using assms(1) by (auto simp: mask_ok_def)
  have "[0..<4 * Suc k] = [0..<4 * k] @ [4 * k, 4 * k + 1, 4 * k + 2, 4 * k + 3]"
  proof -
    have "4 * Suc k = Suc (Suc (Suc (Suc (4 * k))))" by simp
    then show ?thesis by (simp only: upt_Suc_append le0 append_assoc append.simps) simp
  qed
  moreover have "bars (4 * k) (bm[4 * k := b]) = bars (4 * k) bm"
    unfolding bars_def by (intro arg_cong[where f = concat] map_cong) auto
  moreover have "\<not> bm ! (4 * k + 1)" "\<not> bm ! (4 * k + 2)" "\<not> bm ! (4 * k + 3)"
  proof -
    have m: "(4 * k + 1) mod 4 \<noteq> 0" "(4 * k + 2) mod 4 \<noteq> 0" "(4 * k + 3) mod 4 \<noteq> 0" by presburger+
    show "\<not> bm ! (4 * k + 1)" "\<not> bm ! (4 * k + 2)" "\<not> bm ! (4 * k + 3)"
      using z[OF _ m(1)] z[OF _ m(2)] z[OF _ m(3)] assms(2) by simp_all
  qed
  ultimately show "bars (4 * Suc k) (bm[4 * k := b]) = bars (4 * k) bm @ (if b then VER @ ''   '' else ''    '')"
    using assms(2) l by (simp add: bars_def)
  have "\<not> bm[4 * k := b] ! j" if "j < 100" "j mod 4 \<noteq> 0" for j
    using z[OF that] that(2) by (cases "j = 4 * k") auto
  then show "mask_ok (bm[4 * k := b])" using l by (simp add: mask_ok_def)
qed

text \<open>An entry that is a directory, given what its own listing and the rest of this one draw.\<close>

lemma draw_dir_entry:
  assumes bm: "mask_ok bm" "indent = 4 * k" "k < 25" and dir: "is_dir sub"
    and sub: "\<And>bm1. bm1 = bm[indent := (es \<noteq> [])] \<Longrightarrow> mask_ok bm1 \<Longrightarrow>
      (if Suc k + dir_levels sub \<le> 25
       then \<exists>bm2. drawTree (indent + 4) sub bm1 = Inr (tree_lines (bars (indent + 4) bm1) sub, bm2) \<and> same_below (Suc k) bm1 bm2
       else drawTree (indent + 4) sub bm1 = Inl Bad_Pointer)"
    and rest: "\<And>below bm2. drawTree (indent + 4) sub (bm[indent := (es \<noteq> [])]) = Inr (below, bm2) \<Longrightarrow> mask_ok bm2 \<Longrightarrow>
      (if k + entries_levels es \<le> 25
       then \<exists>bm3. draw_entries indent es bm2 = Inr (entry_lines (bars indent bm2) es, bm3) \<and> same_below k bm2 bm3
       else draw_entries indent es bm2 = Inl Bad_Pointer)"
  shows "if k + entries_levels ((name, sub) # es) \<le> 25
      then \<exists>bm'. draw_entries indent ((name, sub) # es) bm = Inr (entry_lines (bars indent bm) ((name, sub) # es), bm') \<and>
        same_below k bm bm'
      else draw_entries indent ((name, sub) # es) bm = Inl Bad_Pointer"
proof -
  let ?line = "bars indent bm @ (if es = [] then ELB else TEE) @ HOR @ HOR @ '' ''"
  define bm1 where "bm1 = bm[indent := (es \<noteq> [])]"
  have l: "length bm = 100" "indent < length bm" using bm by (auto simp: mask_ok_def)
  have pre: "tree_prefix (es = []) indent bm = Inr ?line"
    using bm l by (simp add: tree_prefix_def bars_def)
  have bm1: "mask_ok bm1" "bars (indent + 4) bm1 = bars indent bm @ (if es = [] then ''    '' else VER @ ''   '')"
    using bars_step[OF bm(1,3), of "es \<noteq> []"] bm(2) by (simp_all add: bm1_def add.commute)
  have step: "draw_entries indent ((name, sub) # es) bm =
      bind_res (drawTree (indent + 4) sub bm1) (\<lambda>(below, bm2). bind_res (draw_entries indent es bm2)
        (\<lambda>(rest, bm3). Inr (?line @ name @ [CHR 0x0A] @ below @ rest, bm3)))"
    using dir l pre by (simp add: draw_entries.simps(2) bm1_def)
  note I1 = sub[OF bm1_def bm1(1)] and levels = entries_levels.simps(2)[of name sub es]
  show ?thesis
  proof (cases "Suc k + dir_levels sub \<le> 25")
    case False
    then show ?thesis using I1 dir by (simp add: step levels)
  next
    case fits: True
    then obtain bm2 where below: "drawTree (indent + 4) sub bm1 = Inr (tree_lines (bars (indent + 4) bm1) sub, bm2)"
      and s2: "same_below (Suc k) bm1 bm2"
      using I1 by auto
    have "bm2 ! j = bm ! j" if "j < 4 * k" for j
      using s2 that bm(2) by (auto simp: same_below_def bm1_def)
    then have s2': "same_below k bm bm2" using s2 by (simp add: same_below_def)
    then have ok2: "mask_ok bm2" and b2: "bars indent bm2 = bars indent bm"
      using bars_cong[of k bm bm2] bm(2) by (simp_all add: same_below_def)
    note I2 = rest[OF below[unfolded bm1_def] ok2, unfolded b2]
    show ?thesis
    proof (cases "k + entries_levels es \<le> 25")
      case False
      then show ?thesis using I2 below by (simp add: step levels)
    next
      case True
      then obtain bm3 where "draw_entries indent es bm2 = Inr (entry_lines (bars indent bm) es, bm3)"
        "same_below k bm2 bm3" using I2 by auto
      then show ?thesis using below fits True s2' bm1(2) dir
        by (auto simp: step levels same_below_def)
    qed
  qed
qed

lemma draw_spec:
  shows "mask_ok bm \<Longrightarrow> indent = 4 * k \<Longrightarrow> k \<le> 25 \<Longrightarrow>
     (if k + dir_levels t \<le> 25
      then \<exists>bm'. drawTree indent t bm = Inr (tree_lines (bars indent bm) t, bm') \<and> same_below k bm bm'
      else drawTree indent t bm = Inl Bad_Pointer)"
    and "mask_ok bm \<Longrightarrow> indent = 4 * k \<Longrightarrow> k \<le> 25 \<Longrightarrow>
     (if k + entries_levels es \<le> 25
      then \<exists>bm'. draw_entries indent es bm = Inr (entry_lines (bars indent bm) es, bm') \<and> same_below k bm bm'
      else draw_entries indent es bm = Inl Bad_Pointer)"
proof (induction indent t bm and indent es bm arbitrary: k and k rule: drawTree_draw_entries.induct)
  case (1 indent t bm)
  show ?case
  proof (cases "scandir t")
    case None
    then show ?thesis using 1(2-)
      by (simp add: drawTree.simps(1) tree_lines.simps(1) dir_levels.simps(1) same_below_def)
  next
    case (Some es)
    then show ?thesis using 1(1)[OF Some 1(2-)]
      by (simp add: drawTree.simps(1) tree_lines.simps(1) dir_levels.simps(1))
  qed
next
  case (2 indent bm)
  then show ?case by (simp add: same_below_def drawTree.simps)
next
  case (3 indent name sub es bm)
  let ?line = "bars indent bm @ (if es = [] then ELB else TEE) @ HOR @ HOR @ '' ''"
  have i: "indent \<le> 100" and l: "length bm = 100" using 3 by (auto simp: mask_ok_def)
  have pre: "tree_prefix (es = []) indent bm = Inr ?line"
    using i l by (simp add: tree_prefix_def bars_def)
  show ?case
  proof (cases "is_dir sub")
    case False
    then have "tree_lines p sub = []" for p by (simp add: tree_lines.simps(1) file_has_none)
    then show ?thesis
      using 3(3)[OF pre False 3(4-6)] False pre
      by (auto simp: draw_entries.simps(2) entries_levels.simps(2) split: if_splits)
  next
    case dir: True
    show ?thesis
    proof (cases "k < 25")
      case False
      then show ?thesis using dir pre l 3(5,6) by (simp add: draw_entries.simps(2) entries_levels.simps(2))
    next
      case k: True
      have lt: "indent < length bm" using k l 3(5) by simp
      show ?thesis
      proof (rule draw_dir_entry[OF 3(4,5) k dir])
      qed (use 3(1)[OF pre dir lt, of "Suc k", unfolded 3(5)] 3(2)[OF pre dir lt _ refl, of _ _ k] k 3(5,6) in simp_all)
    qed
  qed
qed

text \<open>C18: With at most 25 levels of directories below the root the tree view is the drawing of the
  tree, whatever earlier calls left in the global mask, and leaves a mask the next call can use; with
  more levels the code writes past the end of the mask.\<close>

theorem tree_drawn:
  assumes "mask_ok bm"
  shows "if dir_levels t \<le> 25
    then \<exists>bm'. fileman_tree dname t bm = Inr (dname @ [CHR 0x0A] @ tree_lines [] t, bm') \<and> mask_ok bm'
    else fileman_tree dname t bm = Inl Bad_Pointer"
proof -
  have "bars 0 bm = []" by (simp add: bars_def)
  then show ?thesis using draw_spec(1)[OF assms, of 0 0 t]
    by (auto simp: fileman_tree_def same_below_def split: if_splits)
qed

definition small_tree :: node where
  "small_tree = Dir [(''b'', File), (''a'', Dir [(''c'', File)])]"

lemma scandir_small:
  "scandir small_tree = Some [(''a'', Dir [(''c'', File)]), (''b'', File)]"
  "scandir (Dir [(''c'', File)]) = Some [(''c'', File)]" "scandir File = None"
  by (simp_all add: small_tree_def scandir_def filter_dots_def)

theorem tree_drawn_witness:
  "\<exists>bm'. fileman_tree ''d'' small_tree no_bars = Inr (''d'' @ [CHR 0x0A] @
     TEE @ HOR @ HOR @ '' a'' @ [CHR 0x0A] @ VER @ ''   '' @ ELB @ HOR @ HOR @ '' c'' @ [CHR 0x0A] @
     ELB @ HOR @ HOR @ '' b'' @ [CHR 0x0A], bm')"
proof -
  have "mask_ok no_bars" by (simp add: mask_ok_def no_bars_def)
  moreover have "dir_levels small_tree \<le> 25"
    by (simp add: dir_levels.simps(1) entries_levels.simps scandir_small is_dir_def)
  moreover have "tree_lines [] small_tree =
      TEE @ HOR @ HOR @ '' a'' @ [CHR 0x0A] @ VER @ ''   '' @ ELB @ HOR @ HOR @ '' c'' @ [CHR 0x0A] @
      ELB @ HOR @ HOR @ '' b'' @ [CHR 0x0A]"
    by (simp add: tree_lines.simps(1) scandir_small)
  ultimately show ?thesis using tree_drawn[of no_bars small_tree "''d''"] by auto
qed

end
