(* ===== verification/Mergesort.thy ===== *)
theory Mergesort
  imports Prelude
begin

text \<open>
  The merge sorts of Assignment 1: \<open>psort.c\<close> (POSIX shared memory) and \<open>usort.c\<close> (System V
  shared memory). \<open>merge\<close> is declared in \<open>merge.h\<close>, which is not in the repository: the
  parameter \<open>mg\<close>. Two processes work on the shared array at once, so the model makes the order of
  their calls of \<open>merge\<close> explicit: a schedule interleaves them.
\<close>

type_synonym merge_fn = "int list \<Rightarrow> nat \<Rightarrow> nat \<Rightarrow> nat \<Rightarrow> int list"
type_synonym merge_call = "nat \<times> nat \<times> nat"

section \<open>Sorting in one process\<close>

definition midpoint :: "nat \<Rightarrow> nat \<Rightarrow> nat res" where
  "midpoint left right = (if left + right < 2 ^ 31 then Inr ((left + right) div 2) else Inl Signed_Overflow)"

definition call_merge :: "merge_fn \<Rightarrow> merge_call \<Rightarrow> int list \<Rightarrow> int list res" where
  "call_merge mg c arr =
     (case c of (left, middle, right) \<Rightarrow>
        if right < length arr then Inr (mg arr left middle right) else Inl Bad_Pointer)"

lemma midpoint_Inr [res_simps]: "midpoint l r = Inr m \<longleftrightarrow> l + r < 2 ^ 31 \<and> m = (l + r) div 2"
  by (auto simp: midpoint_def)

function singleProcessMergeSort :: "merge_fn \<Rightarrow> int list \<Rightarrow> nat \<Rightarrow> nat \<Rightarrow> int list res" where
  "singleProcessMergeSort mg arr left right =
     (if left < right
      then bind_res (midpoint left right) (\<lambda>middle.
           bind_res (singleProcessMergeSort mg arr left middle) (\<lambda>arr.
           bind_res (singleProcessMergeSort mg arr (middle + 1) right) (\<lambda>arr.
             call_merge mg (left, middle, right) arr)))
      else Inr arr)"
  by pat_completeness auto
termination
  by (relation "measure (\<lambda>(_, _, left, right). right - left)") (auto simp: res_simps)

declare singleProcessMergeSort.simps [simp del]

text \<open>The calls of \<open>merge\<close> the sort makes, in their order, and what a sequence of calls does.\<close>

function merge_calls :: "nat \<Rightarrow> nat \<Rightarrow> merge_call list" where
  "merge_calls left right =
     (if left < right
      then let middle = (left + right) div 2
           in merge_calls left middle @ merge_calls (middle + 1) right @ [(left, middle, right)]
      else [])"
  by pat_completeness auto
termination by (relation "measure (\<lambda>(left, right). right - left)") auto

declare merge_calls.simps [simp del]

abbreviation run_merges :: "merge_fn \<Rightarrow> merge_call list \<Rightarrow> int list \<Rightarrow> int list res" where
  "run_merges mg \<equiv> fold_res (call_merge mg)"

lemma fold_res_append: "fold_res f (xs @ ys) s = bind_res (fold_res f xs s) (fold_res f ys)"
proof (induction xs arbitrary: s)
  case (Cons x xs)
  then show ?case by (cases "f x s") simp_all
qed simp

lemma fold_res_last: "bind_res x (fold_res f []) = x"
  by (cases x) simp_all

lemma single_is_merges:
  "right < 2 ^ 30 \<Longrightarrow> singleProcessMergeSort mg arr left right = run_merges mg (merge_calls left right) arr"
proof (induction mg arr left right rule: singleProcessMergeSort.induct)
  case (1 mg arr left right)
  show ?case
  proof (cases "left < right")
    case False
    then show ?thesis by (simp add: singleProcessMergeSort.simps merge_calls.simps)
  next
    case True
    let ?m = "(left + right) div 2"
    have m: "midpoint left right = Inr ?m" using 1(3) True by (simp add: midpoint_def)
    have b: "?m < 2 ^ 30" using 1(3) True by linarith
    note l = 1(1)[OF True m b]
    have calls: "merge_calls left right = merge_calls left ?m @ merge_calls (?m + 1) right @ [(left, ?m, right)]"
      using True by (simp add: merge_calls.simps[of left right] Let_def)
    show ?thesis
    proof (cases "run_merges mg (merge_calls left ?m) arr")
      case (Inl e)
      then show ?thesis using True m l by (simp add: singleProcessMergeSort.simps[of mg arr left right] calls fold_res_append)
    next
      case (Inr arr1)
      note r = 1(2)[OF True m l[unfolded Inr] 1(3)]
      show ?thesis
        using True m l Inr r by (cases "run_merges mg (merge_calls (?m + 1) right) arr1")
          (simp_all add: singleProcessMergeSort.simps[of mg arr left right] calls fold_res_append fold_res_last)
    qed
  qed
qed

section \<open>Sorting in two processes\<close>

text \<open>Who makes the next call: the child (\<open>True\<close>) or the parent; one that is done lets the other go on.\<close>

fun interleave :: "bool list \<Rightarrow> 'a list \<Rightarrow> 'a list \<Rightarrow> 'a list" where
  "interleave (True # bs) (x # xs) ys = x # interleave bs xs ys"
| "interleave (False # bs) xs (y # ys) = y # interleave bs xs ys"
| "interleave bs xs ys = xs @ ys"

text \<open>
  The shared memory holds the elements up to \<open>right\<close>; its size in bytes is kept in an
  \<open>int\<close>, and one that does not fit makes the copy leave the array. The result has the sorted array, or \<open>None\<close> when the process exits, and the
  segments that exist afterwards: by name for POSIX, by key for System V.
\<close>

definition both_sides :: "merge_fn \<Rightarrow> bool list \<Rightarrow> nat \<Rightarrow> nat \<Rightarrow> nat \<Rightarrow> int list \<Rightarrow> int list res" where
  "both_sides mg sched left mid right mem =
     bind_res (run_merges mg (interleave sched (merge_calls left mid) (merge_calls (mid + 1) right)) mem)
       (call_merge mg (left, mid, right))"

definition psort :: "merge_fn \<Rightarrow> bool list \<Rightarrow> bool \<Rightarrow> int list \<Rightarrow> nat \<Rightarrow> nat \<Rightarrow> (string \<Rightarrow> int list option) \<Rightarrow>
    (int list option \<times> (string \<Rightarrow> int list option)) res" where
  "psort mg sched forked arr left right segs =
     (if 2 ^ 31 \<le> 4 * (right + 1) then Inl Bad_Pointer
      else bind_res (midpoint left right) (\<lambda>mid.
        if length arr < right + 1 then Inl Bad_Pointer
        else (let ptr = take (right + 1) arr;
                  segs = segs(''shmseg'' \<mapsto> ptr)
              in if \<not> forked then Inr (None, segs)
                 else bind_res (both_sides mg sched left mid right ptr) (\<lambda>ptr.
                        Inr (Some (ptr @ drop (right + 1) arr), segs(''shmseg'' := None))))))"

text \<open>An existing segment keeps its size; one that is too small makes \<open>shmget\<close> fail, and the
  address \<open>shmat\<close> then returns is not valid.\<close>

definition usort :: "merge_fn \<Rightarrow> bool list \<Rightarrow> bool \<Rightarrow> int \<Rightarrow> int list \<Rightarrow> nat \<Rightarrow> nat \<Rightarrow> (int \<Rightarrow> int list option) \<Rightarrow>
    (int list option \<times> (int \<Rightarrow> int list option)) res" where
  "usort mg sched forked key arr left right segs =
     bind_res (midpoint left right) (\<lambda>mid.
       if 2 ^ 31 \<le> 4 * (right + 1) then Inl Bad_Pointer
       else if length arr < right + 1 then Inl Bad_Pointer
       else (let old = (case segs key of None \<Rightarrow> replicate (right + 1) 0 | Some old \<Rightarrow> old)
             in if length old < right + 1 then Inl Bad_Pointer
                else (let str = take (right + 1) arr @ drop (right + 1) old;
                          segs = segs(key \<mapsto> str)
                      in if \<not> forked then Inr (None, segs)
                         else bind_res (both_sides mg sched left mid right str) (\<lambda>str.
                                Inr (Some (take (right + 1) str @ drop (right + 1) arr), segs(key := None))))))"

section \<open>Blocks\<close>

definition segment :: "nat \<Rightarrow> nat \<Rightarrow> int list \<Rightarrow> int list" where
  "segment l r xs = take (r + 1 - l) (drop l xs)"

definition sort_at :: "nat \<Rightarrow> nat \<Rightarrow> int list \<Rightarrow> int list" where
  "sort_at l r xs = take l xs @ sort (segment l r xs) @ drop (r + 1) xs"

text \<open>What \<open>merge\<close> is documented to do: two sorted runs side by side become one.\<close>

definition merge_ok :: "merge_fn \<Rightarrow> bool" where
  "merge_ok mg \<longleftrightarrow>
     (\<forall>arr l m r. l \<le> m \<and> m \<le> r \<and> r < length arr \<and> sorted (segment l m arr) \<and> sorted (segment (m + 1) r arr) \<longrightarrow>
        mg arr l m r = sort_at l r arr)"

lemma length_sort_at [simp]: "l \<le> r \<Longrightarrow> r < length xs \<Longrightarrow> length (sort_at l r xs) = length xs"
  by (simp add: sort_at_def segment_def)

lemma segment_block:
  "length P \<le> l \<Longrightarrow> l \<le> r \<Longrightarrow> r < length P + length X \<Longrightarrow>
     segment l r (P @ X @ Q) = segment (l - length P) (r - length P) X"
  by (simp add: segment_def)

lemma sort_at_block:
  assumes "length P \<le> l" "l \<le> r" "r < length P + length X"
  shows "sort_at l r (P @ X @ Q) = P @ sort_at (l - length P) (r - length P) X @ Q"
  using assms by (simp add: sort_at_def segment_block Suc_diff_le)

end
