(* ===== verification/Mergesort_Props.thy ===== *)
theory Mergesort_Props
  imports Mergesort
begin

text \<open>
  Both multi-process merge sorts sort, whatever the interleaving of the two processes, and give what
  the sort in a single process gives.
\<close>

section \<open>A process alone on its block\<close>

text \<open>The calls a process makes on the block \<open>X\<close> that begins at index \<open>off\<close>, each of which finds
  sorted runs, and what they leave.\<close>

fun good_calls :: "nat \<Rightarrow> merge_call list \<Rightarrow> int list \<Rightarrow> bool" where
  "good_calls off [] X = True"
| "good_calls off ((a, m, b) # cs) X =
     (off \<le> a \<and> a \<le> m \<and> m \<le> b \<and> b < off + length X \<and>
      sorted (segment (a - off) (m - off) X) \<and> sorted (segment (m + 1 - off) (b - off) X) \<and>
      good_calls off cs (sort_at (a - off) (b - off) X))"

fun after_calls :: "nat \<Rightarrow> merge_call list \<Rightarrow> int list \<Rightarrow> int list" where
  "after_calls off [] X = X"
| "after_calls off ((a, m, b) # cs) X = after_calls off cs (sort_at (a - off) (b - off) X)"

lemma calls_append:
  "good_calls off (cs @ ds) X \<longleftrightarrow> good_calls off cs X \<and> good_calls off ds (after_calls off cs X)"
  "after_calls off (cs @ ds) X = after_calls off ds (after_calls off cs X)"
  by (induction cs arbitrary: X) auto

lemma calls_block:
  "good_calls (off + length A) cs X \<Longrightarrow>
     good_calls off cs (A @ X @ B) \<and> after_calls off cs (A @ X @ B) = A @ after_calls (off + length A) cs X @ B"
proof (induction cs arbitrary: X)
  case (Cons c cs)
  obtain a m b where c: "c = (a, m, b)" by (cases c) auto
  let ?o = "off + length A"
  have r: "?o \<le> a" "a \<le> m" "m \<le> b" "b < ?o + length X" "sorted (segment (a - ?o) (m - ?o) X)"
    "sorted (segment (m + 1 - ?o) (b - ?o) X)" "good_calls ?o cs (sort_at (a - ?o) (b - ?o) X)"
    using Cons.prems by (simp_all add: c)
  have e: "segment (a - off) (m - off) (A @ X @ B) = segment (a - ?o) (m - ?o) X"
    "sort_at (a - off) (b - off) (A @ X @ B) = A @ sort_at (a - ?o) (b - ?o) X @ B"
    using r segment_block[of A "a - off" "m - off" X B] sort_at_block[of A "a - off" "b - off" X B] by simp_all
  have e2: "sorted (segment (m + 1 - off) (b - off) (A @ X @ B))"
  proof (cases "m = b")
    case False
    then show ?thesis using r segment_block[of A "m + 1 - off" "b - off" X B] by (simp add: Suc_diff_le)
  qed (use r in \<open>simp add: segment_def\<close>)
  show ?case using r e e2 Cons.IH[OF r(7)] by (simp add: c)
qed simp

lemma segment_all: "length X = Suc n \<Longrightarrow> segment 0 n X = X"
  by (simp add: segment_def)

lemma merge_calls_sort:
  "left \<le> right \<Longrightarrow> length X = Suc right - left \<Longrightarrow>
     good_calls left (merge_calls left right) X \<and> after_calls left (merge_calls left right) X = sort X"
proof (induction left right arbitrary: X rule: merge_calls.induct)
  case (1 left right)
  show ?case
  proof (cases "left < right")
    case False
    then have "length X = 1" using 1(3,4) by simp
    then have "sort X = X" by (cases X) auto
    then show ?thesis using False by (simp add: merge_calls.simps)
  next
    case True
    define m where "m = (left + right) div 2"
    have m: "left \<le> m" "m < right" using True by (simp_all add: m_def)
    define A B where "A = take (Suc m - left) X" and "B = drop (Suc m - left) X"
    have X: "X = A @ B" and lA: "length A = Suc m - left" and lB: "length B = right - m"
      using 1(4) m by (simp_all add: A_def B_def)
    have IA: "good_calls left (merge_calls left m) A" "after_calls left (merge_calls left m) A = sort A"
      using 1(1)[of m A] True m lA by (simp_all add: m_def[symmetric])
    have IB: "good_calls (m + 1) (merge_calls (m + 1) right) B" "after_calls (m + 1) (merge_calls (m + 1) right) B = sort B"
      using 1(2)[of m B] True m lB by (simp_all add: m_def[symmetric])
    have off: "left + length A = m + 1" "left + length (sort A) = m + 1" using lA m by simp_all
    have s1: "good_calls left (merge_calls left m) X" "after_calls left (merge_calls left m) X = sort A @ B"
      using calls_block[of left "[]" "merge_calls left m" A B] IA by (simp_all add: X)
    have s2: "good_calls left (merge_calls (m + 1) right) (sort A @ B)"
      "after_calls left (merge_calls (m + 1) right) (sort A @ B) = sort A @ sort B"
      using calls_block[of left "sort A" "merge_calls (m + 1) right" B "[]"] IB by (simp_all add: off)
    let ?Y = "sort A @ sort B"
    have lY: "length ?Y = Suc (right - left)" using lA lB m by simp
    have t: "segment (left - left) (m - left) ?Y = sort A"
      using lA m by (simp add: segment_def Suc_diff_le)
    have u: "segment (m + 1 - left) (right - left) ?Y = sort B"
      using lA lB m by (simp add: segment_def Suc_diff_le)
    have "sort_at (left - left) (right - left) ?Y = sort ?Y"
      using lY by (simp add: sort_at_def segment_all)
    also have "\<dots> = sort X" unfolding X by (rule properties_for_sort[symmetric]) simp_all
    finally have w: "sort_at (left - left) (right - left) ?Y = sort X" .
    have l3: "right < left + length ?Y" using lY m by simp
    have calls: "merge_calls left right = merge_calls left m @ merge_calls (m + 1) right @ [(left, m, right)]"
      using True by (simp add: merge_calls.simps[of left right] Let_def m_def)
    show ?thesis unfolding calls calls_append s1 s2 using s1(1) s2(1) t u w l3 m lY by simp
  qed
qed

section \<open>Two processes\<close>

lemma merge_block:
  assumes "merge_ok mg" and "length P = off" and "good_calls off ((a, m, b) # cs) X"
  shows "call_merge mg (a, m, b) (P @ X @ Q) = Inr (P @ sort_at (a - off) (b - off) X @ Q)"
proof -
  have r: "off \<le> a" "a \<le> m" "m \<le> b" "b < off + length X" "sorted (segment (a - off) (m - off) X)"
    "sorted (segment (m + 1 - off) (b - off) X)" using assms(3) by simp_all
  have e: "segment a m (P @ X @ Q) = segment (a - off) (m - off) X"
    "sort_at a b (P @ X @ Q) = P @ sort_at (a - off) (b - off) X @ Q"
    using r segment_block[of P a m X Q] sort_at_block[of P a b X Q] assms(2) by simp_all
  have "sorted (segment (m + 1) b (P @ X @ Q))"
  proof (cases "m = b")
    case False
    then show ?thesis using r assms(2) segment_block[of P "m + 1" b X Q] by simp
  qed (simp add: segment_def)
  then have "mg (P @ X @ Q) a m b = sort_at a b (P @ X @ Q)"
    using assms(1,2) r e unfolding merge_ok_def by simp
  then show ?thesis using r assms(2) e by (simp add: call_merge_def)
qed

lemma good_calls_length: "good_calls off cs X \<Longrightarrow> length (after_calls off cs X) = length X"
  by (induction off cs X rule: good_calls.induct) auto

lemma run_block:
  assumes "merge_ok mg" and "length P = off" and "good_calls off cs X"
  shows "run_merges mg cs (P @ X @ Q) = Inr (P @ after_calls off cs X @ Q)"
  using assms(3)
proof (induction cs arbitrary: X)
  case (Cons c cs)
  obtain a m b where c: "c = (a, m, b)" by (cases c) auto
  show ?case using merge_block[OF assms(1,2), of a m b cs X Q] Cons by (simp add: c)
qed simp

lemma run_both:
  assumes "merge_ok mg" and "length P = off" and "good_calls off cs X" and "good_calls (off + length X) ds Y"
  shows "run_merges mg (cs @ ds) (P @ X @ Y @ Q) =
     Inr (P @ after_calls off cs X @ after_calls (off + length X) ds Y @ Q)"
  using run_block[OF assms(1-3), of "Y @ Q"] run_block[OF assms(1) _ assms(4), of "P @ after_calls off cs X" Q]
    assms(2) good_calls_length[OF assms(3)]
  by (simp add: fold_res_append)

text \<open>Whatever the schedule, each process finds in its block what it would find alone.\<close>

lemma interleaved_blocks:
  assumes "merge_ok mg"
  shows "length P = off \<Longrightarrow> good_calls off cs X \<Longrightarrow> good_calls (off + length X) ds Y \<Longrightarrow>
     run_merges mg (interleave sched cs ds) (P @ X @ Y @ Q) =
       Inr (P @ after_calls off cs X @ after_calls (off + length X) ds Y @ Q)"
proof (induction sched cs ds arbitrary: X Y rule: interleave.induct)
  case (1 bs c cs ds)
  obtain a m b where c: "c = (a, m, b)" by (cases c) auto
  let ?X = "sort_at (a - off) (b - off) X"
  have "a - off \<le> b - off" "b - off < length X" using 1(3) by (auto simp: c)
  then have l: "length ?X = length X" by simp
  have "good_calls off cs ?X" using 1(3) by (simp add: c)
  then show ?case using 1(1)[OF 1(2), of ?X Y] 1(4) merge_block[OF assms 1(2) 1(3)[unfolded c], of "Y @ Q"] l
    by (simp add: c)
next
  case (2 bs cs d ds)
  obtain a m b where d: "d = (a, m, b)" by (cases d) auto
  let ?o = "off + length X"
  let ?Y = "sort_at (a - ?o) (b - ?o) Y"
  have "good_calls ?o ds ?Y" using 2(4) by (simp add: d)
  then show ?case
    using 2(1)[OF 2(2,3), of ?Y] merge_block[OF assms _ 2(4)[unfolded d], of "P @ X" Q] 2(2) by (simp add: d)
qed (simp_all only: interleave.simps run_both[OF assms])

text \<open>The work between the copy into the shared memory and the copy out of it.\<close>

lemma both_sides_sort:
  assumes mg: "merge_ok mg" and r: "left \<le> right" "right < length mem"
  shows "both_sides mg sched left ((left + right) div 2) right mem = Inr (sort_at left right mem)"
proof -
  define m where "m = (left + right) div 2"
  have m: "left \<le> m" "m \<le> right" using r by (simp_all add: m_def)
  define P X Y Q where "P = take left mem" and "X = segment left m mem" and "Y = segment (m + 1) right mem"
    and "Q = drop (right + 1) mem"
  have l: "length P = left" "length X = m + 1 - left" "length Y = right - m"
    using r m by (simp_all add: P_def X_def Y_def segment_def)
  have XY: "segment left right mem = X @ Y"
  proof -
    have "right + 1 - left = (m + 1 - left) + (right - m)" using m by simp
    moreover have "m + 1 - left + left = m + 1" using m by simp
    ultimately show ?thesis
      by (simp only: segment_def X_def Y_def take_add drop_drop) (simp add: add.commute)
  qed
  have mem: "mem = P @ X @ Y @ Q"
  proof -
    have "drop left mem = segment left right mem @ Q"
      using r by (metis (no_types) Q_def add.commute append_take_drop_id drop_drop le_add_diff_inverse2
          le_imp_less_Suc less_or_eq_imp_le segment_def Suc_eq_plus1)
    then show ?thesis unfolding P_def XY by (metis append_assoc append_take_drop_id)
  qed
  have off: "left + length X = m + 1" using l m by simp
  have gX: "good_calls left (merge_calls left m) X" "after_calls left (merge_calls left m) X = sort X"
    using merge_calls_sort[of left m X] m l by auto
  have gY: "good_calls (m + 1) (merge_calls (m + 1) right) Y \<and> after_calls (m + 1) (merge_calls (m + 1) right) Y = sort Y"
  proof (cases "m < right")
    case False
    then have "Y = []" using l m by simp
    then show ?thesis using False by (simp add: merge_calls.simps)
  qed (use merge_calls_sort[of "m + 1" right Y] l in auto)
  let ?mid = "P @ sort X @ sort Y @ Q"
  have runs: "run_merges mg (interleave sched (merge_calls left m) (merge_calls (m + 1) right)) mem = Inr ?mid"
    using interleaved_blocks[OF mg l(1) gX(1), of "merge_calls (m + 1) right" Y sched Q] gY gX(2)
    by (simp only: mem off)
  have len: "length (sort X @ sort Y) = right + 1 - left" using l m by simp
  have s: "segment left m ?mid = sort X" "segment (m + 1) right ?mid = sort Y"
    "segment left right ?mid = sort X @ sort Y"
    using l m by (simp_all add: segment_def Suc_diff_le)
  have "mg ?mid left m right = sort_at left right ?mid"
    using mg m s l unfolding merge_ok_def by (simp add: segment_def)
  also have "\<dots> = P @ sort (X @ Y) @ Q"
  proof -
    have "sort (sort X @ sort Y) = sort (X @ Y)" by (rule properties_for_sort) simp_all
    moreover have "take left ?mid = P" "drop (right + 1) ?mid = Q" using l m by simp_all
    ultimately show ?thesis by (simp only: sort_at_def s)
  qed
  also have "\<dots> = sort_at left right mem"
    by (simp add: sort_at_def XY) (simp add: P_def Q_def)
  finally show ?thesis
    using runs l m r by (simp add: both_sides_def m_def[symmetric] call_merge_def)
qed

lemma single_process_sorts:
  assumes "merge_ok mg" and "left \<le> right" and "right < length arr" and "right < 2 ^ 30"
  shows "singleProcessMergeSort mg arr left right = Inr (sort_at left right arr)"
proof -
  let ?P = "take left arr" and ?X = "segment left right arr" and ?Q = "drop (right + 1) arr"
  have "drop left arr = ?X @ ?Q"
    using append_take_drop_id[of "right + 1 - left" "drop left arr"] assms(2) by (simp add: segment_def)
  then have arr: "arr = ?P @ ?X @ ?Q" using append_take_drop_id[of left arr] by simp
  have "length ?P = left" "length ?X = Suc right - left" using assms(2,3) by (simp_all add: segment_def)
  then have "run_merges mg (merge_calls left right) (?P @ ?X @ ?Q) = Inr (?P @ sort ?X @ ?Q)"
    using run_block[OF assms(1), of ?P left "merge_calls left right" ?X ?Q] merge_calls_sort[of left right ?X] assms(2)
    by simp
  then have "run_merges mg (merge_calls left right) arr = Inr (sort_at left right arr)"
    by (simp only: arr[symmetric] sort_at_def)
  then show ?thesis using single_is_merges[of right mg arr left] assms(4) by simp
qed

text \<open>C17: The sort in two processes over POSIX shared memory sorts the sub-array and nothing else,
  whatever the interleaving of parent and child: it gives what the sort in one process gives, and
  removes its segment. When the child cannot be created the process exits and the segment stays.\<close>

theorem psort_sorts:
  assumes "merge_ok mg" and "left \<le> right" and "right < length arr" and "4 * (right + 1) < 2 ^ 31"
  shows "singleProcessMergeSort mg arr left right = Inr (sort_at left right arr) \<and>
     psort mg sched True arr left right segs = Inr (Some (sort_at left right arr), segs(''shmseg'' := None)) \<and>
     psort mg sched False arr left right segs = Inr (None, segs(''shmseg'' \<mapsto> take (right + 1) arr))"
proof -
  have m: "midpoint left right = Inr ((left + right) div 2)" using assms(2,4) by (simp add: midpoint_def)
  have b: "both_sides mg sched left ((left + right) div 2) right (take (right + 1) arr) =
      Inr (sort_at left right (take (right + 1) arr))"
    using assms by (intro both_sides_sort) simp_all
  have e: "sort_at left right (take (right + 1) arr) @ drop (right + 1) arr = sort_at left right arr"
    using assms(2,3) by (simp add: sort_at_def segment_def take_drop)
  show ?thesis using assms m b e single_process_sorts[OF assms(1-3)] by (simp add: psort_def)
qed

definition demo_merge :: merge_fn where
  "demo_merge arr l m r = sort_at l r arr"

theorem psort_sorts_witness:
  "psort demo_merge [False, True] True [3, 1, 4, 1, 5] 1 3 (\<lambda>_. None) = Inr (Some [3, 1, 1, 4, 5], (\<lambda>_. None))"
  using psort_sorts[of demo_merge 1 3 "[3, 1, 4, 1, 5]" "[False, True]" "\<lambda>_. None"]
  by (simp add: merge_ok_def demo_merge_def sort_at_def segment_def fun_upd_idem)

text \<open>The sort over System V shared memory likewise sorts under every interleaving, also when it
  meets a large enough segment left by an earlier run; a smaller one makes it fail.\<close>

theorem usort_sorts:
  assumes "merge_ok mg" and "left \<le> right" and "right < length arr" and "4 * (right + 1) < 2 ^ 31"
  shows "usort mg sched True key arr left right segs =
     (if \<forall>old. segs key = Some old \<longrightarrow> right < length old
      then Inr (Some (sort_at left right arr), segs(key := None)) else Inl Bad_Pointer)"
proof -
  have m: "midpoint left right = Inr ((left + right) div 2)" using assms(2,4) by (simp add: midpoint_def)
  show ?thesis
  proof (cases "\<forall>old. segs key = Some old \<longrightarrow> right < length old")
    case False
    then show ?thesis using assms m by (auto simp: usort_def)
  next
    case True
    define old where "old = (case segs key of None \<Rightarrow> replicate (right + 1) 0 | Some old \<Rightarrow> old)"
    define str where "str = take (right + 1) arr @ drop (right + 1) old"
    have lo: "right < length old" using True by (auto simp: old_def split: option.splits)
    have "right < length str" using assms(3) by (simp add: str_def)
    then have b: "both_sides mg sched left ((left + right) div 2) right str = Inr (sort_at left right str)"
      using assms by (intro both_sides_sort)
    have e: "take (right + 1) (sort_at left right str) @ drop (right + 1) arr = sort_at left right arr"
      using assms(2,3) by (simp add: sort_at_def segment_def str_def take_drop)
    show ?thesis using assms True m b e lo
      by (simp add: usort_def old_def[symmetric] Let_def str_def[simplified, symmetric])
  qed
qed

theorem usort_sorts_witness:
  "usort demo_merge [True] True 34 [2, 1] 0 1 (\<lambda>_. None) = Inr (Some [1, 2], (\<lambda>_. None))"
  using usort_sorts[of demo_merge 0 1 "[2, 1]" "[True]" 34 "\<lambda>_. None"]
  by (simp add: merge_ok_def demo_merge_def sort_at_def segment_def fun_upd_idem)

end
