(* ===== verification/Manpage.thy ===== *)
theory Manpage
  imports Prelude
begin

text \<open>
  \<open>Assignment3/manpage.c\<close>: seven threads show the paragraphs of a manual page in order, each
  woken by the one before it. The identifier a thread gets from \<open>getParagraphId\<close>, which is not
  in the repository, is the parameter \<open>ids\<close>; what has been shown is kept as a list. A step of the
  program is a step of one of the threads or of \<open>manpage\<close> itself, in any order.
\<close>

section \<open>The program\<close>

datatype para_point = P_Absent | P_Enter | P_Wait nat | P_Show nat | P_Post nat | P_Done

text \<open>\<open>manpage\<close> creates the threads and then waits for each of them.\<close>

datatype main_point = M_Create nat | M_Join nat | M_Return

record man_state =
  semaphores :: "nat \<Rightarrow> nat"
  points :: "nat \<Rightarrow> para_point"
  main_at :: main_point
  shown :: "nat list"

definition man_init :: man_state where
  "man_init = \<lparr>semaphores = (\<lambda>_. 0), points = (\<lambda>_. P_Absent), main_at = M_Create 0, shown = []\<rparr>"

definition goto_point :: "nat \<Rightarrow> para_point \<Rightarrow> man_state \<Rightarrow> man_state" where
  "goto_point i p s = s\<lparr>points := (points s)(i := p)\<rparr>"

text \<open>A step of thread \<open>i\<close>; \<open>None\<close> when it cannot take one.\<close>

definition thread_func :: "(nat \<Rightarrow> nat) \<Rightarrow> nat \<Rightarrow> man_state \<Rightarrow> man_state option" where
  "thread_func ids i s =
     (case points s i of
        P_Absent \<Rightarrow> None
      | P_Enter \<Rightarrow>
          let pid = ids i in Some (goto_point i (if pid > 0 then P_Wait pid else P_Show pid) s)
      | P_Wait pid \<Rightarrow>
          if semaphores s pid = 0 then None
          else Some (goto_point i (P_Show pid)
                 (s\<lparr>semaphores := (semaphores s)(pid := semaphores s pid - 1)\<rparr>))
      | P_Show pid \<Rightarrow> Some (goto_point i (P_Post pid) (s\<lparr>shown := shown s @ [pid]\<rparr>))
      | P_Post pid \<Rightarrow>
          Some (goto_point i P_Done
            (if pid < 6 then s\<lparr>semaphores := (semaphores s)(pid + 1 := semaphores s (pid + 1) + 1)\<rparr> else s))
      | P_Done \<Rightarrow> None)"

definition manpage :: "man_state \<Rightarrow> man_state option" where
  "manpage s =
     (case main_at s of
        M_Create i \<Rightarrow>
          if i < 7 then Some (goto_point i P_Enter (s\<lparr>main_at := M_Create (i + 1)\<rparr>))
          else Some (s\<lparr>main_at := M_Join 0\<rparr>)
      | M_Join i \<Rightarrow>
          if i < 7 then (if points s i = P_Done then Some (s\<lparr>main_at := M_Join (i + 1)\<rparr>) else None)
          else Some (s\<lparr>main_at := M_Return\<rparr>)
      | M_Return \<Rightarrow> None)"

inductive man_run :: "(nat \<Rightarrow> nat) \<Rightarrow> nat \<Rightarrow> man_state \<Rightarrow> bool" for ids where
  boot: "man_run ids 0 man_init"
| main: "man_run ids n s \<Longrightarrow> manpage s = Some s' \<Longrightarrow> man_run ids (Suc n) s'"
| para: "man_run ids n s \<Longrightarrow> i < 7 \<Longrightarrow> thread_func ids i s = Some s' \<Longrightarrow> man_run ids (Suc n) s'"

text \<open>Every thread gets an identifier of its own.\<close>

definition ids_ok :: "(nat \<Rightarrow> nat) \<Rightarrow> bool" where
  "ids_ok ids \<longleftrightarrow> (\<forall>i < 7. ids i < 7) \<and> (\<forall>p < 7. \<exists>i < 7. ids i = p) \<and> inj_on ids {..<7}"

section \<open>The invariant\<close>

definition passed :: "para_point \<Rightarrow> bool" where
  "passed p \<longleftrightarrow> (case p of P_Show _ \<Rightarrow> True | P_Post _ \<Rightarrow> True | P_Done \<Rightarrow> True | _ \<Rightarrow> False)"

definition point_ok :: "nat \<Rightarrow> nat \<Rightarrow> para_point \<Rightarrow> bool" where
  "point_ok k p pt =
     (case pt of
        P_Absent \<Rightarrow> k \<le> p
      | P_Enter \<Rightarrow> k \<le> p
      | P_Wait q \<Rightarrow> q = p \<and> k \<le> p \<and> 0 < p
      | P_Show q \<Rightarrow> q = p \<and> k \<le> p
      | P_Post q \<Rightarrow> q = p \<and> p < k
      | P_Done \<Rightarrow> p < k)"

definition main_ok :: "man_state \<Rightarrow> bool" where
  "main_ok s =
     (case main_at s of
        M_Create j \<Rightarrow> j \<le> 7 \<and> (\<forall>i < 7. points s i = P_Absent \<longleftrightarrow> j \<le> i)
      | M_Join j \<Rightarrow> j \<le> 7 \<and> (\<forall>i < 7. points s i \<noteq> P_Absent) \<and> (\<forall>i < j. points s i = P_Done)
      | M_Return \<Rightarrow> (\<forall>i < 7. points s i = P_Done))"

text \<open>A semaphore holds the wake-up its thread has been given and has not used yet.\<close>

definition chain_ok :: "(nat \<Rightarrow> nat) \<Rightarrow> man_state \<Rightarrow> bool" where
  "chain_ok ids s \<longleftrightarrow>
     (\<forall>i < 7. \<forall>j < 7. ids j = Suc (ids i) \<longrightarrow>
        semaphores s (ids j) + of_bool (passed (points s j)) = of_bool (points s i = P_Done))"

definition man_ok :: "(nat \<Rightarrow> nat) \<Rightarrow> man_state \<Rightarrow> bool" where
  "man_ok ids s \<longleftrightarrow>
     (\<exists>k \<le> 7. shown s = [0..<k] \<and> (\<forall>i < 7. point_ok k (ids i) (points s i))) \<and> chain_ok ids s \<and> main_ok s"

lemma points_goto [simp]: "points (goto_point i p s) = (points s)(i := p)"
  "semaphores (goto_point i p s) = semaphores s" "shown (goto_point i p s) = shown s"
  "main_at (goto_point i p s) = main_at s"
  by (simp_all add: goto_point_def)

lemma ids_inj: "ids_ok ids \<Longrightarrow> i < 7 \<Longrightarrow> j < 7 \<Longrightarrow> ids i = ids j \<longleftrightarrow> i = j"
  by (auto simp: ids_ok_def inj_on_def)

lemma man_okI:
  assumes "k \<le> 7" "shown s = [0..<k]" "\<And>i. i < 7 \<Longrightarrow> point_ok k (ids i) (points s i)"
    and "chain_ok ids s" and "main_ok s"
  shows "man_ok ids s"
  using assms by (auto simp: man_ok_def)

text \<open>A thread that is not at its end keeps \<open>manpage\<close> where it is.\<close>

lemma main_ok_step:
  assumes "main_ok s" and "points s i \<noteq> P_Absent" "points s i \<noteq> P_Done" "p \<noteq> P_Absent" "i < 7"
    and "points s' = (points s)(i := p)" "main_at s' = main_at s"
  shows "main_ok s'"
  using assms by (auto simp: main_ok_def split: main_point.splits)

lemma show_in_turn:
  assumes "ids_ok ids" and "chain_ok ids s" and "i < 7" and "points s i = P_Show q"
    and "\<forall>i < 7. point_ok k (ids i) (points s i)"
  shows "ids i = k"
proof -
  have "k \<le> ids i" using assms(3-5) by (auto simp: point_ok_def split: para_point.splits)
  moreover have "ids i \<le> k"
  proof (cases "ids i")
    case (Suc p)
    have "p < 7" using assms(1,3) Suc by (auto simp: ids_ok_def dest: spec[of _ i])
    then obtain j where j: "j < 7" "ids j = p" using assms(1) by (auto simp: ids_ok_def)
    have "semaphores s (ids i) + of_bool (passed (points s i)) = of_bool (points s j = P_Done)"
      using assms(2,3) j Suc unfolding chain_ok_def by blast
    then have "points s j = P_Done" using assms(4) by (cases "points s j = P_Done") (auto simp: passed_def)
    moreover have "point_ok k (ids j) (points s j)" using assms(5) j(1) by blast
    ultimately have "ids j < k" by (simp add: point_ok_def)
    then show ?thesis using j Suc by simp
  qed simp
  ultimately show ?thesis by simp
qed

lemma chain_okD: "chain_ok ids s \<Longrightarrow> i < 7 \<Longrightarrow> j < 7 \<Longrightarrow> ids j = Suc (ids i) \<Longrightarrow>
    semaphores s (ids j) + of_bool (passed (points s j)) = of_bool (points s i = P_Done)"
  unfolding chain_ok_def by blast

lemma chain_okI:
  assumes "\<And>i j. i < 7 \<Longrightarrow> j < 7 \<Longrightarrow> ids j = Suc (ids i) \<Longrightarrow>
    semaphores s (ids j) + of_bool (passed (points s j)) = of_bool (points s i = P_Done)"
  shows "chain_ok ids s"
  using assms unfolding chain_ok_def by blast

text \<open>A step that neither passes a wait nor ends leaves the chain of semaphores alone, \<open>sem_wait\<close> uses the
  wake-up of the thread, and \<open>sem_post\<close> at the end gives one to the next.\<close>

lemma chain_still:
  assumes ch: "chain_ok ids s" and "points s i \<noteq> P_Done" "p \<noteq> P_Done" and "ids i = 0 \<or> (passed p \<longleftrightarrow> passed (points s i))"
    and s': "points s' = (points s)(i := p)" "semaphores s' = semaphores s"
  shows "chain_ok ids s'"
proof (rule chain_okI)
  fix a b assume ab: "a < 7" "b < 7" "ids b = Suc (ids a)"
  show "semaphores s' (ids b) + of_bool (passed (points s' b)) = of_bool (points s' a = P_Done)"
    using chain_okD[OF ch ab] assms(2-4) ab(3) by (auto simp: s')
qed

lemma chain_wait:
  assumes ids: "ids_ok ids" and ch: "chain_ok ids s" and i: "i < 7" "points s i = P_Wait q" "semaphores s (ids i) \<noteq> 0"
    and s': "points s' = (points s)(i := P_Show r)" "semaphores s' = (semaphores s)(ids i := semaphores s (ids i) - 1)"
  shows "chain_ok ids s'"
proof (rule chain_okI)
  fix a b assume ab: "a < 7" "b < 7" "ids b = Suc (ids a)"
  have "ids b = ids i \<longleftrightarrow> b = i" "b = i \<Longrightarrow> a \<noteq> i" using ids_inj[OF ids ab(2) i(1)] ab(3) by auto
  then show "semaphores s' (ids b) + of_bool (passed (points s' b)) = of_bool (points s' a = P_Done)"
    using chain_okD[OF ch ab] i(2,3) by (cases "b = i") (auto simp: s' passed_def)
qed

lemma chain_post:
  assumes ids: "ids_ok ids" and ch: "chain_ok ids s" and i: "i < 7" "points s i = P_Post q"
    and s': "points s' = (points s)(i := P_Done)" "semaphores s' =
      (if ids i < 6 then (semaphores s)(ids i + 1 := semaphores s (ids i + 1) + 1) else semaphores s)"
  shows "chain_ok ids s'"
proof (rule chain_okI)
  fix a b assume ab: "a < 7" "b < 7" "ids b = Suc (ids a)"
  have "ids b < 7" using ids ab(2) by (simp add: ids_ok_def)
  then have "ids b = Suc (ids i) \<longleftrightarrow> a = i" "a = i \<Longrightarrow> b \<noteq> i \<and> ids i < 6"
    using ids_inj[OF ids ab(1) i(1)] ab(3) by auto
  then show "semaphores s' (ids b) + of_bool (passed (points s' b)) = of_bool (points s' a = P_Done)"
    using chain_okD[OF ch ab] i(2) ab(3) by (cases "a = i") (auto simp: s' passed_def)
qed

lemma para_step:
  assumes ok: "main_ok s" "\<forall>j < 7. point_ok k (ids j) (points s j)" and chain: "chain_ok ids s'"
    and i: "i < 7" "points s i \<notin> {P_Absent, P_Done}" "p \<noteq> P_Absent"
    and s': "points s' = (points s)(i := p)" "main_at s' = main_at s" "shown s' = [0..<k']" "k' \<le> 7"
    and pt: "point_ok k' (ids i) p" "\<And>j pt. j < 7 \<Longrightarrow> j \<noteq> i \<Longrightarrow> point_ok k (ids j) pt \<Longrightarrow> point_ok k' (ids j) pt"
  shows "man_ok ids s'"
proof (rule man_okI[OF s'(4,3) _ chain])
  show "point_ok k' (ids j) (points s' j)" if "j < 7" for j using ok(2) pt that by (simp add: s'(1))
  show "main_ok s'" using i by (intro main_ok_step[OF ok(1) _ _ i(3,1) s'(1,2)]) simp_all
qed

lemma thread_step_ok:
  assumes ids: "ids_ok ids" and ok: "man_ok ids s" and i: "i < 7" and x: "thread_func ids i s = Some s'"
  shows "man_ok ids s'"
proof -
  obtain k where k: "k \<le> 7" "shown s = [0..<k]" and pt: "\<forall>i < 7. point_ok k (ids i) (points s i)"
    and ch: "chain_ok ids s" and m: "main_ok s"
    using ok by (auto simp: man_ok_def)
  have pi: "point_ok k (ids i) (points s i)" using pt i by blast
  note step = para_step[OF m pt _ i]
  show ?thesis
  proof (cases "points s i")
    case P_Enter
    define p where "p = (if ids i > 0 then P_Wait (ids i) else P_Show (ids i))"
    have s': "s' = goto_point i p s" using x P_Enter by (simp add: thread_func_def p_def Let_def)
    have "chain_ok ids s'"
      by (rule chain_still[OF ch, of i p]) (use P_Enter in \<open>auto simp: s' p_def passed_def\<close>)
    then show ?thesis by (rule step[of _ p k]) (use k pi P_Enter in \<open>auto simp: s' p_def point_ok_def\<close>)
  next
    case (P_Wait q)
    have q: "q = ids i" "k \<le> ids i" using pi P_Wait by (auto simp: point_ok_def)
    have pos: "semaphores s (ids i) \<noteq> 0" using x P_Wait q by (auto simp: thread_func_def split: if_splits)
    have s': "s' = goto_point i (P_Show (ids i)) (s\<lparr>semaphores := (semaphores s)(ids i := semaphores s (ids i) - 1)\<rparr>)"
      using x P_Wait q pos by (simp add: thread_func_def)
    have "chain_ok ids s'" by (rule chain_wait[OF ids ch i P_Wait pos]) (simp_all add: s')
    then show ?thesis
      by (rule step[of _ "P_Show (ids i)" k]) (use k q P_Wait in \<open>auto simp: s' point_ok_def\<close>)
  next
    case (P_Show q)
    have q: "q = ids i" using pi P_Show by (auto simp: point_ok_def)
    have ki: "ids i = k" using show_in_turn[OF ids ch i P_Show pt] .
    have s': "s' = goto_point i (P_Post k) (s\<lparr>shown := shown s @ [k]\<rparr>)"
      using x P_Show q ki by (simp add: thread_func_def)
    have "chain_ok ids s'"
      by (rule chain_still[OF ch, of i "P_Post k"]) (use P_Show in \<open>auto simp: s' passed_def\<close>)
    then show ?thesis
    proof (rule step[of _ "P_Post k" "Suc k"])
      show "Suc k \<le> 7" using ids i ki by (auto simp: ids_ok_def)
      show "point_ok (Suc k) (ids j) pt" if "j < 7" "j \<noteq> i" "point_ok k (ids j) pt" for j pt
        using that ids_inj[OF ids that(1) i] ki by (auto simp: point_ok_def split: para_point.splits)
    qed (use k P_Show in \<open>simp_all add: s' ki point_ok_def\<close>)
  next
    case (P_Post q)
    have q: "q = ids i" "ids i < k" using pi P_Post by (auto simp: point_ok_def)
    have s': "points s' = (points s)(i := P_Done)" "semaphores s' =
        (if ids i < 6 then (semaphores s)(ids i + 1 := semaphores s (ids i + 1) + 1) else semaphores s)"
      "shown s' = shown s" "main_at s' = main_at s"
      using x P_Post q by (auto simp: thread_func_def)
    show ?thesis
      by (rule step[OF chain_post[OF ids ch i P_Post s'(1,2)], of P_Done k])
        (use k q P_Post in \<open>auto simp: s' point_ok_def\<close>)
  qed (use x in \<open>simp_all add: thread_func_def\<close>)
qed

lemma main_step_ok:
  assumes ok: "man_ok ids s" and x: "manpage s = Some s'"
  shows "man_ok ids s'"
proof -
  obtain k where k: "k \<le> 7" "shown s = [0..<k]" and pt: "\<forall>i < 7. point_ok k (ids i) (points s i)"
    and ch: "chain_ok ids s" and m: "main_ok s"
    using ok by (auto simp: man_ok_def)
  show ?thesis
  proof (cases "\<exists>j. main_at s = M_Create j \<and> j < 7")
    case True
    then obtain j where j: "main_at s = M_Create j" "j < 7" by blast
    have s': "points s' = (points s)(j := P_Enter)" "semaphores s' = semaphores s" "shown s' = shown s"
      "main_at s' = M_Create (Suc j)"
      using x j by (auto simp: manpage_def)
    have a: "points s j = P_Absent" using m j by (auto simp: main_ok_def)
    have "passed (points s' i) = passed (points s i)" "points s' i = P_Done \<longleftrightarrow> points s i = P_Done" for i
      using a by (simp_all add: s' passed_def)
    then have "chain_ok ids s'" using ch by (simp add: chain_ok_def s')
    moreover have "main_ok s'" using m j by (auto simp: main_ok_def s' Suc_le_eq)
    moreover have "point_ok k (ids i) (points s' i)" if "i < 7" for i
      using pt that a by (cases "i = j") (auto simp: s' point_ok_def dest: spec[of _ j])
    ultimately show ?thesis using k by (intro man_okI[of k]) (auto simp: s')
  next
    case False
    have s': "points s' = points s" "semaphores s' = semaphores s" "shown s' = shown s"
      using x False by (auto simp: manpage_def split: main_point.splits if_splits)
    have "main_ok s'"
      using m x False by (auto simp: main_ok_def manpage_def not_less less_Suc_eq split: main_point.splits if_splits)
    then show ?thesis using k pt ch by (intro man_okI[of k]) (auto simp: s' chain_ok_def)
  qed
qed

lemma man_run_ok: "man_run ids n s \<Longrightarrow> ids_ok ids \<Longrightarrow> man_ok ids s"
proof (induction rule: man_run.induct)
  case boot
  show ?case by (rule man_okI[of 0]) (auto simp: man_init_def point_ok_def chain_ok_def passed_def main_ok_def)
next
  case (main n s s')
  then show ?case using main_step_ok by blast
next
  case (para n s i s')
  then show ?case using thread_step_ok by blast
qed

section \<open>Order\<close>

text \<open>C19: However the eight threads of control are interleaved, the paragraphs appear in order, none
  twice and none missing in between.\<close>

theorem manpage_in_order:
  assumes "ids_ok ids" and "man_run ids n s"
  shows "\<exists>k \<le> 7. shown s = [0..<k]"
  using man_run_ok[OF assms(2,1)] by (auto simp: man_ok_def)

definition demo_ids :: "nat \<Rightarrow> nat" where
  "demo_ids i = (if i < 7 then 6 - i else 0)"

lemma demo_ids_ok: "ids_ok demo_ids"
proof -
  have "\<exists>i < 7. demo_ids i = p" if "p < 7" for p
  proof -
    have "6 - p < 7" by arith
    moreover from this have "demo_ids (6 - p) = p" using that by (simp add: demo_ids_def)
    ultimately show ?thesis by blast
  qed
  then show ?thesis by (auto simp: ids_ok_def demo_ids_def inj_on_def)
qed

theorem manpage_in_order_witness: "\<exists>s. man_run demo_ids 1 s \<and> (\<exists>k \<le> 7. shown s = [0..<k])"
proof -
  have "man_run demo_ids (Suc 0) (goto_point 0 P_Enter (man_init\<lparr>main_at := M_Create 1\<rparr>))"
    by (rule man_run.main[OF man_run.boot]) (simp add: manpage_def man_init_def)
  then show ?thesis using manpage_in_order[OF demo_ids_ok] by (metis One_nat_def)
qed

section \<open>Progress\<close>

definition point_todo :: "para_point \<Rightarrow> nat" where
  "point_todo pt = (case pt of P_Absent \<Rightarrow> 0 | P_Enter \<Rightarrow> 4 | P_Wait _ \<Rightarrow> 3 | P_Show _ \<Rightarrow> 2 | P_Post _ \<Rightarrow> 1 | P_Done \<Rightarrow> 0)"

definition main_todo :: "main_point \<Rightarrow> nat" where
  "main_todo m = (case m of M_Create j \<Rightarrow> 5 * (7 - j) + 9 | M_Join j \<Rightarrow> 8 - j | M_Return \<Rightarrow> 0)"

definition todo :: "man_state \<Rightarrow> nat" where
  "todo s = main_todo (main_at s) + (\<Sum>i < 7. point_todo (points s i))"

lemma todo_goto:
  "i < 7 \<Longrightarrow> (\<Sum>j < 7. point_todo (((points s)(i := p)) j)) + point_todo (points s i) =
     (\<Sum>j < (7::nat). point_todo (points s j)) + point_todo p"
proof -
  assume "i < 7"
  then have "(\<Sum>j < 7. f j) = f i + (\<Sum>j \<in> {..<7} - {i}. f j)" for f :: "nat \<Rightarrow> nat"
    by (intro sum.remove) auto
  from this[of "\<lambda>j. point_todo (((points s)(i := p)) j)"] this[of "\<lambda>j. point_todo (points s j)"]
  show ?thesis by simp
qed

lemma thread_todo: "i < 7 \<Longrightarrow> thread_func ids i s = Some s' \<Longrightarrow> todo s' < todo s"
proof -
  assume i: "i < 7" and x: "thread_func ids i s = Some s'"
  have p: "points s' = (points s)(i := points s' i)" and m: "main_at s' = main_at s"
    using x by (auto simp: thread_func_def Let_def split: para_point.splits if_splits)
  have less: "point_todo (points s' i) < point_todo (points s i)"
    using x by (auto simp: thread_func_def point_todo_def Let_def split: para_point.splits if_splits)
  have "(\<Sum>j < 7. point_todo (points s' j)) + point_todo (points s i) =
      (\<Sum>j < 7. point_todo (points s j)) + point_todo (points s' i)"
    using todo_goto[OF i, of s "points s' i"] unfolding p[symmetric] .
  then show ?thesis using less m by (simp add: todo_def)
qed

lemma main_todo_less:
  assumes "main_ok s" and "manpage s = Some s'"
  shows "todo s' < todo s"
proof (cases "\<exists>j. main_at s = M_Create j \<and> j < 7")
  case True
  then obtain j where j: "main_at s = M_Create j" "j < 7" by blast
  have "points s j = P_Absent" using assms(1) j by (auto simp: main_ok_def)
  then show ?thesis using assms(2) j todo_goto[of j s P_Enter]
    by (auto simp: manpage_def todo_def main_todo_def point_todo_def)
next
  case False
  then show ?thesis using assms
    by (auto simp: manpage_def main_ok_def todo_def main_todo_def split: main_point.splits if_splits)
qed

lemma man_run_bound: "man_run ids n s \<Longrightarrow> ids_ok ids \<Longrightarrow> n + todo s \<le> 44"
proof (induction rule: man_run.induct)
  case boot
  show ?case by (simp add: man_init_def todo_def main_todo_def point_todo_def)
next
  case (main n s s')
  have "main_ok s" using man_run_ok[OF main(1) main.prems] by (simp add: man_ok_def)
  then show ?case using main_todo_less[OF _ main(2)] main.IH[OF main.prems] by simp
next
  case (para n s i s')
  then show ?case using thread_todo[OF para(2,3)] by simp
qed

text \<open>The first waiting thread has been woken once all threads before it are done.\<close>

lemma some_step:
  assumes ids: "ids_ok ids" and ok: "man_ok ids s" and main: "manpage s = None" "main_at s \<noteq> M_Return"
  shows "\<exists>i < 7. \<exists>s'. thread_func ids i s = Some s'"
proof (rule ccontr)
  assume stuck: "\<not> (\<exists>i < 7. \<exists>s'. thread_func ids i s = Some s')"
  obtain j where j: "main_at s = M_Join j" "j < 7" "points s j \<noteq> P_Done"
    using main by (auto simp: manpage_def split: main_point.splits if_splits)
  have ab: "\<forall>i < 7. points s i \<noteq> P_Absent" using ok j(1) by (simp add: man_ok_def main_ok_def)
  have cases: "points s i = P_Done \<or> points s i = P_Wait (ids i) \<and> 0 < ids i \<and> semaphores s (ids i) = 0"
    if i: "i < 7" for i
  proof -
    have n: "thread_func ids i s = None" using stuck i by auto
    have "\<exists>k. point_ok k (ids i) (points s i)" using ok i by (auto simp: man_ok_def)
    then show ?thesis using n ab i
      by (auto simp: thread_func_def point_ok_def Let_def split: para_point.splits if_splits)
  qed
  have "\<forall>i < 7. ids i = p \<longrightarrow> points s i = P_Done" if "p < 7" for p
    using that
  proof (induction p)
    case 0
    then show ?case using cases by (metis less_irrefl)
  next
    case (Suc p)
    have "\<exists>i < 7. ids i = p" using ids Suc.prems by (simp add: ids_ok_def)
    then obtain i where i: "i < 7" "ids i = p" by blast
    then have d: "points s i = P_Done" using Suc by simp
    show ?case
    proof (intro allI impI)
      fix b assume b: "b < 7" "ids b = Suc p"
      have "semaphores s (ids b) + of_bool (passed (points s b)) = 1"
        using ok i b d chain_okD[of ids s i b] by (simp add: man_ok_def)
      then show "points s b = P_Done" using cases[OF b(1)] by (auto simp: passed_def)
    qed
  qed
  then show False using j(2,3) ids by (auto simp: ids_ok_def)
qed

text \<open>C20: The program always finishes: no execution has more than 44 steps, and one that cannot go on
  has shown all seven paragraphs and returned from \<open>manpage\<close>; it never deadlocks.\<close>

theorem manpage_completes:
  assumes ids: "ids_ok ids" and run: "man_run ids n s"
  shows "n \<le> 44 \<and> ((\<exists>s'. man_run ids (Suc n) s') \<or> main_at s = M_Return \<and> shown s = [0..<7])"
proof -
  have ok: "man_ok ids s" using man_run_ok[OF run ids] .
  have "(\<exists>s'. man_run ids (Suc n) s') \<or> main_at s = M_Return \<and> shown s = [0..<7]"
  proof (cases "main_at s = M_Return")
    case True
    then have fin: "\<forall>i < 7. points s i = P_Done" using ok by (simp add: man_ok_def main_ok_def)
    obtain k where k: "k \<le> 7" "shown s = [0..<k]" "\<forall>i < 7. point_ok k (ids i) (points s i)"
      using ok by (auto simp: man_ok_def)
    have "\<exists>i < 7. ids i = 6" using ids by (simp add: ids_ok_def)
    then have "6 < k" using k(3) fin by (auto simp: point_ok_def dest: spec[of _ i])
    then have "k = 7" using k(1) by simp
    then show ?thesis using k(2) True by simp
  next
    case False
    show ?thesis
    proof (cases "manpage s")
      case None
      then show ?thesis using some_step[OF ids ok None False] man_run.para[OF run] by blast
    next
      case (Some s')
      then show ?thesis using man_run.main[OF run] by blast
    qed
  qed
  then show ?thesis using man_run_bound[OF run ids] by simp
qed

theorem manpage_completes_witness: "\<exists>s'. man_run demo_ids 1 s'"
  using manpage_completes[OF demo_ids_ok man_run.boot] by (auto simp: man_init_def)

end
