(* ===== verification/Cartman.thy ===== *)
theory Cartman
  imports Prelude
begin

text \<open>
  \<open>Assignment3/cartman.c\<close>: carts that cross a ring of tracks reserve the two junctions of their
  track; every junction is guarded by a binary semaphore. The functions of \<open>cartman.h\<close>
  (\<open>reserve\<close>, \<open>cross\<close>, \<open>release\<close>) are not in the repository; their calls are recorded.
  Each arrival runs in a thread of its own, and the threads are interleaved in any order.
\<close>

section \<open>State\<close>

record cart_arg =
  cart_C :: nat
  cart_T :: nat
  cart_J :: nat

datatype cart_event = Reserved nat int | Crossed nat nat nat | Released nat int

datatype cart_point =
    C_Enter
  | C_First int int
  | C_Second int int
  | C_Reserve int int
  | C_Cross int int
  | C_Release int int
  | C_Post1 int int
  | C_Post2 int int
  | C_Exit

text \<open>Seventeen semaphores exist; \<open>tids\<close> has one element per track and is indexed by the number of the cart.\<close>

record yard =
  tracknum :: nat
  junction_sem :: "int \<Rightarrow> nat"
  carts :: "(cart_arg \<times> cart_point) list"
  events :: "cart_event list"

definition cartman :: "nat \<Rightarrow> yard res" where
  "cartman tracks =
     (if tracks \<le> 17
      then Inr \<lparr>tracknum = tracks, junction_sem = (\<lambda>j. if 0 \<le> j \<and> j < int tracks then 1 else 0),
                carts = [], events = []\<rparr>
      else Inl Bad_Pointer)"

definition arrive :: "nat \<Rightarrow> nat \<Rightarrow> nat \<Rightarrow> yard \<Rightarrow> yard res" where
  "arrive cart track junction y =
     (if cart < tracknum y
      then Inr (y\<lparr>carts := carts y @ [(\<lparr>cart_C = cart, cart_T = track, cart_J = junction\<rparr>, C_Enter)]\<rparr>)
      else Inl Bad_Pointer)"

section \<open>The junctions of a cart\<close>

text \<open>The ends of the track: carts with an odd number begin with the junction they arrive at.\<close>

definition cart_junctions :: "nat \<Rightarrow> cart_arg \<Rightarrow> int \<times> int" where
  "cart_junctions n arg =
     (let offset = (if cart_J arg = cart_T arg + 1 then - 1 else 1);
          J = int (cart_J arg);
          J1 = (if cart_C arg mod 2 \<noteq> 0 then J else (J + offset) mod int n);
          J2 = (if cart_C arg mod 2 \<noteq> 0 then (J + offset) mod int n else J);
          J1 = (if J1 = (J + offset) mod int n \<and> offset = - 1 then J + offset else J1);
          J1 = (if J1 < 0 then int n - 1 else J1);
          J2 = (if J2 < 0 then int n - 1 else J2);
          J1 = (if J1 > int n - 1 then 0 else J1);
          J2 = (if J2 > int n - 1 then 0 else J2)
      in (J1, J2))"

section \<open>Threads\<close>

definition sem_wait :: "int \<Rightarrow> yard \<Rightarrow> yard option" where
  "sem_wait j y =
     (if junction_sem y j = 0 then None
      else Some (y\<lparr>junction_sem := (junction_sem y)(j := junction_sem y j - 1)\<rparr>))"

definition sem_post :: "int \<Rightarrow> yard \<Rightarrow> yard" where
  "sem_post j y = y\<lparr>junction_sem := (junction_sem y)(j := junction_sem y j + 1)\<rparr>"

definition cart_goto :: "nat \<Rightarrow> cart_point \<Rightarrow> yard \<Rightarrow> yard" where
  "cart_goto i p y = y\<lparr>carts := (carts y)[i := (fst (carts y ! i), p)]\<rparr>"

text \<open>A step of the thread of the \<open>i\<close>th arrival; \<open>None\<close> when it has to wait or has ended.\<close>

definition make_cart :: "nat \<Rightarrow> yard \<Rightarrow> yard option" where
  "make_cart i y =
     (case carts y ! i of (arg, p) \<Rightarrow>
        (case p of
           C_Enter \<Rightarrow> (case cart_junctions (tracknum y) arg of (J1, J2) \<Rightarrow> Some (cart_goto i (C_First J1 J2) y))
         | C_First J1 J2 \<Rightarrow> map_option (cart_goto i (C_Second J1 J2)) (sem_wait J1 y)
         | C_Second J1 J2 \<Rightarrow> map_option (cart_goto i (C_Reserve J1 J2)) (sem_wait J2 y)
         | C_Reserve J1 J2 \<Rightarrow> Some (cart_goto i (C_Cross J1 J2)
             (y\<lparr>events := events y @ [Reserved (cart_C arg) J1, Reserved (cart_C arg) J2]\<rparr>))
         | C_Cross J1 J2 \<Rightarrow> Some (cart_goto i (C_Release J1 J2)
             (y\<lparr>events := events y @ [Crossed (cart_C arg) (cart_T arg) (cart_J arg)]\<rparr>))
         | C_Release J1 J2 \<Rightarrow> Some (cart_goto i (C_Post1 J1 J2)
             (y\<lparr>events := events y @ [Released (cart_C arg) J1, Released (cart_C arg) J2]\<rparr>))
         | C_Post1 J1 J2 \<Rightarrow> Some (cart_goto i (C_Post2 J1 J2) (sem_post J1 y))
         | C_Post2 J1 J2 \<Rightarrow> Some (cart_goto i C_Exit (sem_post J2 y))
         | C_Exit \<Rightarrow> None))"

inductive yard_run :: "nat \<Rightarrow> yard \<Rightarrow> bool" for tracks where
  boot: "cartman tracks = Inr y \<Longrightarrow> yard_run tracks y"
| arrival: "yard_run tracks y \<Longrightarrow> arrive c t j y = Inr y' \<Longrightarrow> yard_run tracks y'"
| cart: "yard_run tracks y \<Longrightarrow> i < length (carts y) \<Longrightarrow> make_cart i y = Some y' \<Longrightarrow> yard_run tracks y'"

section \<open>Bounds\<close>

text \<open>For a cart at a junction of the ring, on a ring of at least two tracks, the two semaphores are
  different and exist; one is that of the junction it arrives at. For a cart on a track between two
  neighbouring junctions they are the two ends of its track.\<close>

theorem junction_bounds:
  assumes "2 \<le> n" and "cart_J arg < n" and "cart_junctions n arg = (J1, J2)"
  shows "0 \<le> J1 \<and> J1 < int n \<and> 0 \<le> J2 \<and> J2 < int n \<and> J1 \<noteq> J2 \<and> int (cart_J arg) \<in> {J1, J2} \<and>
     (cart_T arg + 1 < n \<and> cart_J arg \<in> {cart_T arg, cart_T arg + 1} \<longrightarrow>
        {J1, J2} = {int (cart_T arg), int (cart_T arg) + 1})"
proof -
  let ?J = "int (cart_J arg)"
  have b: "0 \<le> ?J" "?J < int n" "2 \<le> int n" using assms by simp_all
  have wrap: "(?J + 1) mod int n = (if ?J + 1 = int n then 0 else ?J + 1)" using b by simp
  show ?thesis
  proof (cases "cart_J arg = cart_T arg + 1")
    case True
    then have "(?J + - 1) mod int n = ?J - 1" using b by (simp add: mod_pos_pos_trivial)
    then show ?thesis using assms(3) b True
      by (auto simp: cart_junctions_def Let_def split: if_splits)
  next
    case False
    then show ?thesis using assms(3) b wrap
      by (auto simp: cart_junctions_def Let_def split: if_splits)
  qed
qed

theorem junction_bounds_witness:
  "cart_junctions 5 \<lparr>cart_C = 2, cart_T = 3, cart_J = 4\<rparr> = (3, 4) \<and> (3::int) \<noteq> 4"
  using junction_bounds[of 5 "\<lparr>cart_C = 2, cart_T = 3, cart_J = 4\<rparr>" 3 4]
  by (simp add: cart_junctions_def Let_def)

section \<open>Mutual exclusion\<close>

text \<open>The semaphores a thread has taken and not given back.\<close>

definition held_sems :: "cart_point \<Rightarrow> int list" where
  "held_sems p =
     (case p of
        C_Second J1 J2 \<Rightarrow> [J1] | C_Reserve J1 J2 \<Rightarrow> [J1, J2] | C_Cross J1 J2 \<Rightarrow> [J1, J2]
      | C_Release J1 J2 \<Rightarrow> [J1, J2] | C_Post1 J1 J2 \<Rightarrow> [J1, J2] | C_Post2 J1 J2 \<Rightarrow> [J2] | _ \<Rightarrow> [])"

definition crossing :: "cart_point \<Rightarrow> bool" where
  "crossing p \<longleftrightarrow> (case p of C_Reserve _ _ \<Rightarrow> True | C_Cross _ _ \<Rightarrow> True | C_Release _ _ \<Rightarrow> True | _ \<Rightarrow> False)"

definition held_count :: "int \<Rightarrow> (cart_arg \<times> cart_point) list \<Rightarrow> nat" where
  "held_count j cs = sum_list (map (\<lambda>c. count_list (held_sems (snd c)) j) cs)"

text \<open>Every semaphore is free or taken once.\<close>

definition yard_ok :: "yard \<Rightarrow> bool" where
  "yard_ok y \<longleftrightarrow> (\<forall>j. junction_sem y j + held_count j (carts y) \<le> 1)"

lemma held_count_goto:
  assumes "i < length (carts y)"
  shows "held_count j (carts (cart_goto i p y)) + count_list (held_sems (snd (carts y ! i))) j =
     held_count j (carts y) + count_list (held_sems p) j"
proof -
  let ?f = "\<lambda>c :: cart_arg \<times> cart_point. count_list (held_sems (snd c)) j"
  have "?f (carts y ! i) \<le> sum_list (map ?f (carts y))"
    using assms by (intro member_le_sum_list) auto
  then show ?thesis using assms
    by (simp add: held_count_def cart_goto_def map_update sum_list_update)
qed

lemma cart_goto_sem [simp]: "junction_sem (cart_goto i p y) = junction_sem y"
  by (simp add: cart_goto_def)

lemma make_cart_conserves:
  assumes "i < length (carts y)" and "make_cart i y = Some y'"
  shows "junction_sem y' j + held_count j (carts y') = junction_sem y j + held_count j (carts y)"
proof -
  obtain arg p where c: "carts y ! i = (arg, p)" by (cases "carts y ! i") auto
  have g: "held_count j (carts (cart_goto i q y2)) + count_list (held_sems p) j = held_count j (carts y) + count_list (held_sems q) j"
    if "carts y2 = carts y" for q y2
    using held_count_goto[of i y2 j q] assms(1) that c by simp
  have e: "held_count j (carts (cart_goto i q (y\<lparr>events := es\<rparr>))) = held_count j (carts y)"
    if "held_sems q = held_sems p" for q es
    using g[of "y\<lparr>events := es\<rparr>" q] that by simp
  show ?thesis
  proof (cases p)
    case (C_First J1 J2)
    then show ?thesis using assms(2) c g[of "y\<lparr>junction_sem := _\<rparr>" "C_Second J1 J2"]
      by (auto simp: make_cart_def sem_wait_def held_sems_def split: if_splits)
  next
    case (C_Second J1 J2)
    let ?y2 = "y\<lparr>junction_sem := (junction_sem y)(J2 := junction_sem y J2 - 1)\<rparr>"
    have "0 < junction_sem y J2" "y' = cart_goto i (C_Reserve J1 J2) ?y2"
      using assms(2) c C_Second by (auto simp: make_cart_def sem_wait_def split: if_splits)
    then show ?thesis using C_Second g[of ?y2 "C_Reserve J1 J2"]
      by (cases "J1 = j"; cases "J2 = j") (simp_all add: held_sems_def)
  next
    case (C_Post1 J1 J2)
    then show ?thesis using assms(2) c g[of "sem_post J1 y" "C_Post2 J1 J2"]
      by (auto simp: make_cart_def sem_post_def held_sems_def split: if_splits)
  next
    case (C_Post2 J1 J2)
    then show ?thesis using assms(2) c g[of "sem_post J2 y" C_Exit]
      by (auto simp: make_cart_def sem_post_def held_sems_def split: if_splits)
  next
    case C_Enter
    obtain J1 J2 where "cart_junctions (tracknum y) arg = (J1, J2)" by fastforce
    then show ?thesis using assms(2) c C_Enter g[of y "C_First J1 J2"]
      by (auto simp: make_cart_def held_sems_def)
  next
    case (C_Reserve J1 J2)
    then show ?thesis using assms(2) c e[of "C_Cross J1 J2"] by (auto simp: make_cart_def held_sems_def)
  next
    case (C_Cross J1 J2)
    then show ?thesis using assms(2) c e[of "C_Release J1 J2"] by (auto simp: make_cart_def held_sems_def)
  next
    case (C_Release J1 J2)
    then show ?thesis using assms(2) c e[of "C_Post1 J1 J2"] by (auto simp: make_cart_def held_sems_def)
  qed (use assms(2) c in \<open>simp add: make_cart_def\<close>)
qed

lemma yard_run_ok: "yard_run tracks y \<Longrightarrow> yard_ok y"
proof (induction rule: yard_run.induct)
  case (boot y)
  then show ?case by (auto simp: cartman_def yard_ok_def held_count_def split: if_splits)
next
  case (arrival y c t j y')
  then show ?case by (auto simp: arrive_def yard_ok_def held_count_def held_sems_def split: if_splits)
next
  case (cart y i y')
  then show ?case using make_cart_conserves by (simp add: yard_ok_def)
qed

text \<open>C21: Mutual exclusion: two carts that are between reserving and releasing their junctions never
  share one, in any interleaving of any arrivals.\<close>

theorem carts_exclusive:
  assumes run: "yard_run tracks y" and i: "i < length (carts y)" and k: "k < length (carts y)" and "i \<noteq> k"
    and "crossing (snd (carts y ! i))" "crossing (snd (carts y ! k))"
  shows "set (held_sems (snd (carts y ! i))) \<inter> set (held_sems (snd (carts y ! k))) = {}"
proof (rule ccontr)
  assume "\<not> ?thesis"
  then obtain j where j: "j \<in> set (held_sems (snd (carts y ! i)))" "j \<in> set (held_sems (snd (carts y ! k)))" by auto
  let ?f = "\<lambda>c :: cart_arg \<times> cart_point. count_list (held_sems (snd c)) j"
  have one: "1 \<le> ?f (carts y ! i)" "1 \<le> ?f (carts y ! k)"
    using j by (simp_all add: Suc_le_eq count_list_0_iff flip: neq0_conv)
  have "(\<Sum>m \<in> {i, k}. ?f (carts y ! m)) \<le> (\<Sum>m < length (carts y). ?f (carts y ! m))"
    using i k by (intro sum_mono2) auto
  then have "2 \<le> held_count j (carts y)"
    using one \<open>i \<noteq> k\<close> by (simp add: held_count_def sum_list_sum_nth atLeast0LessThan)
  moreover have "junction_sem y j + held_count j (carts y) \<le> 1"
    using yard_run_ok[OF run] unfolding yard_ok_def by blast
  ultimately show False by linarith
qed

definition busy_yard :: yard where
  "busy_yard = \<lparr>tracknum = 5, junction_sem = (\<lambda>j. if j = 4 then 1 else 0),
     carts = [(\<lparr>cart_C = 1, cart_T = 0, cart_J = 0\<rparr>, C_Reserve 0 1),
              (\<lparr>cart_C = 3, cart_T = 2, cart_J = 2\<rparr>, C_Reserve 2 3)], events = []\<rparr>"

lemma busy_reached: "yard_run 5 busy_yard"
proof -
  let ?a = "\<lparr>cart_C = 1, cart_T = 0, cart_J = 0\<rparr>" and ?b = "\<lparr>cart_C = 3, cart_T = 2, cart_J = 2\<rparr>"
  let ?s = "\<lambda>j::int. if 0 \<le> j \<and> j < 5 then 1 else 0 :: nat"
  let ?y = "\<lambda>s cs. \<lparr>tracknum = 5, junction_sem = s, carts = cs, events = []\<rparr>"
  note enter = make_cart_def cart_junctions_def cart_goto_def Let_def
  note wait = make_cart_def sem_wait_def cart_goto_def
  have "yard_run 5 (?y ?s [])" by (rule yard_run.boot) (simp add: cartman_def)
  then have "yard_run 5 (?y ?s [(?a, C_Enter)])" by (rule yard_run.arrival[of _ _ 1 0 0]) (simp add: arrive_def)
  then have "yard_run 5 (?y ?s [(?a, C_Enter), (?b, C_Enter)])"
    by (rule yard_run.arrival[of _ _ 3 2 2]) (simp add: arrive_def)
  then have "yard_run 5 (?y ?s [(?a, C_First 0 1), (?b, C_Enter)])"
    by (rule yard_run.cart[of _ _ 0]) (simp_all add: enter)
  then have "yard_run 5 (?y ?s [(?a, C_First 0 1), (?b, C_First 2 3)])"
    by (rule yard_run.cart[of _ _ 1]) (simp_all add: enter)
  then have "yard_run 5 (?y (?s(0 := 0)) [(?a, C_Second 0 1), (?b, C_First 2 3)])"
    by (rule yard_run.cart[of _ _ 0]) (simp_all add: wait)
  then have "yard_run 5 (?y (?s(0 := 0, 2 := 0)) [(?a, C_Second 0 1), (?b, C_Second 2 3)])"
    by (rule yard_run.cart[of _ _ 1]) (simp_all add: wait)
  then have "yard_run 5 (?y (?s(0 := 0, 2 := 0, 1 := 0)) [(?a, C_Reserve 0 1), (?b, C_Second 2 3)])"
    by (rule yard_run.cart[of _ _ 0]) (simp_all add: wait)
  then have "yard_run 5 (?y (?s(0 := 0, 2 := 0, 1 := 0, 3 := 0)) [(?a, C_Reserve 0 1), (?b, C_Reserve 2 3)])"
    by (rule yard_run.cart[of _ _ 1]) (simp_all add: wait)
  moreover have "?s(0 := 0, 2 := 0, 1 := 0, 3 := 0) = (\<lambda>j. if j = 4 then 1 else 0)" by (auto simp: fun_eq_iff)
  ultimately show ?thesis by (simp only: busy_yard_def)
qed

theorem carts_exclusive_witness:
  "yard_run 5 busy_yard \<and> set (held_sems (snd (carts busy_yard ! 0))) \<inter> set (held_sems (snd (carts busy_yard ! 1))) = {}"
  using carts_exclusive[OF busy_reached, of 0 1] busy_reached by (simp add: busy_yard_def crossing_def)

definition stuck_yard :: yard where
  "stuck_yard = \<lparr>tracknum = 5, junction_sem = (\<lambda>j. if 2 \<le> j \<and> j < 5 then 1 else 0),
     carts = [(\<lparr>cart_C = 1, cart_T = 0, cart_J = 0\<rparr>, C_Second 0 1),
              (\<lparr>cart_C = 3, cart_T = 0, cart_J = 1\<rparr>, C_Second 1 0)], events = []\<rparr>"

lemma stuck_reached: "yard_run 5 stuck_yard"
proof -
  let ?a = "\<lparr>cart_C = 1, cart_T = 0, cart_J = 0\<rparr>" and ?b = "\<lparr>cart_C = 3, cart_T = 0, cart_J = 1\<rparr>"
  let ?s = "\<lambda>j::int. if 0 \<le> j \<and> j < 5 then 1 else 0 :: nat"
  let ?y = "\<lambda>s cs. \<lparr>tracknum = 5, junction_sem = s, carts = cs, events = []\<rparr>"
  have "yard_run 5 (?y ?s [])" by (rule yard_run.boot) (simp add: cartman_def)
  then have "yard_run 5 (?y ?s [(?a, C_Enter)])" by (rule yard_run.arrival[of _ _ 1 0 0]) (simp add: arrive_def)
  then have "yard_run 5 (?y ?s [(?a, C_Enter), (?b, C_Enter)])"
    by (rule yard_run.arrival[of _ _ 3 0 1]) (simp add: arrive_def)
  then have "yard_run 5 (?y ?s [(?a, C_First 0 1), (?b, C_Enter)])"
    by (rule yard_run.cart[of _ _ 0]) (simp_all add: make_cart_def cart_junctions_def cart_goto_def Let_def)
  then have "yard_run 5 (?y ?s [(?a, C_First 0 1), (?b, C_First 1 0)])"
    by (rule yard_run.cart[of _ _ 1]) (simp_all add: make_cart_def cart_junctions_def cart_goto_def Let_def)
  then have "yard_run 5 (?y (?s(0 := 0)) [(?a, C_Second 0 1), (?b, C_First 1 0)])"
    by (rule yard_run.cart[of _ _ 0]) (simp_all add: make_cart_def sem_wait_def cart_goto_def)
  then have "yard_run 5 (?y (?s(0 := 0, 1 := 0)) [(?a, C_Second 0 1), (?b, C_Second 1 0)])"
    by (rule yard_run.cart[of _ _ 1]) (simp_all add: make_cart_def sem_wait_def cart_goto_def)
  moreover have "?s(0 := 0, 1 := 0) = (\<lambda>j. if 2 \<le> j \<and> j < 5 then 1 else 0)" by auto
  ultimately show ?thesis by (simp only: stuck_yard_def)
qed


end
