(* ===== verification/User_Stack.thy ===== *)
theory User_Stack
  imports Prelude
begin

unbundle bit_operations_syntax

text \<open>
  The first part of \<open>Lab3/process.c\<close>: \<open>push_command\<close>, which lays out the arguments of a new
  process on its stack. Memory is a map from 32-bit addresses to bytes, \<open>None\<close> where no page is
  mapped; an access there is a fault. A C string is the list of its bytes without the terminating zero.
\<close>

type_synonym memory = "32 word \<Rightarrow> 8 word option"
type_synonym cstr = "8 word list"

section \<open>Memory\<close>

definition load8 :: "memory \<Rightarrow> 32 word \<Rightarrow> 8 word res" where
  "load8 m a = (case m a of None \<Rightarrow> Inl Bad_Pointer | Some b \<Rightarrow> Inr b)"

fun store_bytes :: "32 word \<Rightarrow> 8 word list \<Rightarrow> memory \<Rightarrow> memory res" where
  "store_bytes a [] m = Inr m"
| "store_bytes a (b # bs) m =
     (case m a of None \<Rightarrow> Inl Bad_Pointer | Some _ \<Rightarrow> store_bytes (a + 1) bs (m(a \<mapsto> b)))"

definition word_bytes :: "32 word \<Rightarrow> 8 word list" where
  "word_bytes w = [ucast w, ucast (drop_bit 8 w), ucast (drop_bit 16 w), ucast (drop_bit 24 w)]"

definition store32 :: "32 word \<Rightarrow> 32 word \<Rightarrow> memory \<Rightarrow> memory res" where
  "store32 a w m = store_bytes a (word_bytes w) m"

definition load32 :: "memory \<Rightarrow> 32 word \<Rightarrow> 32 word res" where
  "load32 m a =
     bind_res (load8 m a) (\<lambda>b0. bind_res (load8 m (a + 1)) (\<lambda>b1.
     bind_res (load8 m (a + 2)) (\<lambda>b2. bind_res (load8 m (a + 3)) (\<lambda>b3.
       Inr (ucast b0 OR push_bit 8 (ucast b1) OR push_bit 16 (ucast b2) OR push_bit 24 (ucast b3))))))"

text \<open>The string at an address; one that runs past the last address is not a string.\<close>

function cstring :: "memory \<Rightarrow> 32 word \<Rightarrow> cstr res" where
  "cstring m a =
     (case m a of
        None \<Rightarrow> Inl Bad_Pointer
      | Some b \<Rightarrow>
          if b = 0 then Inr []
          else if a = - 1 then Inl Bad_Pointer
          else bind_res (cstring m (a + 1)) (\<lambda>s. Inr (b # s)))"
  by pat_completeness auto
termination
proof (relation "measure (\<lambda>(m, a). unat (- 1 - a))", goal_cases)
  case (2 m a b)
  have "- 1 - a \<noteq> 0" using 2(3) by auto
  then have "unat (- 1 - a - 1) < unat (- 1 - a)" using measure_unat by blast
  then show ?case by (simp add: algebra_simps)
qed simp

declare cstring.simps [simp del]

section \<open>Splitting the command line\<close>

definition SPACE :: "8 word" where "SPACE = 0x20"

text \<open>\<open>strtok_r\<close> with the delimiter space: the next token and what is left.\<close>

definition strtok_r :: "cstr \<Rightarrow> (cstr \<times> cstr) option" where
  "strtok_r s =
     (let s = dropWhile (\<lambda>c. c = SPACE) s
      in if s = [] then None
         else Some (takeWhile (\<lambda>c. c \<noteq> SPACE) s, drop 1 (dropWhile (\<lambda>c. c \<noteq> SPACE) s)))"

lemma strtok_r_shorter: "strtok_r s = Some (t, rest) \<Longrightarrow> length rest < length s"
proof -
  assume x: "strtok_r s = Some (t, rest)"
  let ?s = "dropWhile (\<lambda>c. c = SPACE) s"
  have "?s \<noteq> []" "rest = drop 1 (dropWhile (\<lambda>c. c \<noteq> SPACE) ?s)"
    using x by (auto simp: strtok_r_def Let_def split: if_splits)
  moreover have "length (dropWhile (\<lambda>c. c \<noteq> SPACE) ?s) \<le> length ?s" "length ?s \<le> length s"
    by (simp_all add: length_dropWhile_le)
  ultimately show ?thesis by (cases ?s) auto
qed

function tokenize :: "cstr \<Rightarrow> cstr list" where
  "tokenize s = (case strtok_r s of None \<Rightarrow> [] | Some (t, rest) \<Rightarrow> t # tokenize rest)"
  by pat_completeness auto
termination by (relation "measure length") (auto dest: strtok_r_shorter)

declare tokenize.simps [simp del]

section \<open>Pushing\<close>

definition word_align :: "32 word \<Rightarrow> 32 word" where
  "word_align esp = esp AND 0xfffffffc"

fun push_strings :: "cstr list \<Rightarrow> 32 word \<Rightarrow> memory \<Rightarrow> (32 word list \<times> 32 word \<times> memory) res" where
  "push_strings [] esp m = Inr ([], esp, m)"
| "push_strings (t # ts) esp m =
     (let len = length t + 1; esp = esp - of_nat len
      in bind_res (store_bytes esp (t @ [0]) m) (\<lambda>m.
         bind_res (push_strings ts esp m) (\<lambda>(addrs, esp', m). Inr (esp # addrs, esp', m))))"

fun push_words :: "32 word list \<Rightarrow> 32 word \<Rightarrow> memory \<Rightarrow> (32 word \<times> memory) res" where
  "push_words [] esp m = Inr (esp, m)"
| "push_words (w # ws) esp m = bind_res (store32 (esp - 4) w m) (push_words ws (esp - 4))"

text \<open>
  The tokens are collected in a page, which holds 1024 pointers; \<open>page\<close> tells whether the
  allocator gave one.
\<close>

definition push_command :: "bool \<Rightarrow> cstr \<Rightarrow> 32 word \<Rightarrow> memory \<Rightarrow> (32 word \<times> memory) res" where
  "push_command page cmdline esp m =
     (let esp = word_align esp; tokens = tokenize cmdline; arg_count = length tokens
      in if tokens \<noteq> [] \<and> \<not> page \<or> 1024 < arg_count then Inl Bad_Pointer
         else bind_res (push_strings tokens esp m) (\<lambda>(add_arr, esp, m).
              bind_res (push_words (0 # rev add_arr) (word_align esp) m) (\<lambda>(esp, m).
                push_words [esp, of_nat arg_count, 0] esp m)))"

text \<open>What the start-up code of a C program finds: the arguments \<open>argc\<close> and \<open>argv\<close> of \<open>main\<close>
  lie above the return address.\<close>

fun map_res :: "('a \<Rightarrow> 'b res) \<Rightarrow> 'a list \<Rightarrow> 'b list res" where
  "map_res f [] = Inr []"
| "map_res f (x # xs) = bind_res (f x) (\<lambda>y. bind_res (map_res f xs) (\<lambda>ys. Inr (y # ys)))"

definition user_args :: "memory \<Rightarrow> 32 word \<Rightarrow> cstr list res" where
  "user_args m esp =
     bind_res (load32 m (esp + 4)) (\<lambda>argc.
     bind_res (load32 m (esp + 8)) (\<lambda>argv.
       map_res (\<lambda>i. bind_res (load32 m (argv + 4 * of_nat i)) (cstring m)) [0..<unat argc]))"

section \<open>Regions of memory\<close>

definition byte_at :: "memory \<Rightarrow> nat \<Rightarrow> 8 word option" where
  "byte_at m k = m (of_nat k)"

definition holds :: "memory \<Rightarrow> nat \<Rightarrow> 8 word list \<Rightarrow> bool" where
  "holds m n bs \<longleftrightarrow> (\<forall>i < length bs. byte_at m (n + i) = Some (bs ! i))"

definition mapped :: "memory \<Rightarrow> nat \<Rightarrow> nat \<Rightarrow> bool" where
  "mapped m lo hi \<longleftrightarrow> (\<forall>k. lo \<le> k \<and> k < hi \<longrightarrow> byte_at m k \<noteq> None)"

text \<open>Nothing from address \<open>e\<close> up has changed, and the same pages are mapped.\<close>

definition below :: "nat \<Rightarrow> memory \<Rightarrow> memory \<Rightarrow> bool" where
  "below e m m' \<longleftrightarrow> (\<forall>k < 2 ^ 32. e \<le> k \<longrightarrow> byte_at m' k = byte_at m k) \<and> (\<forall>a. m' a = None \<longleftrightarrow> m a = None)"

lemma addr_inj: "a < 2 ^ 32 \<Longrightarrow> b < 2 ^ 32 \<Longrightarrow> (of_nat a :: 32 word) = of_nat b \<longleftrightarrow> a = b"
  by (auto simp: word_unat_eq_iff unat_of_nat)

lemma below_refl [simp]: "below e m m"
  by (simp add: below_def)

lemma below_trans: "below e m m1 \<Longrightarrow> below e' m1 m2 \<Longrightarrow> e' \<le> e \<Longrightarrow> below e m m2"
  by (auto simp: below_def)

lemma below_mapped: "below e m m' \<Longrightarrow> mapped m lo hi \<Longrightarrow> mapped m' lo hi"
  by (auto simp: below_def mapped_def byte_at_def)

lemma below_holds:
  "below e m m' \<Longrightarrow> holds m n bs \<Longrightarrow> e \<le> n \<Longrightarrow> n + length bs \<le> 2 ^ 32 \<Longrightarrow> holds m' n bs"
  by (auto simp: below_def holds_def)

lemma mapped_mono: "mapped m lo hi \<Longrightarrow> lo \<le> lo' \<Longrightarrow> hi' \<le> hi \<Longrightarrow> mapped m lo' hi'"
  by (auto simp: mapped_def)

lemma byte_at_upd: "n < 2 ^ 32 \<Longrightarrow> k < 2 ^ 32 \<Longrightarrow> byte_at (m(of_nat n \<mapsto> b)) k = (if k = n then Some b else byte_at m k)"
  by (simp add: byte_at_def addr_inj)

lemma store_bytes_ok:
  assumes "mapped m n (n + length bs)" and "n + length bs \<le> 2 ^ 32"
  shows "\<exists>m'. store_bytes (of_nat n) bs m = Inr m' \<and> holds m' n bs \<and> below (n + length bs) m m' \<and>
     (\<forall>k < 2 ^ 32. k < n \<longrightarrow> byte_at m' k = byte_at m k)"
  using assms
proof (induction bs arbitrary: n m)
  case Nil
  then show ?case by (simp add: holds_def)
next
  case (Cons b bs)
  let ?m = "m(of_nat n \<mapsto> b)"
  have n: "n < 2 ^ 32" using Cons.prems(2) by simp
  have "byte_at m n \<noteq> None" using Cons.prems(1) by (simp add: mapped_def)
  then obtain c where c: "m (of_nat n) = Some c" by (auto simp: byte_at_def)
  have "mapped ?m (Suc n) (Suc n + length bs)" using Cons.prems(1) by (auto simp: mapped_def byte_at_def)
  moreover have "Suc n + length bs \<le> 2 ^ 32" using Cons.prems(2) by simp
  ultimately obtain m' where m': "store_bytes (of_nat (Suc n)) bs ?m = Inr m'" "holds m' (Suc n) bs"
    "below (Suc n + length bs) ?m m'" "\<forall>k < 2 ^ 32. k < Suc n \<longrightarrow> byte_at m' k = byte_at ?m k"
    using Cons.IH by blast
  have "byte_at m' n = Some b" using m'(4) n byte_at_upd[OF n n] by simp
  then have "holds m' n (b # bs)"
    using m'(2) by (auto simp: holds_def nth_Cons split: nat.splits)
  moreover have "below (n + length (b # bs)) m m'"
    using m'(3) c byte_at_upd[OF n] by (auto simp: below_def)
  moreover have "\<forall>k < 2 ^ 32. k < n \<longrightarrow> byte_at m' k = byte_at m k"
    using m'(4) byte_at_upd[OF n] by auto
  moreover have "store_bytes (of_nat n) (b # bs) m = Inr m'"
    using m'(1) c by (simp add: add.commute)
  ultimately show ?case by blast
qed

lemma load8_holds: "holds m n bs \<Longrightarrow> i < length bs \<Longrightarrow> load8 m (of_nat (n + i)) = Inr (bs ! i)"
  by (simp add: holds_def load8_def byte_at_def)

lemma join_bytes:
  "ucast (ucast w :: 8 word) OR push_bit 8 (ucast (ucast (drop_bit 8 w) :: 8 word)) OR
     push_bit 16 (ucast (ucast (drop_bit 16 w) :: 8 word)) OR
     push_bit 24 (ucast (ucast (drop_bit 24 w) :: 8 word)) = (w :: 32 word)"
proof (rule bit_word_eqI)
  fix n assume "n < LENGTH(32)"
  then consider "n < 8" | "8 \<le> n" "n < 16" | "16 \<le> n" "n < 24" | "24 \<le> n" "n < 32" by fastforce
  then show "bit (ucast (ucast w :: 8 word) OR push_bit 8 (ucast (ucast (drop_bit 8 w) :: 8 word)) OR
     push_bit 16 (ucast (ucast (drop_bit 16 w) :: 8 word)) OR
     push_bit 24 (ucast (ucast (drop_bit 24 w) :: 8 word)) :: 32 word) n = bit w n"
    by cases (auto simp: bit_simps)
qed

lemma load32_word:
  assumes "holds m n (word_bytes w)"
  shows "load32 m (of_nat n) = Inr w"
proof -
  have "load8 m (of_nat n) = Inr (ucast w)" "load8 m (of_nat n + 1) = Inr (ucast (drop_bit 8 w))"
    "load8 m (of_nat n + 2) = Inr (ucast (drop_bit 16 w))" "load8 m (of_nat n + 3) = Inr (ucast (drop_bit 24 w))"
    using load8_holds[OF assms, of 0] load8_holds[OF assms, of 1] load8_holds[OF assms, of 2]
      load8_holds[OF assms, of 3]
    by (simp_all add: word_bytes_def add.commute)
  then show ?thesis using join_bytes[of w] by (simp add: load32_def)
qed

lemma holds_Cons: "holds m n (b # bs) \<longleftrightarrow> byte_at m n = Some b \<and> holds m (Suc n) bs"
  by (auto simp: holds_def nth_Cons split: nat.splits)

lemma holds_append: "holds m n (xs @ ys) \<longleftrightarrow> holds m n xs \<and> holds m (n + length xs) ys"
  by (induction xs arbitrary: n) (auto simp: holds_Cons holds_def[of _ _ "[]"])

lemma cstring_holds:
  assumes "holds m n (s @ [0])" and "0 \<notin> set s" and "n + length s < 2 ^ 32"
  shows "cstring m (of_nat n) = Inr s"
  using assms
proof (induction s arbitrary: n)
  case Nil
  then show ?case by (subst cstring.simps) (simp add: holds_Cons byte_at_def)
next
  case (Cons b s)
  have "m (of_nat n) = Some b" "holds m (Suc n) (s @ [0])"
    using Cons.prems(1) by (simp_all add: holds_Cons byte_at_def)
  moreover have "(of_nat n :: 32 word) \<noteq> - 1"
  proof
    assume "(of_nat n :: 32 word) = - 1"
    then have "(of_nat (Suc n) :: 32 word) = of_nat 0" by simp
    then show False using Cons.prems(3) addr_inj[of "Suc n" 0] by simp
  qed
  ultimately show ?case using Cons.IH[of "Suc n"] Cons.prems(2,3)
    by (subst cstring.simps) (simp add: add.commute)
qed

end
