(* ===== verification/User_Stack_Props.thy ===== *)
theory User_Stack_Props
  imports User_Stack
begin

text \<open>
  The stack that \<open>push_command\<close> builds is the one the start-up code of a program expects: reading
  it back gives the words of the command line.
\<close>

section \<open>Alignment\<close>

lemma unat_less_32: "unat (x :: 32 word) < 2 ^ 32"
  by (rule order_less_le_trans[OF unsigned_less]) simp

lemma word_align_shift: "word_align x = push_bit 2 (drop_bit 2 x)"
proof -
  have m: "(0xfffffffc :: 32 word) = NOT (mask 2)" by (simp add: mask_eq_exp_minus_1)
  show ?thesis unfolding word_align_def m
  proof (rule bit_word_eqI)
    fix n assume n: "n < LENGTH(32)"
    show "bit (x AND NOT (mask 2)) n \<longleftrightarrow> bit (push_bit 2 (drop_bit 2 x)) n"
    proof (cases "n < 2")
      case False
      then obtain k where "n = 2 + k" using le_iff_add[of 2 n] by auto
      then show ?thesis using n by (simp add: bit_simps)
    qed (use n in \<open>simp add: bit_simps\<close>)
  qed
qed

lemma unat_word_align: "unat (word_align x) = unat x div 4 * 4"
proof -
  have "take_bit 32 (unat x) = unat x" using unat_less_32[of x] by (intro take_bit_nat_eq_self) simp
  then have "unat (word_align x) = take_bit 32 (unat x div 4 * 4)"
    by (simp only: word_align_shift unsigned_push_bit_eq unsigned_drop_bit_eq)
      (simp add: push_bit_eq_mult drop_bit_eq_div)
  also have "\<dots> = unat x div 4 * 4"
  proof (rule take_bit_nat_eq_self)
    have "unat x div 4 * 4 \<le> unat x" by simp
    then show "unat x div 4 * 4 < 2 ^ 32" using unat_less_32[of x] by simp
  qed
  finally show ?thesis .
qed

lemma word_align_of_nat: "e < 2 ^ 32 \<Longrightarrow> word_align (of_nat e) = of_nat (e div 4 * 4)"
proof -
  assume "e < 2 ^ 32"
  then have "unat (of_nat e :: 32 word) = e" by (simp add: unat_of_nat)
  then have "unat (word_align (of_nat e)) = e div 4 * 4" using unat_word_align[of "of_nat e"] by simp
  moreover have "e div 4 * 4 < 2 ^ 32" using \<open>e < 2 ^ 32\<close> by linarith
  then have "unat (of_nat (e div 4 * 4) :: 32 word) = e div 4 * 4" by (simp only: unat_of_nat) simp
  ultimately show ?thesis by (simp only: word_unat_eq_iff)
qed

section \<open>Pushing\<close>

lemma push_words_ok:
  assumes "mapped m (e - 4 * length ws) e" and "4 * length ws \<le> e" and "e \<le> 2 ^ 32"
  shows "\<exists>m'. push_words ws (of_nat e) m = Inr (of_nat (e - 4 * length ws), m') \<and>
     holds m' (e - 4 * length ws) (concat (map word_bytes (rev ws))) \<and> below e m m'"
  using assms
proof (induction ws arbitrary: e m)
  case Nil
  then show ?case by (simp add: holds_def)
next
  case (Cons w ws)
  let ?n = "e - 4 * length (w # ws)"
  have l: "length (word_bytes w) = 4" by (simp add: word_bytes_def)
  have e: "e - 4 + 4 = e" "e - 4 - 4 * length ws = ?n" "(of_nat e :: 32 word) - 4 = of_nat (e - 4)"
    using Cons.prems(2) by (simp_all add: of_nat_diff)
  have "mapped m (e - 4) (e - 4 + length (word_bytes w))"
    using Cons.prems(1) l e(1) by (auto intro: mapped_mono)
  then obtain m1 where m1: "store_bytes (of_nat (e - 4)) (word_bytes w) m = Inr m1" "holds m1 (e - 4) (word_bytes w)"
    "below e m m1"
    using store_bytes_ok[of m "e - 4" "word_bytes w"] Cons.prems(3) l e(1) by auto
  have "mapped m1 (e - 4 - 4 * length ws) (e - 4)"
    using mapped_mono[OF below_mapped[OF m1(3) Cons.prems(1)], of "e - 4 - 4 * length ws" "e - 4"] e(2) by simp
  moreover have "4 * length ws \<le> e - 4" "e - 4 \<le> 2 ^ 32" using Cons.prems(2,3) by simp_all
  ultimately obtain m2 where m2: "push_words ws (of_nat (e - 4)) m1 = Inr (of_nat ?n, m2)"
    "holds m2 ?n (concat (map word_bytes (rev ws)))" "below (e - 4) m1 m2"
    using Cons.IH[of m1 "e - 4"] unfolding e(2) by blast
  have len: "length (concat (map word_bytes (rev ws))) = 4 * length ws"
    by (induction ws) (simp_all add: word_bytes_def)
  have "holds m2 (e - 4) (word_bytes w)"
    using below_holds[OF m2(3) m1(2)] l e(1) Cons.prems(3) by simp
  moreover have "?n + 4 * length ws = e - 4" using Cons.prems(2) by simp
  ultimately have "holds m2 ?n (concat (map word_bytes (rev (w # ws))))"
    using m2(2) len by (simp add: holds_append)
  moreover have "below e m m2" using below_trans[OF m1(3) m2(3)] by simp
  moreover have "push_words (w # ws) (of_nat e) m = Inr (of_nat ?n, m2)"
    using m1(1) m2(1) e(3) by (simp add: store32_def)
  ultimately show ?case by blast
qed

definition string_space :: "cstr list \<Rightarrow> nat" where
  "string_space ts = sum_list (map (\<lambda>t. length t + 1) ts)"

lemma push_strings_ok:
  assumes "mapped m (e - string_space ts) e" and "string_space ts \<le> e" and "e < 2 ^ 32"
  shows "\<exists>ns m'. push_strings ts (of_nat e) m = Inr (map of_nat ns, of_nat (e - string_space ts), m') \<and>
     length ns = length ts \<and> below e m m' \<and>
     (\<forall>j < length ts. holds m' (ns ! j) (ts ! j @ [0]) \<and> e - string_space ts \<le> ns ! j \<and>
        ns ! j + length (ts ! j) < e)"
  using assms
proof (induction ts arbitrary: e m)
  case Nil
  then show ?case by (auto simp: string_space_def)
next
  case (Cons t ts)
  let ?l = "length t + 1" and ?e = "e - (length t + 1)" and ?n = "e - string_space (t # ts)"
  have sp: "string_space (t # ts) = ?l + string_space ts" by (simp add: string_space_def)
  have e: "?e + ?l = e" "?e - string_space ts = ?n" "(of_nat e :: 32 word) - of_nat ?l = of_nat ?e"
    using Cons.prems(2) unfolding sp by (simp_all add: of_nat_diff del: of_nat_Suc of_nat_add)
  have "mapped m ?e (?e + length (t @ [0 :: 8 word]))"
    using mapped_mono[OF Cons.prems(1), of ?e e] e unfolding sp by simp
  then obtain m1 where m1: "store_bytes (of_nat ?e) (t @ [0]) m = Inr m1" "holds m1 ?e (t @ [0])" "below e m m1"
    using store_bytes_ok[of m ?e "t @ [0]"] Cons.prems(3) e(1) by auto
  have "mapped m1 (?e - string_space ts) ?e"
    using mapped_mono[OF below_mapped[OF m1(3) Cons.prems(1)], of "?e - string_space ts" ?e] e(2) by simp
  moreover have "string_space ts \<le> ?e" "?e < 2 ^ 32" using Cons.prems(2,3) unfolding sp by simp_all
  ultimately obtain ns m2 where m2: "push_strings ts (of_nat ?e) m1 = Inr (map of_nat ns, of_nat ?n, m2)"
    "length ns = length ts" "below ?e m1 m2"
    "\<forall>j < length ts. holds m2 (ns ! j) (ts ! j @ [0]) \<and> ?n \<le> ns ! j \<and> ns ! j + length (ts ! j) < ?e"
    using Cons.IH[of m1 ?e] unfolding e(2) by blast
  have "holds m2 ?e (t @ [0])" using below_holds[OF m2(3) m1(2)] e(1) Cons.prems(3) by simp
  moreover have "?n \<le> ?e" "?e + length t < e" using e(1,2) by simp_all
  ultimately have "\<forall>j < length (t # ts). holds m2 ((?e # ns) ! j) ((t # ts) ! j @ [0]) \<and> ?n \<le> (?e # ns) ! j \<and>
      (?e # ns) ! j + length ((t # ts) ! j) < e"
    using m2(4) by (auto simp: less_Suc_eq_0_disj)
  moreover have "below e m m2" using below_trans[OF m1(3) m2(3)] by simp
  moreover have "push_strings (t # ts) (of_nat e) m = Inr (map of_nat (?e # ns), of_nat ?n, m2)"
    using m1(1) m2(1) e(3) by (simp add: Let_def del: of_nat_Suc of_nat_add)
  ultimately show ?case using m2(2) by (intro exI[of _ "?e # ns"] exI[of _ m2]) simp
qed

lemma holds_words:
  "holds m n (concat (map word_bytes ws)) \<Longrightarrow> i < length ws \<Longrightarrow> holds m (n + 4 * i) (word_bytes (ws ! i))"
proof (induction ws arbitrary: n i)
  case (Cons w ws)
  have "length (word_bytes w) = 4" by (simp add: word_bytes_def)
  then show ?case using Cons.prems Cons.IH[of "n + 4" "i - 1"]
    by (cases i) (auto simp: holds_append add.assoc)
qed simp

lemma map_res_upt:
  assumes "\<And>i. i < n \<Longrightarrow> f i = Inr (g i)"
  shows "map_res f [0..<n] = Inr (map g [0..<n])"
proof -
  have "map_res f xs = Inr (map g xs)" if "\<forall>i \<in> set xs. i < n" for xs
    using that assms by (induction xs) simp_all
  then show ?thesis by simp
qed

lemma tokenize_subset: "t \<in> set (tokenize s) \<Longrightarrow> set t \<subseteq> set s"
proof (induction s rule: tokenize.induct)
  case (1 s)
  show ?case
  proof (cases "strtok_r s")
    case None
    then show ?thesis using 1(2) by (simp add: tokenize.simps[of s])
  next
    case (Some p)
    obtain t' rest where p: "p = (t', rest)" by (cases p) auto
    have "set t' \<subseteq> set s" "set rest \<subseteq> set s"
      using Some p by (auto simp: strtok_r_def Let_def split: if_splits
          dest!: set_takeWhileD in_set_dropD dest: set_dropWhileD)
    then show ?thesis using 1(2) 1(1)[OF Some p[symmetric]] Some p by (auto simp: tokenize.simps[of s])
  qed
qed

section \<open>The round trip\<close>

text \<open>The stack space that is enough: strings, alignment, pointers, arguments of \<open>main\<close>.\<close>

definition stack_need :: "cstr \<Rightarrow> nat" where
  "stack_need cmdline = string_space (tokenize cmdline) + 4 * length (tokenize cmdline) + 22"

lemma args_read_back:
  assumes "holds m n (word_bytes 0 @ word_bytes (of_nat argc) @ word_bytes (of_nat (n + 12)) @
      concat (map word_bytes (map of_nat ns)))"
    and "length ns = argc" "length ts = argc" "argc < 2 ^ 32"
    and "\<And>j. j < argc \<Longrightarrow> cstring m (of_nat (ns ! j)) = Inr (ts ! j)"
  shows "load32 m (of_nat n) = Inr 0 \<and> user_args m (of_nat n) = Inr ts"
proof -
  let ?ws = "[0, of_nat argc, of_nat (n + 12)] @ map of_nat ns :: 32 word list"
  have h: "holds m n (concat (map word_bytes ?ws))" using assms(1) by simp
  have w: "load32 m (of_nat (n + 4 * i)) = Inr (?ws ! i)" if "i < 3 + argc" for i
    using load32_word[OF holds_words[OF h, of i]] that assms(2) by simp
  have w0: "load32 m (of_nat n) = Inr 0" "load32 m (of_nat n + 4) = Inr (of_nat argc)"
    "load32 m (of_nat n + 8) = Inr (of_nat (n + 12))"
    using w[of 0] w[of 1] w[of 2] by (simp_all add: add.commute)
  have wi: "load32 m (of_nat (n + 12) + 4 * of_nat i) = Inr (of_nat (ns ! i))" if "i < argc" for i
  proof -
    have "(of_nat (n + 4 * (3 + i)) :: 32 word) = of_nat (n + 12) + 4 * of_nat i" by simp
    then show ?thesis using w[of "3 + i"] that assms(2) by (simp add: nth_append add.assoc)
  qed
  have "map_res (\<lambda>i. bind_res (load32 m (of_nat (n + 12) + 4 * of_nat i)) (cstring m)) [0..<argc] =
      Inr (map (\<lambda>i. ts ! i) [0..<argc])"
    by (rule map_res_upt) (use wi assms(5) in \<open>simp del: of_nat_add\<close>)
  also have "map (\<lambda>i. ts ! i) [0..<argc] = ts" using assms(3) map_nth[of ts] by simp
  moreover have "unat (of_nat argc :: 32 word) = argc" using assms(4) by (simp add: unat_of_nat)
  ultimately show ?thesis using w0 by (simp add: user_args_def del: of_nat_add)
qed

text \<open>What the three pushes leave is the frame a start-up function reads.\<close>

lemma pushed_args_read_back:
  assumes str: "\<forall>j < length ts. holds m1 (ns ! j) (ts ! j @ [0]) \<and> e3 \<le> ns ! j \<and> ns ! j + length (ts ! j) < 2 ^ 32"
    and len: "length ns = length ts" "length ts < 2 ^ 32" and nul: "\<forall>t \<in> set ts. 0 \<notin> set t"
    and W: "below e3 m1 m2" "holds m2 (e5 + 12) (concat (map word_bytes (map of_nat ns)) @ word_bytes 0)"
    and V: "below (e5 + 12) m2 m3" "holds m3 e5 (word_bytes 0 @ word_bytes (of_nat (length ts)) @ word_bytes (of_nat (e5 + 12)))"
    and e: "e5 + 12 + 4 * (length ts + 1) = e3" "e3 < 2 ^ 32"
  shows "load32 m3 (of_nat e5) = Inr 0 \<and> user_args m3 (of_nat e5) = Inr ts"
proof (rule args_read_back)
  have len4: "length (concat (map word_bytes (map of_nat ns))) = 4 * length ns"
    by (induction ns) (simp_all add: word_bytes_def)
  have "holds m3 (e5 + 12) (concat (map word_bytes (map of_nat ns)) @ word_bytes 0)"
    using below_holds[OF V(1) W(2)] e len4 len by (simp add: word_bytes_def[of 0] del: map_map)
  then have "holds m3 (e5 + 12) (concat (map word_bytes (map of_nat ns)))" unfolding holds_append by blast
  moreover have "length (word_bytes 0 @ word_bytes (of_nat (length ts)) @ word_bytes (of_nat (e5 + 12))) = 12"
    by (simp add: word_bytes_def)
  ultimately have "holds m3 e5 ((word_bytes 0 @ word_bytes (of_nat (length ts)) @ word_bytes (of_nat (e5 + 12))) @
      concat (map word_bytes (map of_nat ns)))"
    unfolding holds_append[of _ _ "_ @ _ @ _"] using V(2) by simp
  then show "holds m3 e5 (word_bytes 0 @ word_bytes (of_nat (length ts)) @ word_bytes (of_nat (e5 + 12)) @
      concat (map word_bytes (map of_nat ns)))" by simp
  show "cstring m3 (of_nat (ns ! j)) = Inr (ts ! j)" if j: "j < length ts" for j
  proof (rule cstring_holds)
    have n: "e3 \<le> ns ! j" "ns ! j + length (ts ! j) < 2 ^ 32" "holds m1 (ns ! j) (ts ! j @ [0])" using str j by blast+
    then have "holds m2 (ns ! j) (ts ! j @ [0])" using below_holds[OF W(1)] by simp
    then show "holds m3 (ns ! j) (ts ! j @ [0])" using below_holds[OF V(1)] n e by simp
    show "0 \<notin> set (ts ! j)" using nul j by simp
    show "ns ! j + length (ts ! j) < 2 ^ 32" using n by simp
  qed
qed (use len in simp_all)

text \<open>C16: \<open>push_command\<close> round trip: with enough mapped stack it succeeds and leaves an aligned stack
  pointer, a zero return address above it and \<open>argc\<close> and \<open>argv\<close> from which the start-up code reads
  exactly the words of the command line; nothing above the old stack pointer changes and no more than the
  computed space is used.\<close>

theorem push_command_roundtrip:
  assumes room: "mapped m (unat esp - stack_need cmdline) (unat esp)" "stack_need cmdline \<le> unat esp"
    and args: "length (tokenize cmdline) \<le> 1024" and nul: "0 \<notin> set cmdline"
  shows "\<exists>esp' m'. push_command True cmdline esp m = Inr (esp', m') \<and>
     unat esp' mod 4 = 0 \<and> unat esp - stack_need cmdline \<le> unat esp' \<and> unat esp' < unat esp \<and>
     load32 m' esp' = Inr 0 \<and> user_args m' esp' = Inr (tokenize cmdline) \<and>
     below (unat esp) m m'"
proof -
  define ts where "ts = tokenize cmdline"
  define e0 where "e0 = unat esp"
  define e1 where "e1 = e0 div 4 * 4"
  define e2 where "e2 = e1 - string_space ts"
  define e3 where "e3 = e2 div 4 * 4"
  define e4 where "e4 = e3 - 4 * (length ts + 1)"
  define e5 where "e5 = e4 - 12"
  let ?lo = "e0 - stack_need cmdline"
  have need: "string_space ts + 4 * length ts + 22 \<le> e0" "stack_need cmdline = string_space ts + 4 * length ts + 22"
    using room(2) by (simp_all add: stack_need_def ts_def e0_def)
  have e0: "e0 < 2 ^ 32" using unat_less_32[of esp] by (simp add: e0_def)
  have d: "e1 \<le> e0" "e0 < e1 + 4" "e3 \<le> e2" "e2 < e3 + 4" by (simp_all add: e1_def e3_def)
  have o: "?lo \<le> e5" "e5 + 12 = e4" "e4 + 4 * (length ts + 1) = e3" "e3 \<le> e2" "e2 + string_space ts = e1" "e1 \<le> e0"
    using need d by (simp_all add: e2_def e4_def e5_def)
  have mp: "mapped m ?lo e0" using room(1) by (simp add: e0_def)
  have mp': "mapped m' lo hi" if "below b m m'" "?lo \<le> lo" "hi \<le> e0" for b m' lo hi
    using mapped_mono[OF below_mapped[OF that(1) mp] that(2,3)] .
  have a: "word_align esp = of_nat e1" "word_align (of_nat e2) = of_nat e3"
    using word_align_of_nat[of e0] word_align_of_nat[of e2] e0 o by (simp_all add: e0_def e1_def e3_def)
  obtain ns m1 where S: "push_strings ts (of_nat e1) m = Inr (map of_nat ns, of_nat e2, m1)"
      "length ns = length ts" "below e1 m m1"
      "\<forall>j < length ts. holds m1 (ns ! j) (ts ! j @ [0]) \<and> e2 \<le> ns ! j \<and> ns ! j + length (ts ! j) < e1"
    using push_strings_ok[of m e1 ts] mp'[OF below_refl, of e2 e1] o e0 by (auto simp: e2_def)
  let ?ws = "0 # rev (map of_nat ns) :: 32 word list"
  have l1: "4 * length ?ws = 4 * (length ts + 1)" using S(2) by simp
  have e4: "e3 - 4 * length ?ws = e4" "4 * length ?ws \<le> e3" using o unfolding l1 e4_def by linarith+
  obtain m2 where W: "push_words ?ws (of_nat e3) m1 = Inr (of_nat e4, m2)"
      "holds m2 e4 (concat (map word_bytes (rev ?ws)))" "below e3 m1 m2"
    using push_words_ok[of m1 e3 ?ws] mp'[OF S(3), of e4 e3] o e0 unfolding e4(1) using e4(2) by auto
  let ?vs = "[of_nat e4, of_nat (length ts), 0] :: 32 word list"
  have b2: "below e1 m m2" using below_trans[OF S(3) W(3)] o by simp
  obtain m3 where V: "push_words ?vs (of_nat e4) m2 = Inr (of_nat e5, m3)"
      "holds m3 e5 (concat (map word_bytes (rev ?vs)))" "below e4 m2 m3"
    using push_words_ok[of m2 e4 ?vs] mp'[OF b2, of e5 e4] o e0 by (auto simp: e5_def)
  have b3: "below e1 m m3" using below_trans[OF b2 V(3)] o by simp
  have fin: "push_command True cmdline esp m = Inr (of_nat e5, m3)"
    using S(1) W(1) V(1) a args by (simp add: push_command_def ts_def[symmetric] Let_def)
  have "load32 m3 (of_nat e5) = Inr 0 \<and> user_args m3 (of_nat e5) = Inr ts"
  proof (rule pushed_args_read_back)
    show "\<forall>j < length ts. holds m1 (ns ! j) (ts ! j @ [0]) \<and> e3 \<le> ns ! j \<and> ns ! j + length (ts ! j) < 2 ^ 32"
      using S(4) o e0 by fastforce
    show "\<forall>t \<in> set ts. 0 \<notin> set t" using nul tokenize_subset by (fastforce simp: ts_def)
    show "holds m2 (e5 + 12) (concat (map word_bytes (map of_nat ns)) @ word_bytes 0)" using W(2) by (simp add: o(2))
    show "holds m3 e5 (word_bytes 0 @ word_bytes (of_nat (length ts)) @ word_bytes (of_nat (e5 + 12)))"
      using V(2) unfolding o(2) by simp
  qed (use S(2) W(3) V(3) o e0 need in simp_all)
  moreover have "unat (of_nat e5 :: 32 word) = e5" using o e0 by (simp add: unat_of_nat)
  moreover have "e5 mod 4 = 0" unfolding e5_def e4_def e3_def using o by presburger
  moreover have "below e0 m m3" using b3 o by (auto simp: below_def)
  ultimately show ?thesis using fin o need unfolding e0_def[symmetric] ts_def[symmetric] by auto
qed

text \<open>A stack page below \<open>0xC0000000\<close>, and a command line of two words.\<close>

definition demo_stack :: memory where
  "demo_stack a = (if 0xBFFFF000 \<le> a \<and> a < 0xC0000000 then Some 0 else None)"

definition demo_line :: cstr where
  "demo_line = [0x6C, 0x73, 0x20, 0x20, 0x78]"

lemma tokenize_demo: "tokenize demo_line = [[0x6C, 0x73], [0x78]]"
  by (simp add: demo_line_def tokenize.simps strtok_r_def SPACE_def)

theorem push_command_roundtrip_witness:
  "\<exists>esp' m'. push_command True demo_line 0xC0000000 demo_stack = Inr (esp', m') \<and> unat esp' mod 4 = 0 \<and>
     user_args m' esp' = Inr [[0x6C, 0x73], [0x78]]"
proof -
  have n: "stack_need demo_line = 35" by (simp add: stack_need_def string_space_def tokenize_demo)
  have "mapped demo_stack (unat (0xC0000000 :: 32 word) - 35) (unat (0xC0000000 :: 32 word))"
    unfolding mapped_def byte_at_def demo_stack_def
    by (auto simp: word_le_nat_alt word_less_nat_alt unat_of_nat)
  then show ?thesis
    using push_command_roundtrip[of demo_stack "0xC0000000" demo_line] n
    by (auto simp: tokenize_demo) (auto simp: demo_line_def)
qed

end
