(* ===== verification/Lab3_State.thy ===== *)
theory Lab3_State
  imports Kernel_State User_Stack
begin

text \<open>
  The state of the Lab 3 kernel, which runs user processes: the \<open>struct thread\<close> that
  \<open>Lab3/thread.c\<close>, \<open>process.c\<close> and \<open>syscall.c\<close> use (\<open>thread.h\<close> of this lab is
  not in the repository; its fields are those the code names), the static variables, and for every
  thread the control stack of calls it is inside. Names end in \<open>3\<close> where Lab 2 has the same one.
\<close>

section \<open>Threads\<close>

text \<open>
  \<open>child_link\<close> is the thread whose \<open>children_list\<close> the element \<open>child_elem\<close> is linked into.
  A file is known by a number.
\<close>

record thread3 =
  tid3 :: int
  status3 :: thread_status
  name3 :: cstr
  stack3 :: nat
  priority3 :: int
  magic3 :: "32 word"
  exit_stat :: int
  is_waiting :: bool
  is_alive :: bool
  child :: "tptr option"
  parent :: "tptr option"
  children_list :: "tptr list"
  child_link :: "tptr option"
  files :: "nat option list"
  pagedir :: "nat option"
  current_esp :: "32 word"

text \<open>The semaphores: the one in every thread, the local one of \<open>process_execute\<close>, named by the
  thread that runs it, and the local one of \<open>thread_start\<close>.\<close>

datatype sem3 = Own tptr | Exec tptr | Idle_Started3

section \<open>Control points\<close>

datatype func3 = Kernel_Client | Idle3 sem3 | Start_Process sem3 cstr

datatype idle3_point = I3_Enter sem3 | I3_Loop | I3_Halt
datatype exec_point = PE_Enter cstr | PE_Return int
datatype wait3_point = PW_Enter | PW_Return

datatype frame3 =
    Kernel_Thread3 func3
  | Kernel_Body
  | User_Mode
  | Idle_At3 idle3_point
  | Yield3
  | Set_Level3 bool
  | Exit3
  | Down3 sem3
  | Start_Return
  | Start_Process_At sem3 cstr
  | Process_Execute exec_point
  | Process_Wait wait3_point int
  | Sys_Exec_Open "32 word"
  | Return_Eax

section \<open>The kernel\<close>

text \<open>
  \<open>fsys3\<close> is the state of the file system, whose code is not in the repository; \<open>user_mem\<close> the address
  space of each process, \<open>user_esp\<close> the stack pointer it starts with; \<open>ret\<close> the value the last call of a thread returned, \<open>eax\<close> what its last
  system call returned to the user; \<open>pages\<close> counts the pages the code has taken and not given back.
\<close>

datatype output3 = Exit_Line cstr int | Put_Buf cstr | Unimplemented int

record 'fs kernel3 =
  threads3 :: "tptr \<Rightarrow> thread3 option"
  cur3 :: tptr
  frames3 :: "tptr \<Rightarrow> frame3 list"
  ready3 :: "tptr list"
  all3 :: "tptr list"
  idle_thread3 :: "tptr option"
  initial3 :: tptr
  next_tid3 :: int
  thread_ticks3 :: "32 word"
  idle_ticks3 :: int
  kernel_ticks3 :: int
  user_ticks3 :: int
  sems3 :: "sem3 \<Rightarrow> semaphore option"
  exit_c :: "int list"
  active_pagedir :: "nat option"
  intr_on3 :: bool
  intr_context3 :: bool
  yield_on_return3 :: bool
  ret :: "tptr \<Rightarrow> int"
  eax :: "tptr \<Rightarrow> 32 word"
  user_mem :: "tptr \<Rightarrow> memory"
  user_esp :: "tptr \<Rightarrow> 32 word"
  console :: "output3 list"
  pages :: nat
  fsys3 :: 'fs
  powered :: bool

text \<open>
  What is not in the repository: the semaphores of this lab (a \<open>down\<close> tells whether the caller got
  through or was queued and has to block; an \<open>up\<close> tells which queued thread, if any, it lets through
  and unblocks), the page allocator, the loader, the file system, the access to user memory (a read
  of an address that is not mapped ends the process with \<open>umem_exit_code\<close>), the numbers of the system
  calls, the number of elements of \<open>files\<close> and the sizes of the stack frames of \<open>switch.h\<close>.
\<close>

datatype syscall =
    SYS_HALT | SYS_EXIT | SYS_EXEC | SYS_WAIT | SYS_CREATE | SYS_OPEN | SYS_FILESIZE | SYS_READ | SYS_WRITE | SYS_CLOSE

record 'fs env3 =
  sem_down :: "tptr \<Rightarrow> semaphore \<Rightarrow> semaphore \<times> bool"
  sem_up :: "semaphore \<Rightarrow> semaphore \<times> tptr option"
  thread_page :: "tptr option"
  has_page :: "nat \<Rightarrow> bool"
  elf_load :: "cstr \<Rightarrow> 'fs \<Rightarrow> (32 word \<times> memory \<times> nat) option"
  filesys_create :: "cstr \<Rightarrow> int \<Rightarrow> 'fs \<Rightarrow> bool \<times> 'fs"
  filesys_open :: "cstr \<Rightarrow> 'fs \<Rightarrow> nat option \<times> 'fs"
  file_read :: "nat \<Rightarrow> nat \<Rightarrow> 'fs \<Rightarrow> cstr \<times> 'fs"
  file_write :: "nat \<Rightarrow> cstr \<Rightarrow> 'fs \<Rightarrow> 'fs"
  file_length :: "nat \<Rightarrow> 'fs \<Rightarrow> int"
  file_close :: "nat option \<Rightarrow> 'fs \<Rightarrow> 'fs"
  umem_get :: "memory \<Rightarrow> 32 word \<Rightarrow> int"
  umem_read :: "memory \<Rightarrow> 32 word \<Rightarrow> 32 word option"
  umem_exit_code :: int
  syscall_nr :: "32 word \<Rightarrow> syscall option"
  files_len :: nat
  entry_frame_size3 :: nat
  threads_frame_size3 :: nat

text \<open>What the code relies on in the semaphores.\<close>

definition sem_ok :: "'fs env3 \<Rightarrow> bool" where
  "sem_ok E \<longleftrightarrow>
     (\<forall>t s. sem_down E t s =
        (if sema_value s > 0 then (s\<lparr>sema_value := sema_value s - 1\<rparr>, True)
         else (s\<lparr>waiters := waiters s @ [t]\<rparr>, False))) \<and>
     (\<forall>s. waiters s = [] \<longrightarrow> sem_up E s = (s\<lparr>sema_value := sema_value s + 1\<rparr>, None)) \<and>
     (\<forall>s. waiters s \<noteq> [] \<longrightarrow> (\<exists>t \<in> set (waiters s). sem_up E s = (s\<lparr>waiters := remove1 t (waiters s)\<rparr>, Some t)))"

text \<open>What it relies on in the access to user memory.\<close>

definition umem_ok :: "'fs env3 \<Rightarrow> bool" where
  "umem_ok E \<longleftrightarrow>
     (\<forall>m a. umem_get E m a = (case m a of None \<Rightarrow> - 1 | Some b \<Rightarrow> uint b)) \<and>
     (\<forall>m a. umem_read E m a = (case load32 m a of Inl _ \<Rightarrow> None | Inr w \<Rightarrow> Some w))"

section \<open>Access\<close>

definition get3 :: "tptr option \<Rightarrow> 'fs kernel3 \<Rightarrow> thread3 res" where
  "get3 p k =
     (case p of None \<Rightarrow> Inl Bad_Pointer
      | Some t \<Rightarrow> (case threads3 k t of None \<Rightarrow> Inl Bad_Pointer | Some th \<Rightarrow> Inr th))"

definition upd3 :: "tptr \<Rightarrow> (thread3 \<Rightarrow> thread3) \<Rightarrow> 'fs kernel3 \<Rightarrow> 'fs kernel3" where
  "upd3 t f k = k\<lparr>threads3 := (threads3 k)(t := map_option f (threads3 k t))\<rparr>"

definition push3 :: "frame3 list \<Rightarrow> 'fs kernel3 \<Rightarrow> 'fs kernel3" where
  "push3 fr k = k\<lparr>frames3 := (frames3 k)(cur3 k := fr @ frames3 k (cur3 k))\<rparr>"

definition return3 :: "int \<Rightarrow> 'fs kernel3 \<Rightarrow> 'fs kernel3" where
  "return3 v k = k\<lparr>ret := (ret k)(cur3 k := v)\<rparr>"

lemma get3_Inr_iff [res_simps]: "get3 p k = Inr th \<longleftrightarrow> (\<exists>t. p = Some t \<and> threads3 k t = Some th)"
  by (auto simp: get3_def split: option.splits)

lemma threads_upd3: "threads3 (upd3 t f k) = (threads3 k)(t := map_option f (threads3 k t))"
  by (simp add: upd3_def)

lemma upd3_frame [simp]:
  "cur3 (upd3 t f k) = cur3 k" "frames3 (upd3 t f k) = frames3 k" "ready3 (upd3 t f k) = ready3 k"
  "all3 (upd3 t f k) = all3 k" "idle_thread3 (upd3 t f k) = idle_thread3 k" "initial3 (upd3 t f k) = initial3 k"
  "next_tid3 (upd3 t f k) = next_tid3 k" "sems3 (upd3 t f k) = sems3 k" "exit_c (upd3 t f k) = exit_c k"
  "intr_on3 (upd3 t f k) = intr_on3 k" "intr_context3 (upd3 t f k) = intr_context3 k" "ret (upd3 t f k) = ret k"
  "console (upd3 t f k) = console k" "fsys3 (upd3 t f k) = fsys3 k" "pages (upd3 t f k) = pages k"
  "user_mem (upd3 t f k) = user_mem k" "eax (upd3 t f k) = eax k"
  by (simp_all add: upd3_def)

lemma push3_frame [simp]:
  "threads3 (push3 fr k) = threads3 k" "cur3 (push3 fr k) = cur3 k" "ready3 (push3 fr k) = ready3 k"
  "sems3 (push3 fr k) = sems3 k" "exit_c (push3 fr k) = exit_c k" "intr_on3 (push3 fr k) = intr_on3 k"
  "intr_context3 (push3 fr k) = intr_context3 k" "idle_thread3 (push3 fr k) = idle_thread3 k"
  "all3 (push3 fr k) = all3 k" "pages (push3 fr k) = pages k" "ret (push3 fr k) = ret k"
  by (simp_all add: push3_def)

lemma frames_push3: "frames3 (push3 fr k) = (frames3 k)(cur3 k := fr @ frames3 k (cur3 k))"
  by (simp add: push3_def)

end
