(* ===== verification/Lab3_Thread.thy ===== *)
theory Lab3_Thread
  imports Lab3_State
begin

text \<open>
  \<open>Lab3/thread.c\<close>: threads with a first-in first-out ready list, the parent and child links of
  processes, address space activation on every switch. The lock around \<open>next_tid\<close> is not in the
  repository; the model takes the identifier in one step.
\<close>

section \<open>The running thread\<close>

definition is_thread3 :: "tptr option \<Rightarrow> 'fs kernel3 \<Rightarrow> bool" where
  "is_thread3 p k =
     (case p of None \<Rightarrow> False
      | Some t \<Rightarrow> (case threads3 k t of None \<Rightarrow> False | Some th \<Rightarrow> magic3 th = THREAD_MAGIC))"

definition thread_current3 :: "'fs kernel3 \<Rightarrow> thread3 res" where
  "thread_current3 k =
     assert_res (is_thread3 (Some (cur3 k)) k) ''is_thread(t)''
       (bind_res (get3 (Some (cur3 k)) k) (\<lambda>th.
          assert_res (status3 th = THREAD_RUNNING) ''t->status == THREAD_RUNNING'' (Inr th)))"

definition thread_name3 :: "'fs kernel3 \<Rightarrow> cstr res" where
  "thread_name3 k = bind_res (thread_current3 k) (\<lambda>th. Inr (name3 th))"

definition thread_tid3 :: "'fs kernel3 \<Rightarrow> int res" where
  "thread_tid3 k = bind_res (thread_current3 k) (\<lambda>th. Inr (tid3 th))"

definition thread_set_priority3 :: "int \<Rightarrow> 'fs kernel3 \<Rightarrow> 'fs kernel3 res" where
  "thread_set_priority3 new_priority k =
     bind_res (thread_current3 k) (\<lambda>_. Inr (upd3 (cur3 k) (\<lambda>th. th\<lparr>priority3 := new_priority\<rparr>) k))"

definition thread_get_priority3 :: "'fs kernel3 \<Rightarrow> int res" where
  "thread_get_priority3 k = bind_res (thread_current3 k) (\<lambda>th. Inr (priority3 th))"

definition thread_foreach3 :: "(tptr \<Rightarrow> 'fs kernel3 \<Rightarrow> 'fs kernel3 res) \<Rightarrow> 'fs kernel3 \<Rightarrow> 'fs kernel3 res" where
  "thread_foreach3 func k =
     assert_res (\<not> intr_on3 k) ''intr_get_level() == INTR_OFF'' (fold_res func (all3 k) k)"

definition thread_tick3 :: "'fs kernel3 \<Rightarrow> 'fs kernel3 res" where
  "thread_tick3 k =
     bind_res (thread_current3 k) (\<lambda>t.
       let k = (if Some (cur3 k) = idle_thread3 k then k\<lparr>idle_ticks3 := idle_ticks3 k + 1\<rparr>
                else if pagedir t \<noteq> None then k\<lparr>user_ticks3 := user_ticks3 k + 1\<rparr>
                else k\<lparr>kernel_ticks3 := kernel_ticks3 k + 1\<rparr>);
           k = k\<lparr>thread_ticks3 := thread_ticks3 k + 1\<rparr>
       in Inr (if TIME_SLICE \<le> thread_ticks3 k then k\<lparr>yield_on_return3 := True\<rparr> else k))"

section \<open>Switching\<close>

definition process_activate :: "'fs kernel3 \<Rightarrow> 'fs kernel3 res" where
  "process_activate k = bind_res (thread_current3 k) (\<lambda>t. Inr (k\<lparr>active_pagedir := pagedir t\<rparr>))"

definition next_thread_to_run3 :: "'fs kernel3 \<Rightarrow> tptr option \<times> 'fs kernel3" where
  "next_thread_to_run3 k =
     (case ready3 k of [] \<Rightarrow> (idle_thread3 k, k) | t # ts \<Rightarrow> (Some t, k\<lparr>ready3 := ts\<rparr>))"

text \<open>A freed page takes the semaphore in the structure with it.\<close>

definition free_thread3 :: "tptr \<Rightarrow> 'fs kernel3 \<Rightarrow> 'fs kernel3" where
  "free_thread3 t k =
     k\<lparr>threads3 := (threads3 k)(t := None), frames3 := (frames3 k)(t := []),
       sems3 := (sems3 k)(Own t := None), pages := pages k - 1\<rparr>"

definition thread_schedule_tail3 :: "tptr option \<Rightarrow> 'fs kernel3 \<Rightarrow> 'fs kernel3 res" where
  "thread_schedule_tail3 prev k =
     assert_res (\<not> intr_on3 k) ''intr_get_level() == INTR_OFF''
       (let k = upd3 (cur3 k) (\<lambda>th. th\<lparr>status3 := THREAD_RUNNING\<rparr>) k;
            k = k\<lparr>thread_ticks3 := 0\<rparr>
        in bind_res (process_activate k) (\<lambda>k.
             case prev of
               None \<Rightarrow> Inr k
             | Some p \<Rightarrow>
                 if map_option status3 (threads3 k p) = Some THREAD_DYING \<and> p \<noteq> initial3 k
                 then assert_res (p \<noteq> cur3 k) ''prev != cur'' (Inr (free_thread3 p k))
                 else Inr k))"

definition schedule3 :: "'fs kernel3 \<Rightarrow> 'fs kernel3 res" where
  "schedule3 k =
     (case next_thread_to_run3 k of (nxt, k) \<Rightarrow>
       assert_res (\<not> intr_on3 k) ''intr_get_level() == INTR_OFF''
        (assert_res (map_option status3 (threads3 k (cur3 k)) \<noteq> Some THREAD_RUNNING)
            ''cur->status != THREAD_RUNNING''
          (assert_res (is_thread3 nxt k) ''is_thread(next)''
            (case nxt of
               None \<Rightarrow> Inl Bad_Pointer
             | Some n \<Rightarrow>
                 if cur3 k \<noteq> n then thread_schedule_tail3 (Some (cur3 k)) (k\<lparr>cur3 := n\<rparr>)
                 else thread_schedule_tail3 None k))))"

definition thread_block3 :: "'fs kernel3 \<Rightarrow> 'fs kernel3 res" where
  "thread_block3 k =
     assert_res (\<not> intr_context3 k) ''!intr_context()''
       (assert_res (\<not> intr_on3 k) ''intr_get_level() == INTR_OFF''
         (bind_res (thread_current3 k) (\<lambda>_.
            schedule3 (upd3 (cur3 k) (\<lambda>th. th\<lparr>status3 := THREAD_BLOCKED\<rparr>) k))))"

definition thread_unblock3 :: "tptr \<Rightarrow> 'fs kernel3 \<Rightarrow> 'fs kernel3 res" where
  "thread_unblock3 t k =
     assert_res (is_thread3 (Some t) k) ''is_thread(t)''
       (assert_res (map_option status3 (threads3 k t) = Some THREAD_BLOCKED) ''t->status == THREAD_BLOCKED''
         (Inr (upd3 t (\<lambda>th. th\<lparr>status3 := THREAD_READY\<rparr>) (k\<lparr>ready3 := ready3 k @ [t]\<rparr>))))"

definition thread_yield3 :: "'fs kernel3 \<Rightarrow> 'fs kernel3 res" where
  "thread_yield3 k =
     bind_res (thread_current3 k) (\<lambda>_.
       assert_res (\<not> intr_context3 k) ''!intr_context()''
         (let old_level = intr_on3 k;
              k = push3 [Set_Level3 old_level] (k\<lparr>intr_on3 := False\<rparr>);
              k = (if Some (cur3 k) \<noteq> idle_thread3 k then k\<lparr>ready3 := ready3 k @ [cur3 k]\<rparr> else k)
          in schedule3 (upd3 (cur3 k) (\<lambda>th. th\<lparr>status3 := THREAD_READY\<rparr>) k)))"

section \<open>Semaphores\<close>

text \<open>The calls of the semaphores into the scheduler: a queued caller blocks, a thread that is let
  through is unblocked.\<close>

definition semaphore_init3 :: "sem3 \<Rightarrow> 32 word \<Rightarrow> 'fs kernel3 \<Rightarrow> 'fs kernel3" where
  "semaphore_init3 s v k = k\<lparr>sems3 := (sems3 k)(s \<mapsto> \<lparr>sema_value = v, waiters = []\<rparr>)\<rparr>"

definition semaphore_down3 :: "'fs env3 \<Rightarrow> sem3 \<Rightarrow> 'fs kernel3 \<Rightarrow> 'fs kernel3 res" where
  "semaphore_down3 E s k =
     (case sems3 k s of
        None \<Rightarrow> Inl Bad_Pointer
      | Some sm \<Rightarrow>
          (case sem_down E (cur3 k) sm of (sm', through) \<Rightarrow>
             let k = k\<lparr>sems3 := (sems3 k)(s \<mapsto> sm')\<rparr>
             in if through then Inr k
                else thread_block3 (push3 [Set_Level3 (intr_on3 k)] (k\<lparr>intr_on3 := False\<rparr>))))"

definition semaphore_up3 :: "'fs env3 \<Rightarrow> sem3 \<Rightarrow> 'fs kernel3 \<Rightarrow> 'fs kernel3 res" where
  "semaphore_up3 E s k =
     (case sems3 k s of
        None \<Rightarrow> Inl Bad_Pointer
      | Some sm \<Rightarrow>
          (case sem_up E sm of (sm', woken) \<Rightarrow>
             let k = k\<lparr>sems3 := (sems3 k)(s \<mapsto> sm')\<rparr>
             in (case woken of None \<Rightarrow> Inr k | Some t \<Rightarrow> thread_unblock3 t k)))"

section \<open>Creation\<close>

definition init_thread3 :: "'fs env3 \<Rightarrow> tptr \<Rightarrow> cstr option \<Rightarrow> int \<Rightarrow> 'fs kernel3 \<Rightarrow> 'fs kernel3 res" where
  "init_thread3 E t nm pri k =
     assert_res (PRI_MIN \<le> pri \<and> pri \<le> PRI_MAX) ''PRI_MIN <= priority && priority <= PRI_MAX''
       (case nm of
          None \<Rightarrow> Inl (Assert_Failed ''name != NULL'')
        | Some nm \<Rightarrow>
            Inr (semaphore_init3 (Own t) 0
              (k\<lparr>threads3 := (threads3 k)(t \<mapsto>
                   \<lparr>tid3 = 0, status3 = THREAD_BLOCKED, name3 = take 15 nm, stack3 = t + PGSIZE,
                    priority3 = pri, magic3 = THREAD_MAGIC, exit_stat = 0, is_waiting = False,
                    is_alive = True, child = None, parent = None, children_list = [],
                    child_link = None, files = replicate (files_len E) None, pagedir = None,
                    current_esp = 0\<rparr>),
                 all3 := all3 k @ [t]\<rparr>)))"

definition alloc_frame3 :: "tptr \<Rightarrow> nat \<Rightarrow> 'fs kernel3 \<Rightarrow> 'fs kernel3 res" where
  "alloc_frame3 t sz k =
     assert_res (is_thread3 (Some t) k) ''is_thread(t)''
       (assert_res (sz mod 4 = 0) ''size % sizeof (uint32_t) == 0''
         (Inr (upd3 t (\<lambda>th. th\<lparr>stack3 := stack3 th - sz\<rparr>) k)))"

definition allocate_tid3 :: "'fs kernel3 \<Rightarrow> (int \<times> 'fs kernel3) res" where
  "allocate_tid3 k =
     bind_res (add_int32 (next_tid3 k) 1) (\<lambda>n. Inr (next_tid3 k, k\<lparr>next_tid3 := n\<rparr>))"

definition TID_ERROR :: int where "TID_ERROR = - 1"

definition thread_create3 ::
  "'fs env3 \<Rightarrow> cstr option \<Rightarrow> int \<Rightarrow> func3 \<Rightarrow> 'fs kernel3 \<Rightarrow> (int \<times> 'fs kernel3) res" where
  "thread_create3 E nm pri func k =
     (case thread_page E of
        None \<Rightarrow> Inr (TID_ERROR, k)
      | Some t \<Rightarrow>
          bind_res (init_thread3 E t nm pri (k\<lparr>pages := pages k + 1\<rparr>)) (\<lambda>k.
          bind_res (allocate_tid3 k) (\<lambda>(tid, k).
          let k = upd3 t (\<lambda>th. th\<lparr>tid3 := tid\<rparr>) k
          in bind_res (alloc_frame3 t 12 k) (\<lambda>k.
             bind_res (alloc_frame3 t (entry_frame_size3 E) k) (\<lambda>k.
             bind_res (alloc_frame3 t (threads_frame_size3 E) k) (\<lambda>k.
             bind_res (thread_current3 k) (\<lambda>_.
             let k = k\<lparr>frames3 := (frames3 k)(t := [Kernel_Thread3 func])\<rparr>;
                 k = upd3 (cur3 k) (\<lambda>th. th\<lparr>child := Some t\<rparr>) k;
                 k = upd3 t (\<lambda>th. th\<lparr>parent := Some (cur3 k)\<rparr>) k
             in bind_res (thread_unblock3 t k) (\<lambda>k. Inr (tid, k)))))))))"

text \<open>The function of a thread runs with interrupts on, and the thread exits when it returns.\<close>

definition kernel_thread3 :: "func3 \<Rightarrow> 'fs kernel3 \<Rightarrow> 'fs kernel3" where
  "kernel_thread3 func k =
     push3 (case func of
              Kernel_Client \<Rightarrow> [Kernel_Body, Exit3]
            | Idle3 s \<Rightarrow> [Idle_At3 (I3_Enter s), Exit3]
            | Start_Process s cmd \<Rightarrow> [Start_Process_At s cmd, Exit3]) (k\<lparr>intr_on3 := True\<rparr>)"

fun idle3 :: "'fs env3 \<Rightarrow> idle3_point \<Rightarrow> 'fs kernel3 \<Rightarrow> 'fs kernel3 res" where
  "idle3 E (I3_Enter s) k =
     bind_res (thread_current3 k) (\<lambda>_.
       semaphore_up3 E s (push3 [Idle_At3 I3_Loop] (k\<lparr>idle_thread3 := Some (cur3 k)\<rparr>)))"
| "idle3 E I3_Loop k = thread_block3 (push3 [Idle_At3 I3_Halt] (k\<lparr>intr_on3 := False\<rparr>))"
| "idle3 E I3_Halt k = Inr (push3 [Idle_At3 I3_Loop] (k\<lparr>intr_on3 := True\<rparr>))"

section \<open>Start\<close>

definition thread_init3 :: "'fs env3 \<Rightarrow> cstr \<Rightarrow> 'fs kernel3 \<Rightarrow> 'fs kernel3 res" where
  "thread_init3 E main k =
     assert_res (\<not> intr_on3 k) ''intr_get_level() == INTR_OFF''
       (let k = k\<lparr>ready3 := [], all3 := [], initial3 := cur3 k\<rparr>
        in bind_res (init_thread3 E (cur3 k) (Some main) PRI_DEFAULT k) (\<lambda>k.
           let k = upd3 (cur3 k) (\<lambda>th. th\<lparr>status3 := THREAD_RUNNING\<rparr>) k
           in bind_res (allocate_tid3 k) (\<lambda>(tid, k). Inr (upd3 (cur3 k) (\<lambda>th. th\<lparr>tid3 := tid\<rparr>) k))))"

text \<open>The local semaphore is gone when \<open>thread_start\<close> returns (\<open>Start_Return\<close>).\<close>

definition thread_start3 :: "'fs env3 \<Rightarrow> cstr \<Rightarrow> 'fs kernel3 \<Rightarrow> 'fs kernel3 res" where
  "thread_start3 E idle_name k =
     bind_res (thread_create3 E (Some idle_name) PRI_MIN (Idle3 Idle_Started3)
        (semaphore_init3 Idle_Started3 0 k)) (\<lambda>(_, k).
       Inr (push3 [Down3 Idle_Started3, Start_Return] (k\<lparr>intr_on3 := True\<rparr>)))"

definition start_return3 :: "'fs kernel3 \<Rightarrow> 'fs kernel3" where
  "start_return3 k = k\<lparr>sems3 := (sems3 k)(Idle_Started3 := None)\<rparr>"

text \<open>Not implemented in the source.\<close>

definition thread_set_nice3 :: "int \<Rightarrow> 'fs kernel3 \<Rightarrow> 'fs kernel3" where "thread_set_nice3 n k = k"
definition thread_get_nice3 :: "'fs kernel3 \<Rightarrow> int" where "thread_get_nice3 k = 0"
definition thread_get_load_avg3 :: "'fs kernel3 \<Rightarrow> int" where "thread_get_load_avg3 k = 0"
definition thread_get_recent_cpu3 :: "'fs kernel3 \<Rightarrow> int" where "thread_get_recent_cpu3 k = 0"

end
