(* ===== verification/Process.thy ===== *)
theory Process
  imports Lab3_Thread
begin

text \<open>
  \<open>Lab3/process.c\<close>: creating, waiting for and ending user processes. A process joins the list of
  children of its creator when it starts; waiting blocks on the semaphore inside the child; exit codes
  are kept in the array \<open>exit_c\<close>, indexed by thread identifier.
\<close>

section \<open>Starting\<close>

text \<open>The page for the copy of the command line and the one for its first word are taken first.\<close>

fun process_execute :: "'fs env3 \<Rightarrow> exec_point \<Rightarrow> 'fs kernel3 \<Rightarrow> 'fs kernel3 res" where
  "process_execute E (PE_Enter cmdline) k =
     (if \<not> has_page E (pages k) then Inr (return3 TID_ERROR k)
      else (let cmdline_copy = take (PGSIZE - 1) cmdline; k = k\<lparr>pages := pages k + 1\<rparr>
            in if \<not> has_page E (pages k) \<or> PGSIZE \<le> length cmdline then Inl Bad_Pointer
               else (let k = k\<lparr>pages := pages k + 1\<rparr>;
                         token = map_option fst (strtok_r cmdline);
                         sem_process = Exec (cur3 k);
                         k = semaphore_init3 sem_process 0 k
                     in bind_res (thread_create3 E token PRI_DEFAULT (Start_Process sem_process cmdline_copy) k)
                          (\<lambda>(tno, k). Inr (push3 [Down3 sem_process, Process_Execute (PE_Return tno)] k)))))"
| "process_execute E (PE_Return tno) k =
     Inr (return3 tno (k\<lparr>sems3 := (sems3 k)(Exec (cur3 k) := None)\<rparr>))"

text \<open>
  The new thread: it enters user mode with the stack \<open>push_command\<close> has built, or exits if the
  program cannot be loaded.
\<close>

definition link_child :: "tptr \<Rightarrow> tptr \<Rightarrow> 'fs kernel3 \<Rightarrow> 'fs kernel3" where
  "link_child p c k =
     upd3 c (\<lambda>th. th\<lparr>child_link := Some p\<rparr>)
       (upd3 p (\<lambda>th. th\<lparr>children_list := children_list th @ [c]\<rparr>) k)"

definition start_process :: "'fs env3 \<Rightarrow> sem3 \<Rightarrow> cstr \<Rightarrow> 'fs kernel3 \<Rightarrow> 'fs kernel3 res" where
  "start_process E sema cmd_line k =
     bind_res (thread_current3 k) (\<lambda>c.
     bind_res (get3 (parent c) k) (\<lambda>_.
       let k = link_child (the (parent c)) (cur3 k) k
       in if \<not> has_page E (pages k) then Inl Bad_Pointer
          else (let k = k\<lparr>pages := pages k + 1\<rparr>
                in case strtok_r cmd_line of
                     None \<Rightarrow> Inl Bad_Pointer
                   | Some (token, _) \<Rightarrow>
                       (case elf_load E token (fsys3 k) of
                          None \<Rightarrow>
                            bind_res (semaphore_up3 E sema k) (\<lambda>k.
                              Inr (push3 [Exit3] (k\<lparr>pages := pages k - 1\<rparr>)))
                        | Some (esp, m, pd) \<Rightarrow>
                            bind_res (push_command (has_page E (pages k)) cmd_line esp m) (\<lambda>(esp, m).
                            let k = upd3 (cur3 k) (\<lambda>th. th\<lparr>pagedir := Some pd\<rparr>) k;
                                k = k\<lparr>active_pagedir := Some pd, user_mem := (user_mem k)(cur3 k := m),
                                      user_esp := (user_esp k)(cur3 k := esp)\<rparr>
                            in bind_res (semaphore_up3 E sema k) (\<lambda>k.
                                 Inr (k\<lparr>pages := pages k - 1, frames3 := (frames3 k)(cur3 k := [User_Mode])\<rparr>)))))))"

section \<open>Waiting\<close>

text \<open>The search over the children ends at the child with the identifier, else at the last child.\<close>

fun wait_scan :: "'fs kernel3 \<Rightarrow> int \<Rightarrow> tptr list \<Rightarrow> tptr option \<Rightarrow> tptr option res" where
  "wait_scan k tno [] t = Inr t"
| "wait_scan k tno (x # xs) t =
     bind_res (get3 (Some x) k) (\<lambda>th. if tid3 th = tno then Inr (Some x) else wait_scan k tno xs (Some x))"

fun process_wait :: "'fs env3 \<Rightarrow> wait3_point \<Rightarrow> int \<Rightarrow> 'fs kernel3 \<Rightarrow> 'fs kernel3 res" where
  "process_wait E PW_Enter child_tid k =
     bind_res (thread_current3 k) (\<lambda>c.
       if \<not> is_alive c then Inr (return3 (- 1) k)
       else if child_tid < 0 \<or> child_tid > 100 then Inr (return3 (- 1) k)
       else bind_res (wait_scan k child_tid (children_list c) None) (\<lambda>t.
         if length (exit_c k) \<le> nat child_tid then Inl Bad_Pointer
         else (let ex_code = exit_c k ! nat child_tid;
                   k = k\<lparr>exit_c := (exit_c k)[nat child_tid := - 1]\<rparr>
               in case t of
                    None \<Rightarrow> Inr (return3 ex_code k)
                  | Some t \<Rightarrow>
                      bind_res (get3 (Some t) k) (\<lambda>th.
                        if is_waiting th then Inr (return3 (- 1) k)
                        else (let k = upd3 t (\<lambda>th. th\<lparr>is_waiting := True\<rparr>) k
                              in if is_alive th
                                 then Inr (push3 [Down3 (Own t), Process_Wait PW_Return child_tid] k)
                                 else Inr (return3 (exit_c k ! nat child_tid) k))))))"
| "process_wait E PW_Return child_tid k =
     (if length (exit_c k) \<le> nat child_tid then Inl Bad_Pointer
      else Inr (return3 (exit_c k ! nat child_tid) k))"

section \<open>Ending\<close>

definition orphan :: "tptr \<Rightarrow> 'fs kernel3 \<Rightarrow> 'fs kernel3 res" where
  "orphan t k =
     bind_res (get3 (Some t) k) (\<lambda>th.
       Inr (upd3 t (\<lambda>th. th\<lparr>child_link := None, parent := (if is_alive th then None else parent th)\<rparr>) k))"

text \<open>
  An element that is in no list cannot be removed from one: \<open>list_remove\<close> would follow pointers
  that are null or of an earlier list. Destroying the page directory unmaps the user memory.
\<close>

definition process_exit :: "'fs env3 \<Rightarrow> 'fs kernel3 \<Rightarrow> 'fs kernel3 res" where
  "process_exit E k =
     bind_res (thread_current3 k) (\<lambda>c.
       let k = (if pagedir c = None then k
                else upd3 (cur3 k) (\<lambda>th. th\<lparr>pagedir := None\<rparr>)
                  (k\<lparr>active_pagedir := None, user_mem := (user_mem k)(cur3 k := (\<lambda>_. None))\<rparr>))
       in bind_res (fold_res orphan (children_list c) k) (\<lambda>k.
          let k = upd3 (cur3 k) (\<lambda>th. th\<lparr>children_list := []\<rparr>) k
          in case child_link c of
               None \<Rightarrow> Inl List_Corrupt
             | Some p \<Rightarrow>
                 (let k = upd3 p (\<lambda>th. th\<lparr>children_list := remove1 (cur3 k) (children_list th)\<rparr>) k;
                      k = upd3 (cur3 k) (\<lambda>th. th\<lparr>child_link := None\<rparr>) k
                  in if tid3 c < 0 \<or> length (exit_c k) \<le> nat (tid3 c) then Inl Bad_Pointer
                     else semaphore_up3 E (Own (cur3 k))
                            (k\<lparr>exit_c := (exit_c k)[nat (tid3 c) := exit_stat c]\<rparr>))))"

definition thread_exit3 :: "'fs env3 \<Rightarrow> 'fs kernel3 \<Rightarrow> 'fs kernel3 res" where
  "thread_exit3 E k =
     assert_res (\<not> intr_context3 k) ''!intr_context()''
       (bind_res (process_exit E k) (\<lambda>k.
          let k = k\<lparr>intr_on3 := False\<rparr>
          in bind_res (thread_current3 k) (\<lambda>_.
               let k = k\<lparr>all3 := remove1 (cur3 k) (all3 k)\<rparr>
               in schedule3 (upd3 (cur3 k) (\<lambda>th. th\<lparr>status3 := THREAD_DYING\<rparr>) k))))"

end
