(* ===== verification/Syscall.thy ===== *)
theory Syscall
  imports Process
begin

text \<open>
  \<open>Lab3/syscall.c\<close>: the system calls of a user process. A call reads its arguments from the user
  stack at \<open>esp\<close> and leaves its result in \<open>eax\<close>; \<open>sys_exit\<close> does not return, so a function
  that may call it gives \<open>None\<close> as its value then. A signed argument is the signed reading of the word.
\<close>

section \<open>Results and arguments\<close>

definition set_eax :: "32 word \<Rightarrow> 'fs kernel3 \<Rightarrow> 'fs kernel3" where
  "set_eax v k = k\<lparr>eax := (eax k)(cur3 k := v)\<rparr>"

definition sys_exit :: "'fs env3 \<Rightarrow> int \<Rightarrow> 'fs kernel3 \<Rightarrow> 'fs kernel3 res" where
  "sys_exit E exitcode k =
     bind_res (thread_current3 k) (\<lambda>c.
       let k = k\<lparr>console := console k @ [Exit_Line (name3 c) exitcode]\<rparr>;
           k = upd3 (cur3 k) (\<lambda>th. th\<lparr>exit_stat := exitcode\<rparr>) k
       in thread_exit3 E k)"

text \<open>Reading an argument: an address that is not mapped ends the process.\<close>

definition with_arg ::
  "'fs env3 \<Rightarrow> 32 word \<Rightarrow> 'fs kernel3 \<Rightarrow> (32 word \<Rightarrow> 'fs kernel3 res) \<Rightarrow> 'fs kernel3 res" where
  "with_arg E a k f =
     (case umem_read E (user_mem k (cur3 k)) a of
        None \<Rightarrow> sys_exit E (umem_exit_code E) k
      | Some w \<Rightarrow> f w)"

definition no_return :: "'fs kernel3 res \<Rightarrow> (32 word option \<times> 'fs kernel3) res" where
  "no_return m = bind_res m (\<lambda>k. Inr (None, k))"

definition finish :: "(32 word option \<times> 'fs kernel3) res \<Rightarrow> 'fs kernel3 res" where
  "finish m = bind_res m (\<lambda>(v, k). Inr (case v of None \<Rightarrow> k | Some v \<Rightarrow> set_eax v k))"

definition bad_user_pointer :: "'fs env3 \<Rightarrow> 32 word \<Rightarrow> 'fs kernel3 \<Rightarrow> bool" where
  "bad_user_pointer E a k \<longleftrightarrow> a = 0 \<or> umem_get E (user_mem k (cur3 k)) a = - 1"

fun load_bytes :: "memory \<Rightarrow> 32 word \<Rightarrow> nat \<Rightarrow> cstr res" where
  "load_bytes m a 0 = Inr []"
| "load_bytes m a (Suc n) = bind_res (load8 m a) (\<lambda>b. bind_res (load_bytes m (a + 1) n) (\<lambda>bs. Inr (b # bs)))"

text \<open>An element of \<open>files\<close>; an index outside the array is a fault.\<close>

definition get_file :: "int \<Rightarrow> 'fs kernel3 \<Rightarrow> nat option res" where
  "get_file fd k =
     bind_res (thread_current3 k) (\<lambda>c.
       if 0 \<le> fd \<and> nat fd < length (files c) then Inr (files c ! nat fd) else Inl Bad_Pointer)"

definition set_file :: "nat \<Rightarrow> nat option \<Rightarrow> 'fs kernel3 \<Rightarrow> 'fs kernel3" where
  "set_file i f k = upd3 (cur3 k) (\<lambda>th. th\<lparr>files := (files th)[i := f]\<rparr>) k"

section \<open>The calls\<close>

definition exit_handler :: "'fs env3 \<Rightarrow> 32 word \<Rightarrow> 'fs kernel3 \<Rightarrow> 'fs kernel3 res" where
  "exit_handler E esp k = with_arg E (esp + 4) k (\<lambda>exitcode. sys_exit E (sint exitcode) k)"

definition sys_write ::
  "'fs env3 \<Rightarrow> int \<Rightarrow> 32 word \<Rightarrow> 32 word \<Rightarrow> 'fs kernel3 \<Rightarrow> (32 word option \<times> 'fs kernel3) res" where
  "sys_write E fd buffer sz k =
     (if sz = 0 then Inr (Some 0, k)
      else if fd > sint sz \<or> fd < 0 then Inr (Some (- 1), k)
      else if bad_user_pointer E buffer k then no_return (sys_exit E (- 1) k)
      else bind_res (if fd = 1
               then bind_res (load_bytes (user_mem k (cur3 k)) buffer (unat sz)) (\<lambda>bs.
                      Inr (k\<lparr>console := console k @ [Put_Buf bs]\<rparr>))
               else Inr k) (\<lambda>k.
           bind_res (if fd > 2
               then bind_res (get_file fd k) (\<lambda>f.
                      case f of
                        None \<Rightarrow> Inl Bad_Pointer
                      | Some f \<Rightarrow>
                          bind_res (load_bytes (user_mem k (cur3 k)) buffer (unat sz)) (\<lambda>bs.
                            Inr (k\<lparr>fsys3 := file_write E f bs (fsys3 k)\<rparr>)))
               else Inr k) (\<lambda>k.
             Inr (Some sz, k))))"

definition write_handler :: "'fs env3 \<Rightarrow> 32 word \<Rightarrow> 'fs kernel3 \<Rightarrow> 'fs kernel3 res" where
  "write_handler E esp k =
     with_arg E (esp + 4) k (\<lambda>fd. with_arg E (esp + 8) k (\<lambda>buffer. with_arg E (esp + 12) k (\<lambda>sz.
       finish (sys_write E (sint fd) buffer sz k))))"

definition sys_create :: "'fs env3 \<Rightarrow> 32 word \<Rightarrow> int \<Rightarrow> 'fs kernel3 \<Rightarrow> (32 word option \<times> 'fs kernel3) res" where
  "sys_create E fname isize k =
     (if bad_user_pointer E fname k then no_return (sys_exit E (- 1) k)
      else bind_res (cstring (user_mem k (cur3 k)) fname) (\<lambda>name.
             case filesys_create E name isize (fsys3 k) of
               (create, fs) \<Rightarrow> Inr (Some (if create then 1 else 0), k\<lparr>fsys3 := fs\<rparr>)))"

definition create_handler :: "'fs env3 \<Rightarrow> 32 word \<Rightarrow> 'fs kernel3 \<Rightarrow> 'fs kernel3 res" where
  "create_handler E esp k =
     with_arg E (esp + 4) k (\<lambda>fname. with_arg E (esp + 8) k (\<lambda>isize.
       finish (sys_create E fname (sint isize) k)))"

text \<open>
  The search for a free element of \<open>files\<close> runs to \<open>sizeof files\<close>, which counts bytes: four for
  each element.
\<close>

function open_scan :: "nat option list \<Rightarrow> nat \<Rightarrow> nat option res" where
  "open_scan fls i =
     (if i < 4 * length fls
      then if length fls \<le> i then Inl Bad_Pointer
           else if fls ! i = None then Inr (Some i)
           else open_scan fls (i + 1)
      else Inr None)"
  by pat_completeness auto
termination by (relation "measure (\<lambda>(fls, i). 4 * length fls - i)") auto

declare open_scan.simps [simp del]

definition sys_open :: "'fs env3 \<Rightarrow> 32 word \<Rightarrow> 32 word \<Rightarrow> 'fs kernel3 \<Rightarrow> (32 word option \<times> 'fs kernel3) res" where
  "sys_open E fname fd k =
     (if bad_user_pointer E fname k then no_return (sys_exit E (- 1) k)
      else bind_res (cstring (user_mem k (cur3 k)) fname) (\<lambda>name.
        if name = [] then Inr (Some (- 1), k)
        else (case filesys_open E name (fsys3 k) of
                (None, fs) \<Rightarrow> Inr (Some (- 1), k\<lparr>fsys3 := fs\<rparr>)
              | (Some f, fs) \<Rightarrow>
                  (let k = k\<lparr>fsys3 := fs\<rparr>
                   in bind_res (thread_current3 k) (\<lambda>c.
                      bind_res (open_scan (files c) 3) (\<lambda>i.
                        case i of
                          None \<Rightarrow> Inr (Some fd, k)
                        | Some i \<Rightarrow> Inr (Some (of_nat i), set_file i (Some f) k)))))))"

definition open_handler :: "'fs env3 \<Rightarrow> 32 word \<Rightarrow> 'fs kernel3 \<Rightarrow> 'fs kernel3 res" where
  "open_handler E esp k =
     with_arg E (esp + 4) k (\<lambda>fname. with_arg E (esp + 8) k (\<lambda>fd. finish (sys_open E fname fd k)))"

text \<open>What the file gives is stored in the buffer; the result is the size asked for.\<close>

definition sys_read ::
  "'fs env3 \<Rightarrow> int \<Rightarrow> 32 word \<Rightarrow> 32 word \<Rightarrow> 'fs kernel3 \<Rightarrow> (32 word option \<times> 'fs kernel3) res" where
  "sys_read E fd buffer sz k =
     (if sz = 0 then Inr (Some 0, k)
      else if fd > sint sz \<or> fd < 0 then Inr (Some (- 1), k)
      else if bad_user_pointer E buffer k then no_return (sys_exit E (- 1) k)
      else bind_res (get_file fd k) (\<lambda>f.
        case f of
          None \<Rightarrow> no_return (sys_exit E (- 1) k)
        | Some f \<Rightarrow>
            (case file_read E f (unat sz) (fsys3 k) of
               (bs, fs) \<Rightarrow>
                 bind_res (store_bytes buffer bs (user_mem k (cur3 k))) (\<lambda>m.
                   Inr (Some sz, k\<lparr>fsys3 := fs, user_mem := (user_mem k)(cur3 k := m)\<rparr>)))))"

definition read_handler :: "'fs env3 \<Rightarrow> 32 word \<Rightarrow> 'fs kernel3 \<Rightarrow> 'fs kernel3 res" where
  "read_handler E esp k =
     with_arg E (esp + 4) k (\<lambda>fd. with_arg E (esp + 8) k (\<lambda>buffer. with_arg E (esp + 12) k (\<lambda>sz.
       finish (sys_read E (sint fd) buffer sz k))))"

definition filesize_handler :: "'fs env3 \<Rightarrow> 32 word \<Rightarrow> 'fs kernel3 \<Rightarrow> 'fs kernel3 res" where
  "filesize_handler E esp k =
     with_arg E (esp + 4) k (\<lambda>fd.
       bind_res (get_file (sint fd) k) (\<lambda>f.
         case f of
           None \<Rightarrow> Inl Bad_Pointer
         | Some f \<Rightarrow> Inr (set_eax (of_int (file_length E f (fsys3 k))) k)))"

text \<open>\<open>sizeof files[fd]\<close> is the size of a pointer, four bytes.\<close>

definition close_handler :: "'fs env3 \<Rightarrow> 32 word \<Rightarrow> 'fs kernel3 \<Rightarrow> 'fs kernel3 res" where
  "close_handler E esp k =
     with_arg E (esp + 4) k (\<lambda>fd. with_arg E (esp + 8) k (\<lambda>buffer. with_arg E (esp + 12) k (\<lambda>sz.
       if sint fd < 4 \<and> sint fd > 0
       then bind_res (get_file (sint fd) k) (\<lambda>f.
              Inr (set_file (nat (sint fd)) None (k\<lparr>fsys3 := file_close E f (fsys3 k)\<rparr>)))
       else Inr k)))"

text \<open>\<open>sys_exec\<close> goes on with \<open>sys_exec_open\<close> when \<open>process_execute\<close> returns.\<close>

definition sys_exec :: "'fs env3 \<Rightarrow> 32 word \<Rightarrow> 'fs kernel3 \<Rightarrow> 'fs kernel3 res" where
  "sys_exec E fname k =
     (if umem_get E (user_mem k (cur3 k)) fname = - 1 then sys_exit E (- 1) k
      else bind_res (cstring (user_mem k (cur3 k)) fname) (\<lambda>cmdline.
             Inr (push3 [Process_Execute (PE_Enter cmdline), Sys_Exec_Open fname] k)))"

definition sys_exec_open :: "'fs env3 \<Rightarrow> 32 word \<Rightarrow> 'fs kernel3 \<Rightarrow> 'fs kernel3 res" where
  "sys_exec_open E fname k =
     bind_res (cstring (user_mem k (cur3 k)) fname) (\<lambda>name.
       case filesys_open E name (fsys3 k) of
         (f, fs) \<Rightarrow>
           (let k = k\<lparr>fsys3 := fs\<rparr>
            in Inr (set_eax (if f = None then - 1 else of_int (ret k (cur3 k))) k)))"

definition exec_handler :: "'fs env3 \<Rightarrow> 32 word \<Rightarrow> 'fs kernel3 \<Rightarrow> 'fs kernel3 res" where
  "exec_handler E esp k = with_arg E (esp + 4) k (\<lambda>fname. sys_exec E fname k)"

definition wait_handler :: "'fs env3 \<Rightarrow> 32 word \<Rightarrow> 'fs kernel3 \<Rightarrow> 'fs kernel3 res" where
  "wait_handler E esp k =
     with_arg E (esp + 4) k (\<lambda>tid. Inr (push3 [Process_Wait PW_Enter (sint tid), Return_Eax] k))"

section \<open>Dispatch\<close>

definition syscall_handler :: "'fs env3 \<Rightarrow> 32 word \<Rightarrow> 'fs kernel3 \<Rightarrow> 'fs kernel3 res" where
  "syscall_handler E esp k =
     with_arg E esp k (\<lambda>n.
     bind_res (thread_current3 k) (\<lambda>_.
       let k = upd3 (cur3 k) (\<lambda>th. th\<lparr>current_esp := esp\<rparr>) k
       in case syscall_nr E n of
            Some SYS_CREATE \<Rightarrow> create_handler E esp k
          | Some SYS_OPEN \<Rightarrow> open_handler E esp k
          | Some SYS_READ \<Rightarrow> read_handler E esp k
          | Some SYS_HALT \<Rightarrow> Inr (k\<lparr>powered := False\<rparr>)
          | Some SYS_EXIT \<Rightarrow> exit_handler E esp k
          | Some SYS_WRITE \<Rightarrow> write_handler E esp k
          | Some SYS_CLOSE \<Rightarrow> close_handler E esp k
          | Some SYS_EXEC \<Rightarrow> exec_handler E esp k
          | Some SYS_WAIT \<Rightarrow> wait_handler E esp k
          | Some SYS_FILESIZE \<Rightarrow> filesize_handler E esp k
          | None \<Rightarrow> thread_exit3 E (k\<lparr>console := console k @ [Unimplemented (sint n)]\<rparr>)))"

section \<open>The machine\<close>

text \<open>The running thread executes the frame on top of its control stack.\<close>

fun exec_frame3 :: "'fs env3 \<Rightarrow> frame3 \<Rightarrow> 'fs kernel3 \<Rightarrow> 'fs kernel3 res" where
  "exec_frame3 E (Kernel_Thread3 f) k = Inr (kernel_thread3 f k)"
| "exec_frame3 E Kernel_Body k = Inr k"
| "exec_frame3 E User_Mode k = Inr (push3 [User_Mode] k)"
| "exec_frame3 E (Idle_At3 p) k = idle3 E p k"
| "exec_frame3 E Yield3 k = thread_yield3 k"
| "exec_frame3 E (Set_Level3 l) k = Inr (k\<lparr>intr_on3 := l\<rparr>)"
| "exec_frame3 E Exit3 k = thread_exit3 E k"
| "exec_frame3 E (Down3 s) k = semaphore_down3 E s k"
| "exec_frame3 E Start_Return k = Inr (start_return3 k)"
| "exec_frame3 E (Start_Process_At s c) k = start_process E s c k"
| "exec_frame3 E (Process_Execute p) k = process_execute E p k"
| "exec_frame3 E (Process_Wait p t) k = process_wait E p t k"
| "exec_frame3 E (Sys_Exec_Open f) k = sys_exec_open E f k"
| "exec_frame3 E Return_Eax k = Inr (set_eax (of_int (ret k (cur3 k))) k)"

definition run3 :: "'fs env3 \<Rightarrow> 'fs kernel3 \<Rightarrow> 'fs kernel3 res" where
  "run3 E k =
     (case frames3 k (cur3 k) of
        [] \<Rightarrow> Inl Bad_Pointer
      | f # fr \<Rightarrow> exec_frame3 E f (k\<lparr>frames3 := (frames3 k)(cur3 k := fr)\<rparr>))"

text \<open>
  A process in user mode makes a system call with any stack pointer or writes to its mapped memory,
  a kernel thread may run a process, and the timer may interrupt.
\<close>

inductive step3 :: "'fs env3 \<Rightarrow> 'fs kernel3 \<Rightarrow> 'fs kernel3 \<Rightarrow> bool" for E where
  run: "run3 E k = Inr k' \<Longrightarrow> step3 E k k'"
| system_call: "frames3 k (cur3 k) = [User_Mode] \<Longrightarrow> syscall_handler E esp k = Inr k' \<Longrightarrow> step3 E k k'"
| user_store: "frames3 k (cur3 k) = [User_Mode] \<Longrightarrow> (\<forall>a. m a = None \<longleftrightarrow> user_mem k (cur3 k) a = None) \<Longrightarrow>
     step3 E k (k\<lparr>user_mem := (user_mem k)(cur3 k := m)\<rparr>)"
| kernel_exec: "frames3 k (cur3 k) = Kernel_Body # fr \<Longrightarrow> step3 E k (push3 [Process_Execute (PE_Enter cmd)] k)"
| kernel_wait: "frames3 k (cur3 k) = Kernel_Body # fr \<Longrightarrow> step3 E k (push3 [Process_Wait PW_Enter tno] k)"
| tick: "intr_on3 k \<Longrightarrow> thread_tick3 (k\<lparr>yield_on_return3 := False\<rparr>) = Inr k' \<Longrightarrow>
     step3 E k (if yield_on_return3 k' then push3 [Yield3] k' else k')"

end
