(* ===== verification/Lab3_Sched.thy ===== *)
theory Lab3_Sched
  imports Lab3_Thread
begin

text \<open>
  The Lab 3 scheduler is fair: a thread on the ready list runs after as many yields as there are
  threads before it.
\<close>

definition status_of3 :: "'fs kernel3 \<Rightarrow> tptr \<Rightarrow> thread_status option" where
  "status_of3 k t = map_option status3 (threads3 k t)"

definition live3 :: "'fs kernel3 \<Rightarrow> tptr \<Rightarrow> bool" where
  "live3 k t \<longleftrightarrow> (\<exists>th. threads3 k t = Some th \<and> magic3 th = THREAD_MAGIC)"

text \<open>A kernel in which a thread other than the idle one runs and the others wait for their turn.\<close>

definition fifo_ok :: "'fs kernel3 \<Rightarrow> bool" where
  "fifo_ok k \<longleftrightarrow>
     live3 k (cur3 k) \<and> status_of3 k (cur3 k) = Some THREAD_RUNNING \<and> \<not> intr_context3 k \<and>
     Some (cur3 k) \<noteq> idle_thread3 k \<and> distinct (cur3 k # ready3 k) \<and>
     (\<forall>t \<in> set (ready3 k). live3 k t \<and> status_of3 k t = Some THREAD_READY \<and> Some t \<noteq> idle_thread3 k)"

lemma live3_upd3: "(\<And>th. magic3 (f th) = magic3 th) \<Longrightarrow> live3 (upd3 t f k) u = live3 k u"
  by (auto simp: live3_def threads_upd3)

lemma status_upd3:
  "status_of3 (upd3 t f k) u = (if u = t then map_option (status3 \<circ> f) (threads3 k t) else status_of3 k u)"
  by (auto simp: status_of3_def threads_upd3 option.map_comp)

lemma is_thread3_live: "is_thread3 (Some t) k = live3 k t"
  by (auto simp: is_thread3_def live3_def split: option.splits)

lemma current3_ok:
  "live3 k (cur3 k) \<Longrightarrow> status_of3 k (cur3 k) = Some THREAD_RUNNING \<Longrightarrow>
     \<exists>th. thread_current3 k = Inr th \<and> threads3 k (cur3 k) = Some th"
  by (auto simp: thread_current3_def is_thread3_live live3_def status_of3_def get3_def)

text \<open>What a switch to a live thread does when the old one is not dying.\<close>

lemma schedule_tail3_ok:
  assumes "\<not> intr_on3 k" and "live3 k (cur3 k)" and "\<And>p. prev = Some p \<Longrightarrow> p \<noteq> cur3 k \<and> status_of3 k p \<noteq> Some THREAD_DYING"
  shows "\<exists>k'. thread_schedule_tail3 prev k = Inr k' \<and> cur3 k' = cur3 k \<and> ready3 k' = ready3 k \<and>
     threads3 k' = (threads3 k)(cur3 k := map_option (\<lambda>th. th\<lparr>status3 := THREAD_RUNNING\<rparr>) (threads3 k (cur3 k))) \<and>
     idle_thread3 k' = idle_thread3 k \<and> intr_context3 k' = intr_context3 k \<and> frames3 k' = frames3 k \<and>
     sems3 k' = sems3 k"
proof -
  define k1 where "k1 = upd3 (cur3 k) (\<lambda>th. th\<lparr>status3 := THREAD_RUNNING\<rparr>) k\<lparr>thread_ticks3 := 0\<rparr>"
  have s1: "status_of3 k1 p = (if p = cur3 k then Some THREAD_RUNNING else status_of3 k p)" for p
    using assms(2) by (auto simp: k1_def status_of3_def threads_upd3 live3_def)
  have "live3 k1 (cur3 k1)" using assms(2) by (auto simp: k1_def live3_def threads_upd3)
  then obtain th where th: "thread_current3 k1 = Inr th"
    using current3_ok[of k1] s1 by (auto simp: k1_def)
  have "thread_schedule_tail3 prev k = Inr (k1\<lparr>active_pagedir := pagedir th\<rparr>)"
    using assms(1,3) th s1
    by (auto simp: thread_schedule_tail3_def k1_def[symmetric] process_activate_def status_of3_def Let_def
        split: option.splits)
  then show ?thesis by (simp add: k1_def threads_upd3)
qed

text \<open>Blocking: the first ready thread runs, the running thread waits.\<close>

lemma block3_ok:
  assumes c: "thread_current3 k = Inr c" "\<not> intr_context3 k" "\<not> intr_on3 k"
    and r: "ready3 k = t # ts" "live3 k t" "t \<noteq> cur3 k"
  shows "\<exists>k'. thread_block3 k = Inr k' \<and> cur3 k' = t \<and> ready3 k' = ts \<and> sems3 k' = sems3 k \<and> frames3 k' = frames3 k \<and>
     threads3 k' = (threads3 k)(cur3 k \<mapsto> c\<lparr>status3 := THREAD_BLOCKED\<rparr>,
       t := map_option (\<lambda>th. th\<lparr>status3 := THREAD_RUNNING\<rparr>) (threads3 k t))"
proof -
  have cur: "threads3 k (cur3 k) = Some c"
    using c(1) by (auto simp: thread_current3_def is_thread3_def res_simps split: option.splits)
  define k1 where "k1 = upd3 (cur3 k) (\<lambda>th. th\<lparr>status3 := THREAD_BLOCKED\<rparr>) k"
  define k2 where "k2 = k1\<lparr>ready3 := ts, cur3 := t\<rparr>"
  have t1: "threads3 k1 = (threads3 k)(cur3 k \<mapsto> c\<lparr>status3 := THREAD_BLOCKED\<rparr>)"
    using cur by (simp add: k1_def threads_upd3)
  have c1: "ready3 k1 = t # ts" "\<not> intr_on3 k1" "cur3 k1 = cur3 k" using r(1) c(3) by (simp_all add: k1_def)
  have n1: "is_thread3 (Some t) (k1\<lparr>ready3 := ts\<rparr>)"
    using r(2,3) by (simp add: is_thread3_live live3_def t1)
  have b: "thread_block3 k = thread_schedule_tail3 (Some (cur3 k)) k2"
    using c r(3) n1 c1 t1 by (simp add: thread_block3_def k1_def[symmetric] schedule3_def next_thread_to_run3_def k2_def)
  have "\<exists>k'. thread_schedule_tail3 (Some (cur3 k)) k2 = Inr k' \<and> cur3 k' = cur3 k2 \<and> ready3 k' = ready3 k2 \<and>
     threads3 k' = (threads3 k2)(cur3 k2 := map_option (\<lambda>th. th\<lparr>status3 := THREAD_RUNNING\<rparr>) (threads3 k2 (cur3 k2))) \<and>
     idle_thread3 k' = idle_thread3 k2 \<and> intr_context3 k' = intr_context3 k2 \<and> frames3 k' = frames3 k2 \<and>
     sems3 k' = sems3 k2"
  proof (rule schedule_tail3_ok)
    show "\<not> intr_on3 k2" using c1 by (simp add: k2_def)
    show "live3 k2 (cur3 k2)" using r(2,3) by (simp add: k2_def live3_def t1)
    show "p \<noteq> cur3 k2 \<and> status_of3 k2 p \<noteq> Some THREAD_DYING" if "Some (cur3 k) = Some p" for p
      using that r(3) by (auto simp: k2_def status_of3_def t1)
  qed
  then show ?thesis using r(3) by (auto simp: b k2_def t1) (auto simp: k1_def)
qed

text \<open>One yield: the first ready thread runs, the running thread goes to the end.\<close>

lemma yield_rotates:
  assumes ok: "fifo_ok k" and r: "ready3 k = t # ts"
  shows "\<exists>k'. thread_yield3 k = Inr k' \<and> cur3 k' = t \<and> ready3 k' = ts @ [cur3 k] \<and> fifo_ok k'"
proof -
  obtain th where th: "thread_current3 k = Inr th" "threads3 k (cur3 k) = Some th"
    using ok current3_ok by (auto simp: fifo_ok_def)
  define k1 where "k1 = upd3 (cur3 k) (\<lambda>th. th\<lparr>status3 := THREAD_READY\<rparr>)
    (push3 [Set_Level3 (intr_on3 k)] (k\<lparr>intr_on3 := False\<rparr>)\<lparr>ready3 := ready3 k @ [cur3 k]\<rparr>)"
  define k2 where "k2 = k1\<lparr>ready3 := ts @ [cur3 k], cur3 := t\<rparr>"
  have y: "thread_yield3 k = schedule3 k1"
    using ok th(1) by (simp add: thread_yield3_def fifo_ok_def k1_def Let_def)
  have t1: "threads3 k1 = (threads3 k)(cur3 k \<mapsto> th\<lparr>status3 := THREAD_READY\<rparr>)"
    using th(2) by (simp add: k1_def threads_upd3)
  have t: "t \<noteq> cur3 k" "live3 k t" "status_of3 k t = Some THREAD_READY"
    using ok r by (auto simp: fifo_ok_def)
  have m: "magic3 th = THREAD_MAGIC" using ok th(2) by (auto simp: fifo_ok_def live3_def)
  have live1: "live3 k1 u = live3 k u" for u using th(2) m by (auto simp: live3_def t1)
  have live2: "live3 k2 u = live3 k u" for u using live1[of u] by (simp add: live3_def k2_def)
  have c1: "ready3 k1 = t # ts @ [cur3 k]" "\<not> intr_on3 k1" "cur3 k1 = cur3 k" using r by (simp_all add: k1_def)
  have n1: "is_thread3 (Some t) (k1\<lparr>ready3 := ts @ [cur3 k]\<rparr>)"
    using live1[of t] t by (simp add: is_thread3_live live3_def)
  have "schedule3 k1 = thread_schedule_tail3 (Some (cur3 k)) k2"
    using t(1) n1 c1 t1 by (simp add: schedule3_def next_thread_to_run3_def k2_def)
  moreover have "\<exists>k'. thread_schedule_tail3 (Some (cur3 k)) k2 = Inr k' \<and> cur3 k' = cur3 k2 \<and> ready3 k' = ready3 k2 \<and>
     threads3 k' = (threads3 k2)(cur3 k2 := map_option (\<lambda>th. th\<lparr>status3 := THREAD_RUNNING\<rparr>) (threads3 k2 (cur3 k2))) \<and>
     idle_thread3 k' = idle_thread3 k2 \<and> intr_context3 k' = intr_context3 k2 \<and> frames3 k' = frames3 k2 \<and>
     sems3 k' = sems3 k2"
  proof (rule schedule_tail3_ok)
    show "\<not> intr_on3 k2" by (simp add: k2_def k1_def)
    show "live3 k2 (cur3 k2)" using live2 t by (simp add: k2_def)
    show "p \<noteq> cur3 k2 \<and> status_of3 k2 p \<noteq> Some THREAD_DYING" if "Some (cur3 k) = Some p" for p
      using that t by (auto simp: k2_def status_of3_def t1)
  qed
  ultimately obtain k' where k': "thread_yield3 k = Inr k'" "cur3 k' = t" "ready3 k' = ts @ [cur3 k]"
    "threads3 k' = (threads3 k2)(t := map_option (\<lambda>th. th\<lparr>status3 := THREAD_RUNNING\<rparr>) (threads3 k2 t))"
    "idle_thread3 k' = idle_thread3 k" "intr_context3 k' = intr_context3 k"
    using y by (auto simp: k2_def k1_def)
  have t2: "threads3 k2 = threads3 k1" by (simp add: k2_def)
  have live': "live3 k' u = live3 k u" for u
    using live1[of u] by (auto simp: live3_def k'(4) t2)
  have st': "status_of3 k' u = (if u = t then Some THREAD_RUNNING else if u = cur3 k then Some THREAD_READY
      else status_of3 k u)" for u
    using t by (auto simp: status_of3_def k'(4) t2 t1 live3_def)
  have "fifo_ok k'"
    using ok r t unfolding fifo_ok_def by (auto simp: k' live' st')
  then show ?thesis using k' by blast
qed

fun yields :: "nat \<Rightarrow> 'fs kernel3 \<Rightarrow> 'fs kernel3 res" where
  "yields 0 k = Inr k"
| "yields (Suc n) k = bind_res (thread_yield3 k) (yields n)"

text \<open>C22: Fairness of the Lab 3 scheduler: when the running threads yield one after the other, the
  thread at position \<open>i\<close> of the ready list runs after \<open>i + 1\<close> yields, and none of them fails.\<close>

theorem fifo_turn:
  assumes "fifo_ok k" and "i < length (ready3 k)"
  shows "\<exists>k'. yields (Suc i) k = Inr k' \<and> cur3 k' = ready3 k ! i \<and> fifo_ok k'"
  using assms
proof (induction i arbitrary: k)
  case 0
  then obtain t ts where r: "ready3 k = t # ts" by (cases "ready3 k") auto
  then show ?case using yield_rotates[OF 0(1) r] by auto
next
  case (Suc i)
  then obtain t ts where r: "ready3 k = t # ts" by (cases "ready3 k") auto
  obtain k1 where k1: "thread_yield3 k = Inr k1" "ready3 k1 = ts @ [cur3 k]" "fifo_ok k1"
    using yield_rotates[OF Suc.prems(1) r] by blast
  have i: "i < length ts" using Suc.prems(2) r by simp
  then obtain k' where "yields (Suc i) k1 = Inr k'" "cur3 k' = ready3 k1 ! i" "fifo_ok k'"
    using Suc.IH[OF k1(3)] k1(2) by auto
  then show ?case using k1 r i by (auto simp: nth_append)
qed

text \<open>Three threads: the one on page 1 runs, the others are ready.\<close>

definition demo_thread3 :: "thread_status \<Rightarrow> int \<Rightarrow> thread3" where
  "demo_thread3 st i =
     \<lparr>tid3 = i, status3 = st, name3 = [0x78], stack3 = 0, priority3 = PRI_DEFAULT, magic3 = THREAD_MAGIC,
      exit_stat = 0, is_waiting = False, is_alive = True, child = None, parent = None, children_list = [],
      child_link = None, files = replicate 8 None, pagedir = None, current_esp = 0\<rparr>"

definition demo_kernel3 :: "unit kernel3" where
  "demo_kernel3 =
     \<lparr>threads3 = [1 \<mapsto> demo_thread3 THREAD_RUNNING 1, 2 \<mapsto> demo_thread3 THREAD_READY 2, 3 \<mapsto> demo_thread3 THREAD_READY 3],
      cur3 = 1, frames3 = (\<lambda>_. [User_Mode]), ready3 = [2, 3], all3 = [1, 2, 3], idle_thread3 = None, initial3 = 1,
      next_tid3 = 4, thread_ticks3 = 0, idle_ticks3 = 0, kernel_ticks3 = 0, user_ticks3 = 0,
      sems3 = (\<lambda>_. None), exit_c = replicate 30 0, active_pagedir = None, intr_on3 = True, intr_context3 = False,
      yield_on_return3 = False, ret = (\<lambda>_. 0), eax = (\<lambda>_. 0), user_mem = (\<lambda>_ _. None), user_esp = (\<lambda>_. 0),
      console = [], pages = 3, fsys3 = (), powered = True\<rparr>"

lemma demo_fifo: "fifo_ok demo_kernel3"
  by (simp add: fifo_ok_def demo_kernel3_def demo_thread3_def live3_def status_of3_def)

theorem fifo_turn_witness: "\<exists>k. yields 2 demo_kernel3 = Inr k \<and> cur3 k = 3"
proof -
  have r: "ready3 demo_kernel3 = [2, 3]" by (simp add: demo_kernel3_def)
  have "\<exists>k. yields (Suc 1) demo_kernel3 = Inr k \<and> cur3 k = ready3 demo_kernel3 ! 1 \<and> fifo_ok k"
    by (rule fifo_turn[OF demo_fifo]) (simp add: r)
  then show ?thesis using r by (auto simp: numeral_2_eq_2 simp del: yields.simps)
qed

end
