(* ===== verification/Process_Props.thy ===== *)
theory Process_Props
  imports Process Lab3_Sched
begin

text \<open>
  Parents, children and exit codes: what waiting and exiting do together, and where they go wrong.
\<close>

section \<open>A kernel with three processes\<close>

text \<open>Semaphores that let the longest waiter through, and enough pages.\<close>

definition demo_env3 :: "unit env3" where
  "demo_env3 =
     \<lparr>sem_down = (\<lambda>t s. if sema_value s > 0 then (s\<lparr>sema_value := sema_value s - 1\<rparr>, True)
                        else (s\<lparr>waiters := waiters s @ [t]\<rparr>, False)),
      sem_up = (\<lambda>s. case waiters s of [] \<Rightarrow> (s\<lparr>sema_value := sema_value s + 1\<rparr>, None)
                   | t # ts \<Rightarrow> (s\<lparr>waiters := ts\<rparr>, Some t)),
      thread_page = Some 4, has_page = (\<lambda>n. n < 10), elf_load = (\<lambda>_ _. None),
      filesys_create = (\<lambda>_ _ fs. (True, fs)), filesys_open = (\<lambda>n fs. (if length n = 1 then Some 9 else None, fs)),
      file_read = (\<lambda>_ _ fs. ([], fs)), file_write = (\<lambda>_ _ fs. fs), file_length = (\<lambda>_ _. 0),
      file_close = (\<lambda>_ fs. fs), umem_get = (\<lambda>m a. case m a of None \<Rightarrow> - 1 | Some b \<Rightarrow> uint b),
      umem_read = (\<lambda>m a. case load32 m a of Inl _ \<Rightarrow> None | Inr w \<Rightarrow> Some w),
      umem_exit_code = - 1, syscall_nr = (\<lambda>_. None), files_len = 8,
      entry_frame_size3 = 8, threads_frame_size3 = 28\<rparr>"

lemma demo_sem_ok: "sem_ok demo_env3"
  by (auto simp: sem_ok_def demo_env3_def split: list.split)

lemmas demo3_defs = demo_env3_def demo_kernel3_def demo_thread3_def

section \<open>Waiting\<close>

lemma current3D:
  "thread_current3 k = Inr c \<Longrightarrow> threads3 k (cur3 k) = Some c"
  "thread_current3 k = Inr c \<Longrightarrow> status3 c = THREAD_RUNNING"
  "thread_current3 k = Inr c \<Longrightarrow> magic3 c = THREAD_MAGIC"
  by (auto simp: thread_current3_def is_thread3_def res_simps split: option.splits)

lemma current3I:
  "threads3 k (cur3 k) = Some c \<Longrightarrow> status3 c = THREAD_RUNNING \<Longrightarrow> magic3 c = THREAD_MAGIC \<Longrightarrow>
     thread_current3 k = Inr c"
  by (simp add: thread_current3_def is_thread3_def get3_def)

lemma current3_cong:
  "cur3 k' = cur3 k \<Longrightarrow> threads3 k' (cur3 k) = threads3 k (cur3 k) \<Longrightarrow> thread_current3 k' = thread_current3 k"
  by (simp add: thread_current3_def is_thread3_def get3_def)

text \<open>A process whose last child has been reaped by a wait that blocked gets the exit code of that
  child again from a second wait, and -1 only from the third; the comment on the function promises -1
  from the second.\<close>

theorem wait_twice:
  assumes c: "thread_current3 k = Inr c" "is_alive c" "children_list c = []"
    and i: "0 \<le> i" "i \<le> 100" "nat i < length (exit_c k)"
  shows "\<exists>k1 k2 k3. process_wait E PW_Return i k = Inr k1 \<and> ret k1 (cur3 k) = exit_c k ! nat i \<and>
     process_wait E PW_Enter i k1 = Inr k2 \<and> ret k2 (cur3 k) = exit_c k ! nat i \<and>
     process_wait E PW_Enter i k2 = Inr k3 \<and> ret k3 (cur3 k) = - 1"
proof -
  define k1 where "k1 = return3 (exit_c k ! nat i) k"
  define k2 where "k2 = return3 (exit_c k ! nat i) (k1\<lparr>exit_c := (exit_c k)[nat i := - 1]\<rparr>)"
  define k3 where "k3 = return3 (- 1) (k2\<lparr>exit_c := (exit_c k2)[nat i := - 1]\<rparr>)"
  note d = k1_def k2_def k3_def return3_def
  have t: "thread_current3 k1 = Inr c" "thread_current3 k2 = Inr c"
    using c(1) current3_cong[of k1 k] current3_cong[of k2 k] by (simp_all add: d)
  have "process_wait E PW_Return i k = Inr k1" using i by (simp add: k1_def)
  moreover have "process_wait E PW_Enter i k1 = Inr k2"
    using t(1) c i by (simp add: k2_def) (simp add: d)
  moreover have "process_wait E PW_Enter i k2 = Inr k3"
    using t(2) c i by (simp add: k3_def) (simp add: d)
  ultimately show ?thesis by (auto simp: d)
qed

theorem wait_twice_witness:
  "\<exists>k k1 k2 k3. process_wait demo_env3 PW_Return 2 k = Inr k1 \<and> ret k1 1 = 42 \<and>
     process_wait demo_env3 PW_Enter 2 k1 = Inr k2 \<and> ret k2 1 = 42 \<and>
     process_wait demo_env3 PW_Enter 2 k2 = Inr k3 \<and> ret k3 1 = - 1"
proof -
  define k where "k = demo_kernel3\<lparr>exit_c := (replicate 30 0)[2 := 42]\<rparr>"
  have f: "cur3 k = 1" "length (exit_c k) = 30" "exit_c k ! 2 = 42" by (simp_all add: k_def demo_kernel3_def)
  have "thread_current3 k = Inr (demo_thread3 THREAD_RUNNING 1)"
    by (rule current3I) (simp_all add: demo3_defs k_def)
  from wait_twice[OF this, of 2 demo_env3] f show ?thesis by (simp add: demo_thread3_def del: process_wait.simps) blast
qed

lemma wait_scan_last:
  "\<forall>x \<in> set xs. \<exists>th. threads3 k x = Some th \<and> tid3 th \<noteq> i \<Longrightarrow>
     wait_scan k i xs t = Inr (if xs = [] then t else Some (last xs))"
  by (induction xs arbitrary: t) (auto simp: get3_def)

text \<open>A process that has children and waits for an identifier none of them has does not get -1 at
  once: it is made to wait for its last child and marks that child as waited for, so that a later wait
  for the child itself fails.\<close>

theorem wait_for_stranger:
  assumes c: "thread_current3 k = Inr c" "is_alive c" "children_list c = cs @ [t]"
    and i: "0 \<le> i" "i \<le> 100" "nat i < length (exit_c k)"
    and cs: "\<forall>x \<in> set (children_list c). \<exists>th. threads3 k x = Some th \<and> tid3 th \<noteq> i"
    and t: "threads3 k t = Some th" "\<not> is_waiting th" "is_alive th" "t \<noteq> cur3 k"
  shows "\<exists>k'. process_wait E PW_Enter i k = Inr k' \<and>
     frames3 k' (cur3 k) = [Down3 (Own t), Process_Wait PW_Return i] @ frames3 k (cur3 k) \<and>
     threads3 k' t = Some (th\<lparr>is_waiting := True\<rparr>)"
proof -
  have s: "wait_scan k i (children_list c) None = Inr (Some t)"
    using wait_scan_last[OF cs, of None] c(3) by simp
  have "process_wait E PW_Enter i k = Inr (push3 [Down3 (Own t), Process_Wait PW_Return i]
      (upd3 t (\<lambda>th. th\<lparr>is_waiting := True\<rparr>) (k\<lparr>exit_c := (exit_c k)[nat i := - 1]\<rparr>)))"
    using c i t s by (simp add: get3_def)
  then show ?thesis using t(1) by (simp add: frames_push3 threads_upd3)
qed

theorem wait_for_stranger_witness:
  "\<exists>k k'. process_wait demo_env3 PW_Enter 7 k = Inr k' \<and>
     frames3 k' 1 = [Down3 (Own 3), Process_Wait PW_Return 7, User_Mode]"
proof -
  let ?k = "upd3 1 (\<lambda>th. th\<lparr>children_list := [2, 3]\<rparr>) demo_kernel3"
  have "thread_current3 ?k = Inr ((demo_thread3 THREAD_RUNNING 1)\<lparr>children_list := [2] @ [3]\<rparr>)"
    by (rule current3I) (simp_all add: demo3_defs threads_upd3)
  from wait_for_stranger[OF this, of "[2]" 3 7 "demo_thread3 THREAD_READY 3" demo_env3]
  show ?thesis by (auto simp: demo3_defs threads_upd3)
qed

section \<open>Ending\<close>

lemma orphan_ok: "threads3 k t = Some th \<Longrightarrow> orphan t k = Inr (upd3 t (\<lambda>th. th\<lparr>child_link := None,
    parent := (if is_alive th then None else parent th)\<rparr>) k)"
  by (simp add: orphan_def get3_def)

text \<open>All children lose their link to the list; nothing else changes.\<close>

definition unlinked :: "tptr list \<Rightarrow> 'fs kernel3 \<Rightarrow> (tptr \<Rightarrow> thread3 option)" where
  "unlinked ts k t = (if t \<in> set ts
     then map_option (\<lambda>th. th\<lparr>child_link := None, parent := (if is_alive th then None else parent th)\<rparr>) (threads3 k t)
     else threads3 k t)"

lemma orphans_ok:
  assumes "\<forall>t \<in> set ts. threads3 k t \<noteq> None"
  shows "fold_res orphan ts k = Inr (k\<lparr>threads3 := unlinked ts k\<rparr>)"
  using assms
proof (induction ts arbitrary: k)
  case Nil
  then show ?case by (simp add: unlinked_def[abs_def])
next
  case (Cons t ts)
  obtain th where th: "threads3 k t = Some th" using Cons.prems by auto
  define k1 where "k1 = upd3 t (\<lambda>th. th\<lparr>child_link := None, parent := (if is_alive th then None else parent th)\<rparr>) k"
  have "\<forall>t \<in> set ts. threads3 k1 t \<noteq> None" using Cons.prems th by (auto simp: k1_def threads_upd3)
  then have "fold_res orphan (t # ts) k = Inr (k1\<lparr>threads3 := unlinked ts k1\<rparr>)"
    using orphan_ok[OF th] Cons.IH[of k1] by (simp add: k1_def)
  moreover have "unlinked ts k1 = unlinked (t # ts) k"
    using th by (auto simp: fun_eq_iff unlinked_def k1_def threads_upd3)
  ultimately show ?case by (simp add: k1_def upd3_def)
qed

text \<open>An exit needs a list to leave and room for the exit code.\<close>

lemma process_exit_requires:
  assumes "process_exit E k = Inr k'" and "thread_current3 k = Inr c"
  shows "child_link c \<noteq> None \<and> 0 \<le> tid3 c \<and> nat (tid3 c) < length (exit_c k)"
proof -
  have "length (exit_c k1) = length (exit_c k0)" if "fold_res orphan ts k0 = Inr k1" for ts and k0 k1 :: "'a kernel3"
    by (rule fold_res_invariant[OF that, of "\<lambda>k. length (exit_c k) = length (exit_c k0)"])
      (auto simp: orphan_def res_simps)
  then show ?thesis using assms
    by (auto simp: process_exit_def res_simps Let_def split: option.splits if_splits)
qed

text \<open>The part of \<open>process_exit\<close> before the semaphore, for a thread with live children.\<close>

definition before_up :: "thread3 \<Rightarrow> tptr \<Rightarrow> 'fs kernel3 \<Rightarrow> 'fs kernel3" where
  "before_up c p k =
     (let k = (if pagedir c = None then k
               else upd3 (cur3 k) (\<lambda>th. th\<lparr>pagedir := None\<rparr>)
                 (k\<lparr>active_pagedir := None, user_mem := (user_mem k)(cur3 k := (\<lambda>_. None))\<rparr>));
          k = k\<lparr>threads3 := unlinked (children_list c) k\<rparr>;
          k = upd3 (cur3 k) (\<lambda>th. th\<lparr>children_list := []\<rparr>) k;
          k = upd3 p (\<lambda>th. th\<lparr>children_list := remove1 (cur3 k) (children_list th)\<rparr>) k;
          k = upd3 (cur3 k) (\<lambda>th. th\<lparr>child_link := None\<rparr>) k
      in k\<lparr>exit_c := (exit_c k)[nat (tid3 c) := exit_stat c]\<rparr>)"

lemma process_exit_eq:
  assumes c: "thread_current3 k = Inr c" and ch: "\<forall>t \<in> set (children_list c). threads3 k t \<noteq> None"
    and p: "child_link c = Some p" and i: "0 \<le> tid3 c" "nat (tid3 c) < length (exit_c k)"
  shows "process_exit E k = semaphore_up3 E (Own (cur3 k)) (before_up c p k)"
proof -
  define k0 where "k0 = (if pagedir c = None then k
      else upd3 (cur3 k) (\<lambda>th. th\<lparr>pagedir := None\<rparr>)
        (k\<lparr>active_pagedir := None, user_mem := (user_mem k)(cur3 k := (\<lambda>_. None))\<rparr>))"
  have "\<forall>t \<in> set (children_list c). threads3 k0 t \<noteq> None"
    using ch by (auto simp: k0_def threads_upd3)
  from orphans_ok[OF this] show ?thesis
    using c p i by (simp add: process_exit_def before_up_def k0_def[symmetric] Let_def) (simp add: k0_def)
qed

lemma before_up_frame:
  "cur3 (before_up c p k) = cur3 k" "ready3 (before_up c p k) = ready3 k" "sems3 (before_up c p k) = sems3 k"
  "exit_c (before_up c p k) = (exit_c k)[nat (tid3 c) := exit_stat c]" "frames3 (before_up c p k) = frames3 k"
  by (simp_all add: before_up_def Let_def)

lemma before_up_other:
  "t \<noteq> cur3 k \<Longrightarrow> t \<noteq> p \<Longrightarrow> threads3 (before_up c p k) t = unlinked (children_list c) k t"
  "p \<noteq> cur3 k \<Longrightarrow> p \<notin> set (children_list c) \<Longrightarrow> threads3 (before_up c p k) p =
     map_option (\<lambda>th. th\<lparr>children_list := remove1 (cur3 k) (children_list th)\<rparr>) (threads3 k p)"
  by (auto simp: before_up_def Let_def threads_upd3 unlinked_def)



text \<open>C40: A process whose parent has exited can never exit itself: its list element is in no list any
  more, and removing it again corrupts memory.\<close>

theorem orphan_cannot_exit:
  assumes parent: "thread_current3 k = Inr c" "process_exit E k = Inr k1"
    and t: "t \<in> set (children_list c)" "t \<noteq> cur3 k"
    and live: "\<forall>x \<in> set (children_list c). threads3 k x \<noteq> None"
    and later: "thread_current3 k2 = Inr d" "map_option child_link (threads3 k1 t) = Some (child_link d)"
  shows "\<not> (\<exists>k'. process_exit E k2 = Inr k')"
proof -
  obtain p where p: "child_link c = Some p" and i: "0 \<le> tid3 c" "nat (tid3 c) < length (exit_c k)"
    using process_exit_requires[OF parent(2,1)] by auto
  define k0 where "k0 = before_up c p k"
  have up: "semaphore_up3 E (Own (cur3 k)) k0 = Inr k1"
    using parent(2) process_exit_eq[OF parent(1) live p i, of E] by (simp add: k0_def)
  obtain th where th: "threads3 k t = Some th" using t live by auto
  have "map_option child_link (threads3 k0 t) = Some None"
  proof (cases "t = p")
    case True
    then show ?thesis using t th by (auto simp: k0_def before_up_def Let_def threads_upd3 unlinked_def)
  next
    case False
    then show ?thesis using t th before_up_other(1)[of t k p c] by (auto simp: k0_def unlinked_def)
  qed
  moreover have "map_option child_link (threads3 k1 t) = map_option child_link (threads3 k0 t)"
    using up by (auto simp: semaphore_up3_def thread_unblock3_def threads_upd3 res_simps Let_def option.map_comp comp_def
        split: option.splits prod.splits)
  ultimately have "Some (child_link d) = Some None" using later(2) by (simp only:)
  then have "child_link d = None" by simp
  then show ?thesis using process_exit_requires[OF _ later(1)] by auto
qed

theorem orphan_cannot_exit_witness:
  "\<exists>k k1. process_exit demo_env3 k = Inr k1 \<and>
     \<not> (\<exists>k'. process_exit demo_env3 (upd3 2 (\<lambda>th. th\<lparr>status3 := THREAD_RUNNING\<rparr>) (k1\<lparr>cur3 := 2\<rparr>)) = Inr k')"
proof -
  let ?c = "(demo_thread3 THREAD_RUNNING 1)\<lparr>child_link := Some 3, children_list := [2]\<rparr>"
  let ?k = "demo_kernel3\<lparr>sems3 := [Own 1 \<mapsto> \<lparr>sema_value = 0, waiters = []\<rparr>],
    threads3 := [1 \<mapsto> ?c, 2 \<mapsto> (demo_thread3 THREAD_READY 2)\<lparr>child_link := Some 1\<rparr>,
      3 \<mapsto> (demo_thread3 THREAD_READY 3)\<lparr>children_list := [1]\<rparr>]\<rparr>"
  have c: "thread_current3 ?k = Inr ?c" by (rule current3I) (simp_all add: demo3_defs)
  have "process_exit demo_env3 ?k = semaphore_up3 demo_env3 (Own (cur3 ?k)) (before_up ?c 3 ?k)"
    by (rule process_exit_eq[OF c]) (simp_all add: demo3_defs)
  then obtain k1 where k1: "process_exit demo_env3 ?k = Inr k1"
    "k1 = before_up ?c 3 ?k\<lparr>sems3 := (sems3 ?k)(Own 1 \<mapsto> \<lparr>sema_value = 1, waiters = []\<rparr>)\<rparr>"
    by (simp add: semaphore_up3_def before_up_frame demo3_defs Let_def)
  let ?d = "(demo_thread3 THREAD_RUNNING 2)\<lparr>child_link := None, parent := None\<rparr>"
  let ?k2 = "upd3 2 (\<lambda>th. th\<lparr>status3 := THREAD_RUNNING\<rparr>) (k1\<lparr>cur3 := 2\<rparr>)"
  have t2: "threads3 k1 2 = Some ((demo_thread3 THREAD_READY 2)\<lparr>child_link := None, parent := None\<rparr>)"
    by (simp add: k1(2) before_up_other(1) unlinked_def demo3_defs)
  have "thread_current3 ?k2 = Inr ?d" by (rule current3I) (simp_all add: t2 threads_upd3 demo3_defs)
  from orphan_cannot_exit[OF c k1(1) _ _ _ this, of 2] show ?thesis
    using k1(1) t2 by (auto simp: demo3_defs)
qed

section \<open>Starting\<close>

text \<open>Steps of \<open>thread_create3\<close> on a fresh page.\<close>

lemma thread_create3_ok:
  assumes pg: "thread_page E = Some t" "threads3 k t = None" and pri: "PRI_MIN \<le> pri" "pri \<le> PRI_MAX"
    and sz: "entry_frame_size3 E mod 4 = 0" "threads_frame_size3 E mod 4 = 0"
    and n: "- (2 ^ 31) \<le> next_tid3 k" "next_tid3 k + 1 < 2 ^ 31"
    and c: "thread_current3 k = Inr c"
  shows "\<exists>k' th. thread_create3 E (Some nm) pri func k = Inr (next_tid3 k, k') \<and> cur3 k' = cur3 k \<and>
     ready3 k' = ready3 k @ [t] \<and> frames3 k' = (frames3 k)(t := [Kernel_Thread3 func]) \<and>
     sems3 k' = (sems3 k)(Own t \<mapsto> \<lparr>sema_value = 0, waiters = []\<rparr>) \<and> intr_on3 k' = intr_on3 k \<and>
     intr_context3 k' = intr_context3 k \<and> idle_thread3 k' = idle_thread3 k \<and> initial3 k' = initial3 k \<and>
     threads3 k' t = Some th \<and> threads3 k' (cur3 k) = Some (c\<lparr>child := Some t\<rparr>) \<and>
     (\<forall>u. u \<noteq> t \<and> u \<noteq> cur3 k \<longrightarrow> threads3 k' u = threads3 k u) \<and>
     parent th = Some (cur3 k) \<and> tid3 th = next_tid3 k \<and> status3 th = THREAD_READY \<and> magic3 th = THREAD_MAGIC \<and>
     is_alive th \<and> \<not> is_waiting th"
proof -
  have cur: "threads3 k (cur3 k) = Some c" "status3 c = THREAD_RUNNING" "magic3 c = THREAD_MAGIC"
    using current3D[OF c] by simp_all
  have ne: "t \<noteq> cur3 k" using pg(2) cur(1) by auto
  show ?thesis using assms cur ne
    by (simp add: thread_create3_def init_thread3_def allocate_tid3_def alloc_frame3_def add_int32_def
        semaphore_init3_def is_thread3_def thread_current3_def get3_def threads_upd3 thread_unblock3_def
        Let_def)
qed

text \<open>A semaphore at zero makes the caller wait and the first ready thread run.\<close>

lemma down3_blocks:
  assumes sem: "sem_ok E" and z: "sems3 k s = Some \<lparr>sema_value = 0, waiters = []\<rparr>"
    and c: "thread_current3 k = Inr c" "\<not> intr_context3 k" and r: "ready3 k = u # us" and u: "live3 k u" "u \<noteq> cur3 k"
  shows "\<exists>k'. semaphore_down3 E s k = Inr k' \<and> cur3 k' = u \<and> ready3 k' = us \<and>
     sems3 k' s = Some \<lparr>sema_value = 0, waiters = [cur3 k]\<rparr> \<and> (\<forall>t. t \<noteq> cur3 k \<longrightarrow> frames3 k' t = frames3 k t) \<and>
     threads3 k' = (threads3 k)(cur3 k \<mapsto> c\<lparr>status3 := THREAD_BLOCKED\<rparr>,
       u := map_option (\<lambda>th. th\<lparr>status3 := THREAD_RUNNING\<rparr>) (threads3 k u))"
proof -
  have down: "sem_down E (cur3 k) \<lparr>sema_value = 0, waiters = []\<rparr> = (\<lparr>sema_value = 0, waiters = [cur3 k]\<rparr>, False)"
    using sem by (simp add: sem_ok_def)
  define k1 where "k1 = push3 [Set_Level3 (intr_on3 k)]
    (k\<lparr>sems3 := (sems3 k)(s \<mapsto> \<lparr>sema_value = 0, waiters = [cur3 k]\<rparr>), intr_on3 := False\<rparr>)"
  have d: "semaphore_down3 E s k = thread_block3 k1"
    using down z by (simp add: semaphore_down3_def k1_def Let_def)
  have f: "threads3 k1 = threads3 k" "cur3 k1 = cur3 k" "ready3 k1 = ready3 k" "intr_context3 k1 = intr_context3 k"
    "\<not> intr_on3 k1" "sems3 k1 s = Some \<lparr>sema_value = 0, waiters = [cur3 k]\<rparr>"
    "\<forall>t. t \<noteq> cur3 k \<longrightarrow> frames3 k1 t = frames3 k t"
    by (simp_all add: k1_def frames_push3)
  have c1: "thread_current3 k1 = Inr c" using c(1) current3_cong[of k1 k] f by simp
  have "live3 k1 u" using u(1) f by (simp add: live3_def)
  then show ?thesis using block3_ok[OF c1 _ _ r[folded f(3)]] u(2) c(2) f d by auto
qed

text \<open>What \<open>process_execute\<close> leaves when it comes to wait: a ready child and its own two pending calls.\<close>

lemma execute_creates:
  assumes pg: "thread_page E = Some t" "threads3 k t = None" "has_page E (pages k)" "has_page E (pages k + 1)"
    and sz: "entry_frame_size3 E mod 4 = 0" "threads_frame_size3 E mod 4 = 0"
    and n: "- (2 ^ 31) \<le> next_tid3 k" "next_tid3 k + 1 < 2 ^ 31"
    and c: "thread_current3 k = Inr c"
    and cmd: "strtok_r cmd = Some (nm, rest)" "length cmd < PGSIZE"
  obtains k1 th where "process_execute E (PE_Enter cmd) k = Inr k1"
    "frames3 k1 = (frames3 k)(cur3 k := [Down3 (Exec (cur3 k)), Process_Execute (PE_Return (next_tid3 k))] @ frames3 k (cur3 k),
       t := [Kernel_Thread3 (Start_Process (Exec (cur3 k)) cmd)])"
    "sems3 k1 (Exec (cur3 k)) = Some \<lparr>sema_value = 0, waiters = []\<rparr>" "cur3 k1 = cur3 k" "ready3 k1 = ready3 k @ [t]"
    "intr_context3 k1 = intr_context3 k" "threads3 k1 t = Some th" "live3 k1 t" "parent th = Some (cur3 k)"
    "thread_current3 k1 = Inr (c\<lparr>child := Some t\<rparr>)"
    "\<forall>u. u \<noteq> t \<and> u \<noteq> cur3 k \<longrightarrow> threads3 k1 u = threads3 k u"
proof -
  have cur: "threads3 k (cur3 k) = Some c" "status3 c = THREAD_RUNNING" "magic3 c = THREAD_MAGIC"
    using current3D[OF c] by simp_all
  have ne: "t \<noteq> cur3 k" using pg(2) cur(1) by auto
  let ?s = "Exec (cur3 k)"
  define k0 where "k0 = semaphore_init3 ?s 0 (k\<lparr>pages := pages k + 1 + 1\<rparr>)"
  have f0: "cur3 k0 = cur3 k" "threads3 k0 = threads3 k" "next_tid3 k0 = next_tid3 k" "ready3 k0 = ready3 k"
    "frames3 k0 = frames3 k" "sems3 k0 = (sems3 k)(?s \<mapsto> \<lparr>sema_value = 0, waiters = []\<rparr>)" "intr_context3 k0 = intr_context3 k"
    by (simp_all add: k0_def semaphore_init3_def)
  have c0: "thread_current3 k0 = Inr c" using c current3_cong[of k0 k] f0 by simp
  obtain k1 th where k1: "thread_create3 E (Some nm) PRI_DEFAULT (Start_Process ?s cmd) k0 = Inr (next_tid3 k, k1)"
    "cur3 k1 = cur3 k" "ready3 k1 = ready3 k @ [t]" "frames3 k1 = (frames3 k)(t := [Kernel_Thread3 (Start_Process ?s cmd)])"
    "sems3 k1 ?s = Some \<lparr>sema_value = 0, waiters = []\<rparr>" "intr_context3 k1 = intr_context3 k"
    "threads3 k1 t = Some th" "threads3 k1 (cur3 k) = Some (c\<lparr>child := Some t\<rparr>)"
    "\<forall>u. u \<noteq> t \<and> u \<noteq> cur3 k \<longrightarrow> threads3 k1 u = threads3 k u"
    "parent th = Some (cur3 k)" "magic3 th = THREAD_MAGIC" "status3 th = THREAD_READY"
    using thread_create3_ok[OF pg(1) _ _ _ sz _ _ c0, of PRI_DEFAULT nm "Start_Process ?s cmd"] f0 pg(2) n
    by (auto simp: PRI_DEFAULT_def PRI_MIN_def PRI_MAX_def)
  let ?k2 = "push3 [Down3 ?s, Process_Execute (PE_Return (next_tid3 k))] k1"
  show thesis
  proof (rule that[of ?k2 th])
    show "process_execute E (PE_Enter cmd) k = Inr ?k2"
      using pg(3,4) cmd k1(1) by (simp add: k0_def Let_def)
    show "thread_current3 ?k2 = Inr (c\<lparr>child := Some t\<rparr>)"
      by (rule current3I) (simp_all add: k1 cur)
  qed (use ne in \<open>auto simp: k1 frames_push3 live3_def\<close>)
qed



end
