(* ===== verification/Syscall_Props.thy ===== *)
theory Syscall_Props
  imports Syscall Process_Props
begin

text \<open>
  The system calls: the shape of the thread structures is kept by everything the kernel does, what
  opening and closing do to the descriptors, and which buffers a write accepts.
\<close>

section \<open>The types of the data\<close>

text \<open>A thread structure as \<open>init_thread\<close> makes it: the table of files has its size, the name fits into
  sixteen bytes with its end, the priority is in range and the magic number is intact. There are
  \<open>n\<close> exit codes.\<close>

definition thread_typed :: "'fs env3 \<Rightarrow> thread3 \<Rightarrow> bool" where
  "thread_typed E th \<longleftrightarrow> length (files th) = files_len E \<and> length (name3 th) \<le> 15 \<and>
     PRI_MIN \<le> priority3 th \<and> priority3 th \<le> PRI_MAX \<and> magic3 th = THREAD_MAGIC"

definition typed3 :: "'fs env3 \<Rightarrow> nat \<Rightarrow> 'fs kernel3 \<Rightarrow> bool" where
  "typed3 E n k \<longleftrightarrow> (\<forall>t th. threads3 k t = Some th \<longrightarrow> thread_typed E th) \<and> length (exit_c k) = n"

named_theorems typed_intros \<open>updates keep the types\<close>
named_theorems typed_ops \<open>operations keep the types\<close>

lemma typed3_cong: "threads3 k' = threads3 k \<Longrightarrow> length (exit_c k') = length (exit_c k) \<Longrightarrow> typed3 E n k' = typed3 E n k"
  by (simp add: typed3_def)

lemma typed3_fields [simp]:
  "typed3 E n (k\<lparr>cur3 := c\<rparr>) = typed3 E n k" "typed3 E n (k\<lparr>frames3 := fr\<rparr>) = typed3 E n k"
  "typed3 E n (k\<lparr>ready3 := r\<rparr>) = typed3 E n k" "typed3 E n (k\<lparr>all3 := r\<rparr>) = typed3 E n k"
  "typed3 E n (k\<lparr>initial3 := c\<rparr>) = typed3 E n k"
  "typed3 E n (k\<lparr>idle_thread3 := it\<rparr>) = typed3 E n k" "typed3 E n (k\<lparr>next_tid3 := j\<rparr>) = typed3 E n k"
  "typed3 E n (k\<lparr>thread_ticks3 := w\<rparr>) = typed3 E n k" "typed3 E n (k\<lparr>idle_ticks3 := j\<rparr>) = typed3 E n k"
  "typed3 E n (k\<lparr>kernel_ticks3 := j\<rparr>) = typed3 E n k" "typed3 E n (k\<lparr>user_ticks3 := j\<rparr>) = typed3 E n k"
  "typed3 E n (k\<lparr>sems3 := s\<rparr>) = typed3 E n k" "typed3 E n (k\<lparr>active_pagedir := a\<rparr>) = typed3 E n k"
  "typed3 E n (k\<lparr>intr_on3 := b\<rparr>) = typed3 E n k" "typed3 E n (k\<lparr>yield_on_return3 := b\<rparr>) = typed3 E n k"
  "typed3 E n (k\<lparr>ret := v\<rparr>) = typed3 E n k" "typed3 E n (k\<lparr>eax := e\<rparr>) = typed3 E n k"
  "typed3 E n (k\<lparr>user_mem := m\<rparr>) = typed3 E n k" "typed3 E n (k\<lparr>user_esp := es\<rparr>) = typed3 E n k"
  "typed3 E n (k\<lparr>console := co\<rparr>) = typed3 E n k" "typed3 E n (k\<lparr>pages := p\<rparr>) = typed3 E n k"
  "typed3 E n (k\<lparr>fsys3 := fs\<rparr>) = typed3 E n k" "typed3 E n (k\<lparr>powered := b\<rparr>) = typed3 E n k"
  "typed3 E n (push3 f k) = typed3 E n k" "typed3 E n (return3 rv k) = typed3 E n k" "typed3 E n (set_eax ev k) = typed3 E n k"
  "typed3 E n (semaphore_init3 sm sv k) = typed3 E n k" "length xs = length (exit_c k) \<Longrightarrow> typed3 E n (k\<lparr>exit_c := xs\<rparr>) = typed3 E n k"
  by (rule typed3_cong; simp add: return3_def set_eax_def semaphore_init3_def)+

lemma typed3_upd3 [typed_intros]:
  "typed3 E n k \<Longrightarrow> (\<And>th. thread_typed E th \<Longrightarrow> thread_typed E (f th)) \<Longrightarrow> typed3 E n (upd3 t f k)"
  by (auto simp: typed3_def threads_upd3)

lemma thread_typed_fields [simp]:
  "thread_typed E (th\<lparr>status3 := s\<rparr>) = thread_typed E th" "thread_typed E (th\<lparr>tid3 := i\<rparr>) = thread_typed E th"
  "thread_typed E (th\<lparr>stack3 := p\<rparr>) = thread_typed E th" "thread_typed E (th\<lparr>child := c\<rparr>) = thread_typed E th"
  "thread_typed E (th\<lparr>parent := c\<rparr>) = thread_typed E th" "thread_typed E (th\<lparr>children_list := l\<rparr>) = thread_typed E th"
  "thread_typed E (th\<lparr>child_link := c\<rparr>) = thread_typed E th" "thread_typed E (th\<lparr>is_waiting := b\<rparr>) = thread_typed E th"
  "thread_typed E (th\<lparr>exit_stat := i\<rparr>) = thread_typed E th" "thread_typed E (th\<lparr>pagedir := pd\<rparr>) = thread_typed E th"
  "thread_typed E (th\<lparr>current_esp := w\<rparr>) = thread_typed E th"
  "thread_typed E (th\<lparr>files := (files th)[j := f]\<rparr>) = thread_typed E th"
  by (simp_all add: thread_typed_def)

lemma typed3_free [typed_intros]: "typed3 E n k \<Longrightarrow> typed3 E n (free_thread3 t k)"
  by (auto simp: typed3_def free_thread3_def)

subsection \<open>The scheduler\<close>

lemma activate_typed [typed_ops]: "process_activate k = Inr k' \<Longrightarrow> typed3 E n k \<Longrightarrow> typed3 E n k'"
  by (auto simp: process_activate_def res_simps)

lemma schedule_tail_typed [typed_ops]:
  assumes "thread_schedule_tail3 p k = Inr k'" and "typed3 E n k"
  shows "typed3 E n k'"
proof -
  have "typed3 E n (upd3 (cur3 k) (\<lambda>th. th\<lparr>status3 := THREAD_RUNNING\<rparr>) k\<lparr>thread_ticks3 := 0\<rparr>)"
    using assms(2) by (simp add: typed3_upd3)
  then show ?thesis
    using assms(1) unfolding thread_schedule_tail3_def Let_def
    by (auto simp: res_simps split: option.splits if_splits dest!: activate_typed[of _ _ E n] intro!: typed3_free)
qed

lemma schedule_typed [typed_ops]: "schedule3 k = Inr k' \<Longrightarrow> typed3 E n k \<Longrightarrow> typed3 E n k'"
  by (auto simp: schedule3_def next_thread_to_run3_def res_simps elim!: schedule_tail_typed split: list.splits option.splits if_splits)

lemma block_typed [typed_ops]: "thread_block3 k = Inr k' \<Longrightarrow> typed3 E n k \<Longrightarrow> typed3 E n k'"
  by (auto simp: thread_block3_def res_simps elim!: schedule_typed intro!: typed3_upd3)

lemma unblock_typed [typed_ops]: "thread_unblock3 t k = Inr k' \<Longrightarrow> typed3 E n k \<Longrightarrow> typed3 E n k'"
  by (auto simp: thread_unblock3_def res_simps intro!: typed3_upd3)

lemma yield_typed [typed_ops]: "thread_yield3 k = Inr k' \<Longrightarrow> typed3 E n k \<Longrightarrow> typed3 E n k'"
  by (auto simp: thread_yield3_def res_simps Let_def elim!: schedule_typed intro!: typed3_upd3 split: if_splits)

lemma down_typed [typed_ops]: "semaphore_down3 E s k = Inr k' \<Longrightarrow> typed3 E n k \<Longrightarrow> typed3 E n k'"
  by (auto simp: semaphore_down3_def Let_def elim!: block_typed split: option.splits prod.splits if_splits)

lemma up_typed [typed_ops]: "semaphore_up3 E s k = Inr k' \<Longrightarrow> typed3 E n k \<Longrightarrow> typed3 E n k'"
  by (auto simp: semaphore_up3_def Let_def elim!: unblock_typed split: option.splits prod.splits)

lemma tick_typed [typed_ops]: "thread_tick3 k = Inr k' \<Longrightarrow> typed3 E n k \<Longrightarrow> typed3 E n k'"
  by (auto simp: thread_tick3_def res_simps Let_def)

lemma init_thread_typed [typed_ops]: "init_thread3 E t nm p k = Inr k' \<Longrightarrow> typed3 E n k \<Longrightarrow> typed3 E n k'"
  by (auto simp: init_thread3_def res_simps semaphore_init3_def typed3_def thread_typed_def split: option.splits if_splits)

lemma alloc_frame_typed [typed_ops]: "alloc_frame3 t sz k = Inr k' \<Longrightarrow> typed3 E n k \<Longrightarrow> typed3 E n k'"
  by (auto simp: alloc_frame3_def res_simps intro!: typed3_upd3)

lemma create_typed [typed_ops]:
  assumes "thread_create3 E nm p f k = Inr (i, k')" and "typed3 E n k"
  shows "typed3 E n k'"
  using assms
  by (auto simp: thread_create3_def res_simps Let_def allocate_tid3_def split: option.splits
      elim!: unblock_typed init_thread_typed alloc_frame_typed intro!: typed3_upd3)

lemma idle_typed [typed_ops]: "idle3 E p k = Inr k' \<Longrightarrow> typed3 E n k \<Longrightarrow> typed3 E n k'"
  by (cases p) (auto simp: res_simps elim!: up_typed block_typed)

subsection \<open>Processes\<close>

lemma execute_typed [typed_ops]: "process_execute E p k = Inr k' \<Longrightarrow> typed3 E n k \<Longrightarrow> typed3 E n k'"
  by (cases p) (auto simp: res_simps Let_def elim!: typed_ops split: if_split_asm)

lemma start_process_typed [typed_ops]:
  assumes r: "start_process E s cmd k = Inr k'" and k: "typed3 E n k"
  shows "typed3 E n k'"
proof (rule ensuresD[OF _ r])
  have "typed3 E n (link_child p c k)" for p c
    using k by (auto simp: link_child_def intro!: typed_intros)
  then show "ensures (typed3 E n) (start_process E s cmd k)"
    unfolding start_process_def Let_def
    by (auto intro!: ensures_intros typed_intros elim!: up_typed split: option.split)
qed

lemma wait_typed [typed_ops]: "process_wait E p i k = Inr k' \<Longrightarrow> typed3 E n k \<Longrightarrow> typed3 E n k'"
  by (cases p) (auto simp: res_simps Let_def intro!: typed_intros split: if_split_asm option.split_asm)

lemma orphan_typed: "orphan t k = Inr k' \<Longrightarrow> typed3 E n k \<Longrightarrow> typed3 E n k'"
  by (auto simp: orphan_def res_simps intro!: typed_intros)

lemma orphans_typed: "fold_res orphan ts k = Inr k' \<Longrightarrow> typed3 E n k \<Longrightarrow> typed3 E n k'"
  by (rule fold_res_invariant[of orphan ts k k' "typed3 E n"]) (auto elim: orphan_typed)

lemma process_exit_typed [typed_ops]:
  assumes r: "process_exit E k = Inr k'" and k: "typed3 E n k"
  shows "typed3 E n k'"
proof (rule ensuresD[OF _ r])
  show "ensures (typed3 E n) (process_exit E k)"
    using k unfolding process_exit_def Let_def
    by (auto intro!: ensures_intros ensuresI[of "semaphore_up3 E s k" for s k] typed_intros elim!: up_typed orphans_typed
        split: option.split)
qed

lemma exit_typed [typed_ops]: "thread_exit3 E k = Inr k' \<Longrightarrow> typed3 E n k \<Longrightarrow> typed3 E n k'"
  by (auto simp: thread_exit3_def res_simps Let_def elim!: schedule_typed dest!: process_exit_typed intro!: typed_intros)

subsection \<open>System calls\<close>

lemma sys_exit_typed [typed_ops]: "sys_exit E i k = Inr k' \<Longrightarrow> typed3 E n k \<Longrightarrow> typed3 E n k'"
  by (auto simp: sys_exit_def res_simps Let_def elim!: exit_typed intro!: typed_intros)

lemma with_arg_typed:
  "with_arg E a k f = Inr k' \<Longrightarrow> typed3 E n k \<Longrightarrow> (\<And>w. f w = Inr k' \<Longrightarrow> typed3 E n k') \<Longrightarrow> typed3 E n k'"
  by (auto simp: with_arg_def elim!: sys_exit_typed split: option.split_asm)

lemma set_file_typed [typed_intros]: "typed3 E n k \<Longrightarrow> typed3 E n (set_file i f k)"
  by (auto simp: set_file_def intro!: typed_intros)

definition typed_result :: "'fs env3 \<Rightarrow> nat \<Rightarrow> 'a \<times> 'fs kernel3 \<Rightarrow> bool" where
  "typed_result E n r \<longleftrightarrow> typed3 E n (snd r)"

lemma calls_typed:
  assumes "typed3 E n k"
  shows "ensures (typed_result E n) (sys_write E fd b sz k)" "ensures (typed_result E n) (sys_create E a i k)"
    "ensures (typed_result E n) (sys_open E a w k)" "ensures (typed_result E n) (sys_read E fd b sz k)"
  using assms unfolding sys_write_def sys_create_def sys_open_def sys_read_def Let_def no_return_def
  by (auto simp: typed_result_def res_simps elim!: sys_exit_typed intro!: ensures_intros typed_intros split: option.splits prod.split if_splits)

lemma finish_typed:
  "finish m = Inr k' \<Longrightarrow> ensures (typed_result E n) m \<Longrightarrow> typed3 E n k'"
  by (auto simp: finish_def res_simps typed_result_def split: option.splits dest!: ensuresD)

lemma handlers_typed [typed_ops]:
  "exit_handler E a k = Inr k' \<Longrightarrow> typed3 E n k \<Longrightarrow> typed3 E n k'"
  "write_handler E a k = Inr k' \<Longrightarrow> typed3 E n k \<Longrightarrow> typed3 E n k'"
  "create_handler E a k = Inr k' \<Longrightarrow> typed3 E n k \<Longrightarrow> typed3 E n k'"
  "open_handler E a k = Inr k' \<Longrightarrow> typed3 E n k \<Longrightarrow> typed3 E n k'"
  "read_handler E a k = Inr k' \<Longrightarrow> typed3 E n k \<Longrightarrow> typed3 E n k'"
  "filesize_handler E a k = Inr k' \<Longrightarrow> typed3 E n k \<Longrightarrow> typed3 E n k'"
  "close_handler E a k = Inr k' \<Longrightarrow> typed3 E n k \<Longrightarrow> typed3 E n k'"
  "exec_handler E a k = Inr k' \<Longrightarrow> typed3 E n k \<Longrightarrow> typed3 E n k'"
  "wait_handler E a k = Inr k' \<Longrightarrow> typed3 E n k \<Longrightarrow> typed3 E n k'"
  unfolding exit_handler_def write_handler_def create_handler_def open_handler_def read_handler_def
    filesize_handler_def close_handler_def exec_handler_def wait_handler_def sys_exec_def
  by (auto simp: res_simps elim!: with_arg_typed finish_typed sys_exit_typed intro!: calls_typed typed_intros split: if_split_asm option.split_asm)

lemma syscall_typed [typed_ops]: "syscall_handler E esp k = Inr k' \<Longrightarrow> typed3 E n k \<Longrightarrow> typed3 E n k'"
  unfolding syscall_handler_def Let_def
  by (erule with_arg_typed) (auto simp: res_simps elim!: typed_ops intro!: typed_intros split: option.split_asm syscall.split_asm)

lemma exec_open_typed [typed_ops]: "sys_exec_open E f k = Inr k' \<Longrightarrow> typed3 E n k \<Longrightarrow> typed3 E n k'"
  by (erule ensuresD[rotated])
    (auto simp: sys_exec_open_def Let_def intro!: ensures_intros split: prod.split)

lemma exec_frame_typed: "exec_frame3 E f k = Inr k' \<Longrightarrow> typed3 E n k \<Longrightarrow> typed3 E n k'"
  by (cases f) (auto simp: kernel_thread3_def start_return3_def elim: typed_ops simp del: idle3.simps)

lemma run_typed [typed_ops]: "run3 E k = Inr k' \<Longrightarrow> typed3 E n k \<Longrightarrow> typed3 E n k'"
  unfolding run3_def
  by (auto split: list.split_asm elim!: exec_frame_typed)

lemma step_typed: "step3 E k k' \<Longrightarrow> typed3 E n k \<Longrightarrow> typed3 E n k'"
  by (induction rule: step3.induct) (auto elim: typed_ops)

lemma steps_typed: "(step3 E)\<^sup>*\<^sup>* k k' \<Longrightarrow> typed3 E n k \<Longrightarrow> typed3 E n k'"
  by (induction rule: rtranclp_induct) (auto intro: step_typed)

text \<open>A kernel that has been booted by \<open>thread_init\<close> and \<open>thread_start\<close> and has run for a while.\<close>

definition ran3 :: "'fs env3 \<Rightarrow> 'fs kernel3 \<Rightarrow> bool" where
  "ran3 E k \<longleftrightarrow> (\<exists>k0 k1 k2 main idle_name. (\<forall>t. threads3 k0 t = None) \<and> exit_c k0 = replicate 30 0 \<and>
     thread_init3 E main k0 = Inr k1 \<and> thread_start3 E idle_name k1 = Inr k2 \<and> (step3 E)\<^sup>*\<^sup>* k2 k)"

lemma init_typed: "thread_init3 E main k = Inr k' \<Longrightarrow> typed3 E n k \<Longrightarrow> typed3 E n k'"
  by (auto simp: thread_init3_def allocate_tid3_def res_simps Let_def dest!: init_thread_typed[of _ _ _ _ _ _ n] intro!: typed_intros)

lemma start_typed: "thread_start3 E nm k = Inr k' \<Longrightarrow> typed3 E n k \<Longrightarrow> typed3 E n k'"
  by (auto simp: thread_start3_def res_simps dest!: create_typed[of _ _ _ _ _ _ _ n])

lemma ran_typed: "ran3 E k \<Longrightarrow> typed3 E 30 k"
  unfolding ran3_def
  by (metis init_typed start_typed steps_typed typed3_def length_replicate option.distinct(1))


text \<open>A boot of the demonstration environment: the main thread is on page 1, the idle thread on page 4.\<close>

definition cold_kernel3 :: "unit kernel3" where
  "cold_kernel3 = demo_kernel3\<lparr>threads3 := (\<lambda>_. None), ready3 := [], all3 := [], next_tid3 := 1, intr_on3 := False,
     frames3 := (\<lambda>_. [Kernel_Body])\<rparr>"

lemma boot_succeeds:
  "\<exists>k1 k2. thread_init3 demo_env3 [0x6d] cold_kernel3 = Inr k1 \<and> thread_start3 demo_env3 [0x69] k1 = Inr k2 \<and>
     cur3 k2 = 1 \<and> threads3 k2 4 \<noteq> None \<and>
     (\<exists>c. thread_current3 k2 = Inr c \<and> is_alive c)"
proof -
  obtain k1 c where k1: "thread_init3 demo_env3 [0x6d] cold_kernel3 = Inr k1" "cur3 k1 = 1" "next_tid3 k1 = 2"
    "threads3 k1 = [1 \<mapsto> c]" "status3 c = THREAD_RUNNING" "magic3 c = THREAD_MAGIC" "is_alive c"
    by (simp add: thread_init3_def init_thread3_def allocate_tid3_def semaphore_init3_def cold_kernel3_def demo_kernel3_def
        threads_upd3 PRI_MIN_def PRI_DEFAULT_def PRI_MAX_def add_int32_def Let_def)
  define k where "k = semaphore_init3 Idle_Started3 0 k1"
  have f: "cur3 k = 1" "threads3 k = [1 \<mapsto> c]" "next_tid3 k = 2" by (simp_all add: k_def semaphore_init3_def k1)
  have c: "thread_current3 k = Inr c" by (rule current3I) (simp_all add: f k1)
  obtain k2 th where k2: "thread_create3 demo_env3 (Some [0x69]) PRI_MIN (Idle3 Idle_Started3) k = Inr (2, k2)"
    "cur3 k2 = 1" "threads3 k2 4 = Some th" "threads3 k2 1 = Some (c\<lparr>child := Some 4\<rparr>)"
    using thread_create3_ok[OF _ _ _ _ _ _ _ _ c, of demo_env3 4 PRI_MIN "[0x69]" "Idle3 Idle_Started3"] f
    by (auto simp: demo_env3_def PRI_MIN_def PRI_MAX_def)
  define k3 where "k3 = push3 [Down3 Idle_Started3, Start_Return] (k2\<lparr>intr_on3 := True\<rparr>)"
  have "thread_start3 demo_env3 [0x69] k1 = Inr k3"
    using k2(1) by (simp add: thread_start3_def k_def k3_def)
  moreover have "thread_current3 k3 = Inr (c\<lparr>child := Some 4\<rparr>)"
    by (rule current3I) (use k2(4) in \<open>simp_all add: k3_def k2(2) k1\<close>)
  moreover have "cur3 k3 = 1" "threads3 k3 4 = Some th" by (simp_all add: k3_def k2)
  ultimately show ?thesis using k1(1,7) by auto
qed




section \<open>Descriptors\<close>

lemma open_scan_finds:
  "j < length fls \<Longrightarrow> fls ! j = None \<Longrightarrow> i \<le> j \<Longrightarrow> (\<And>l. i \<le> l \<Longrightarrow> l < j \<Longrightarrow> fls ! l \<noteq> None) \<Longrightarrow>
     open_scan fls i = Inr (Some j)"
proof (induction fls i rule: open_scan.induct)
  case (1 fls i)
  then show ?case
    by (subst open_scan.simps) (cases "i = j"; simp)
qed

lemma open_scan_full:
  "i \<le> length fls \<Longrightarrow> fls \<noteq> [] \<Longrightarrow> (\<And>l. i \<le> l \<Longrightarrow> l < length fls \<Longrightarrow> fls ! l \<noteq> None) \<Longrightarrow> open_scan fls i = Inl Bad_Pointer"
proof (induction fls i rule: open_scan.induct)
  case (1 fls i)
  then show ?case
    by (subst open_scan.simps) (cases "i = length fls"; simp add: le_neq_implies_less)
qed

text \<open>C33: Opening a file that exists gives the lowest free descriptor from 3 on and changes no other
  entry; when the table is full the search runs past its end, because its bound counts bytes.\<close>

theorem open_lowest:
  assumes c: "thread_current3 k = Inr c" "3 < length (files c)"
    and nm: "\<not> bad_user_pointer E a k" "cstring (user_mem k (cur3 k)) a = Inr fname" "fname \<noteq> []"
    and found: "filesys_open E fname (fsys3 k) = (Some f, fs)"
  shows "(\<forall>i. 3 \<le> i \<and> i < length (files c) \<and> files c ! i = None \<and> (\<forall>j. 3 \<le> j \<and> j < i \<longrightarrow> files c ! j \<noteq> None) \<longrightarrow>
       (\<exists>k'. sys_open E a fd k = Inr (Some (of_nat i), k') \<and>
          threads3 k' = (threads3 k)(cur3 k \<mapsto> c\<lparr>files := (files c)[i := Some f]\<rparr>))) \<and>
     ((\<forall>j. 3 \<le> j \<and> j < length (files c) \<longrightarrow> files c ! j \<noteq> None) \<longrightarrow> sys_open E a fd k = Inl Bad_Pointer)"
proof -
  have cur: "threads3 k (cur3 k) = Some c" using current3D[OF c(1)] by simp
  have t: "thread_current3 (k\<lparr>fsys3 := fs\<rparr>) = Inr c" using c(1) current3_cong[of "k\<lparr>fsys3 := fs\<rparr>" k] by simp
  have o: "sys_open E a fd k = bind_res (open_scan (files c) 3) (\<lambda>i. case i of None \<Rightarrow> Inr (Some fd, k\<lparr>fsys3 := fs\<rparr>)
      | Some i \<Rightarrow> Inr (Some (of_nat i), set_file i (Some f) (k\<lparr>fsys3 := fs\<rparr>)))"
    using nm found t by (simp add: sys_open_def Let_def)
  have "\<exists>k'. sys_open E a fd k = Inr (Some (of_nat i), k') \<and> threads3 k' = (threads3 k)(cur3 k \<mapsto> c\<lparr>files := (files c)[i := Some f]\<rparr>)"
    if i: "3 \<le> i" "i < length (files c)" "files c ! i = None" "\<forall>j. 3 \<le> j \<and> j < i \<longrightarrow> files c ! j \<noteq> None" for i
  proof -
    have "open_scan (files c) 3 = Inr (Some i)" using i by (intro open_scan_finds) auto
    then show ?thesis using cur by (simp add: o set_file_def threads_upd3)
  qed
  moreover have "sys_open E a fd k = Inl Bad_Pointer" if "\<forall>j. 3 \<le> j \<and> j < length (files c) \<longrightarrow> files c ! j \<noteq> None"
  proof -
    have "open_scan (files c) 3 = Inl Bad_Pointer" using that c(2) by (intro open_scan_full) auto
    then show ?thesis by (simp add: o)
  qed
  ultimately show ?thesis by blast
qed

theorem open_lowest_witness:
  "\<exists>k k'. sys_open demo_env3 100 0 k = Inr (Some 4, k') \<and> map_option files (threads3 k' 1) =
     Some [None, None, None, Some 7, Some 9, None, None, None]"
proof -
  define c where "c = (demo_thread3 THREAD_RUNNING 1)\<lparr>files := [None, None, None, Some 7, None, None, None, None]\<rparr>"
  define k where "k = demo_kernel3\<lparr>threads3 := [1 \<mapsto> c], user_mem := (\<lambda>_. [100 \<mapsto> 0x78, 101 \<mapsto> 0])\<rparr>"
  have f: "files c = [None, None, None, Some 7, None, None, None, None]" "cur3 k = 1"
    by (simp_all add: c_def k_def demo_kernel3_def)
  have c: "thread_current3 k = Inr c" by (rule current3I) (simp_all add: k_def c_def demo3_defs)
  have str: "cstring (user_mem k (cur3 k)) 100 = Inr [0x78]" by (simp add: k_def) code_simp
  have ok: "\<not> bad_user_pointer demo_env3 100 k" by (simp add: bad_user_pointer_def k_def demo_env3_def)
  have fs: "filesys_open demo_env3 [0x78] (fsys3 k) = (Some 9, ())" by (simp add: demo_env3_def)
  have "\<exists>k'. sys_open demo_env3 100 0 k = Inr (Some (of_nat 4), k') \<and>
      threads3 k' = (threads3 k)(cur3 k \<mapsto> c\<lparr>files := (files c)[4 := Some 9]\<rparr>)"
  proof (rule conjunct1[OF open_lowest[OF c _ ok str _ fs], rule_format])
    show "3 \<le> (4 :: nat) \<and> 4 < length (files c) \<and> files c ! 4 = None \<and> (\<forall>j. 3 \<le> j \<and> j < 4 \<longrightarrow> files c ! j \<noteq> None)"
      using f(1) by (auto simp: le_less_Suc_eq numeral_eq_Suc)
  qed (simp_all add: f)
  then obtain k' where "sys_open demo_env3 100 0 k = Inr (Some 4, k')"
    "threads3 k' 1 = Some (c\<lparr>files := (files c)[4 := Some 9]\<rparr>)"
    by (auto simp: f)
  then show ?thesis by (intro exI[of _ k] exI[of _ k']) (simp add: f)
qed

section \<open>Buffers\<close>

lemma load_bytes_ok:
  "(\<And>i. i < n \<Longrightarrow> m (a + of_nat i) \<noteq> None) \<Longrightarrow> load_bytes m a n = Inr (map (\<lambda>i. the (m (a + of_nat i))) [0..<n])"
proof (induction n arbitrary: a)
  case (Suc n)
  have "m ((a + 1) + of_nat i) \<noteq> None" if "i < n" for i
    using Suc.prems[of "Suc i"] that by (simp add: add.assoc)
  then have "load_bytes m (a + 1) n = Inr (map (\<lambda>i. the (m (a + 1 + of_nat i))) [0..<n])" by (rule Suc.IH)
  moreover obtain b where "m a = Some b" using Suc.prems[of 0] by auto
  ultimately show ?case by (simp add: load8_def map_upt_Suc add.assoc del: upt_Suc)
qed simp

lemma load_bytes_fault:
  "i < n \<Longrightarrow> m (a + of_nat i) = None \<Longrightarrow> load_bytes m a n = Inl Bad_Pointer"
proof (induction n arbitrary: a i)
  case (Suc n)
  show ?case
  proof (cases "m a")
    case None
    then show ?thesis by (simp add: load8_def)
  next
    case (Some b)
    then obtain j where j: "i = Suc j" using Suc.prems(2) by (cases i) auto
    have "load_bytes m (a + 1) n = Inl Bad_Pointer"
      using Suc.prems j by (intro Suc.IH[of j]) (auto simp: add.assoc)
    then show ?thesis using Some by (simp add: load8_def)
  qed
qed simp

text \<open>C34: A write to the console checks only the first byte of the buffer: with the first byte
  mapped it prints the buffer and reports its size if every byte is mapped, and follows a bad pointer
  inside the kernel if any other is not; a bad first byte ends the process instead.\<close>

theorem console_write:
  assumes mem: "umem_ok E" and sz: "0 < sint sz" and a: "a \<noteq> 0"
  shows "((\<forall>i < unat sz. user_mem k (cur3 k) (a + of_nat i) \<noteq> None) \<longrightarrow>
       sys_write E 1 a sz k = Inr (Some sz, k\<lparr>console := console k @
         [Put_Buf (map (\<lambda>i. the (user_mem k (cur3 k) (a + of_nat i))) [0..<unat sz])]\<rparr>)) \<and>
     (user_mem k (cur3 k) a \<noteq> None \<and> (\<exists>i < unat sz. user_mem k (cur3 k) (a + of_nat i) = None) \<longrightarrow>
       sys_write E 1 a sz k = Inl Bad_Pointer) \<and>
     (user_mem k (cur3 k) a = None \<longrightarrow> sys_write E 1 a sz k = no_return (sys_exit E (- 1) k))"
proof -
  have g: "umem_get E m a = (case m a of None \<Rightarrow> - 1 | Some b \<Rightarrow> uint b)" for m
    using mem by (simp add: umem_ok_def)
  have bad: "bad_user_pointer E a k \<longleftrightarrow> user_mem k (cur3 k) a = None"
  proof -
    have "uint (b :: 8 word) \<noteq> - 1" for b by (metis uint_ge_0 neg_0_le_iff_le not_one_le_zero)
    then show ?thesis using a by (auto simp: bad_user_pointer_def g split: option.splits)
  qed
  have z: "sz \<noteq> 0" "\<not> 1 > sint sz" using sz by auto
  have n: "0 < unat sz" using z(1) by (simp add: unat_gt_0)
  show ?thesis
    using z n bad by (auto simp: sys_write_def load_bytes_ok load_bytes_fault)
qed

theorem console_write_witness:
  "\<exists>k. user_mem k (cur3 k) 100 = Some 0x78 \<and> sys_write demo_env3 1 100 2 k = Inl Bad_Pointer"
proof -
  define k where "k = demo_kernel3\<lparr>user_mem := (\<lambda>_. [100 \<mapsto> 0x78])\<rparr>"
  have m: "user_mem k (cur3 k) = [100 \<mapsto> 0x78]" by (simp add: k_def)
  have "umem_ok demo_env3" by (simp add: umem_ok_def demo_env3_def)
  from console_write[OF this, of 2 100 k] have
    "(\<exists>i < unat (2 :: 32 word). user_mem k (cur3 k) (100 + of_nat i) = None) \<longrightarrow> sys_write demo_env3 1 100 2 k = Inl Bad_Pointer"
    using m by (simp del: ex_simps)
  moreover have "\<exists>i < unat (2 :: 32 word). user_mem k (cur3 k) (100 + of_nat i) = None"
    by (rule exI[of _ 1]) (simp add: m)
  ultimately have "sys_write demo_env3 1 100 2 k = Inl Bad_Pointer" by blast
  then show ?thesis using m by (intro exI[of _ k]) simp
qed

end
