(* ===== verification/Lab1_Alarm.thy ===== *)
theory Lab1_Alarm
  imports Kernel_State Alarm_Spec
begin

text \<open>
  The alarm clocks of Lab 1. \<open>Lab1/timer.c\<close> keeps no list: at every tick it asks every thread whether this
  is its tick. \<open>Lab1/timer_list.c\<close> keeps a list of sleepers and wakes those whose time has come, and
  \<open>Lab1/timer_sorted_list.c\<close> inserts them in order. The \<open>thread.c\<close> they call is not in the repository of this lab: its operations are fields of
  \<open>env1\<close>, with what the alarm relies on in \<open>threads_ok1\<close>. Names end in \<open>_all\<close> for the first clock, in
  \<open>_list\<close> for the second and in \<open>1\<close> for what they share.
\<close>

section \<open>State\<close>

text \<open>The list elements of the structure are membership in the lists of the kernel.\<close>

record thread1 =
  tid1 :: int
  status1 :: thread_status
  name1 :: string
  stack1 :: nat
  priority1 :: int
  waiting_time1 :: int
  magic1 :: "32 word"

text \<open>Where a thread is inside \<open>timer_sleep\<close>: it has been called, has read the clock, has set its
  wake-up time, or has blocked and still has to restore the interrupt level.\<close>

datatype sleep1_point = S1_Enter int | S1_Mark int int | S1_Block | S1_Restore bool

text \<open>\<open>rest1\<close> is the state of \<open>thread.c\<close> the alarm does not see, such as the ready list.\<close>

record 'r kernel1 =
  threads1 :: "tptr \<Rightarrow> thread1 option"
  cur1 :: tptr
  all1 :: "tptr list"
  idle1 :: "tptr option"
  ticks1 :: int
  thread_list1 :: "tptr list"
  intr_on1 :: bool
  in_sleep :: "tptr \<Rightarrow> sleep1_point option"
  rest1 :: 'r

record 'r env1 =
  thread_current1 :: "'r kernel1 \<Rightarrow> tptr res"
  thread_block1 :: "'r kernel1 \<Rightarrow> 'r kernel1 res"
  thread_unblock1 :: "tptr \<Rightarrow> 'r kernel1 \<Rightarrow> 'r kernel1 res"
  thread_tick1 :: "'r kernel1 \<Rightarrow> 'r kernel1 res"
  thread_foreach1 :: "(tptr \<Rightarrow> 'r kernel1 \<Rightarrow> 'r kernel1 res) \<Rightarrow> 'r kernel1 \<Rightarrow> 'r kernel1 res"
  lib1 :: listlib
  misread1 :: "tptr \<Rightarrow> int"

definition get1 :: "tptr \<Rightarrow> 'r kernel1 \<Rightarrow> thread1 res" where
  "get1 t k = (case threads1 k t of None \<Rightarrow> Inl Bad_Pointer | Some th \<Rightarrow> Inr th)"

definition upd1 :: "tptr \<Rightarrow> (thread1 \<Rightarrow> thread1) \<Rightarrow> 'r kernel1 \<Rightarrow> 'r kernel1" where
  "upd1 t f k = k\<lparr>threads1 := (threads1 k)(t := map_option f (threads1 k t))\<rparr>"

definition set_status1 :: "tptr \<Rightarrow> thread_status \<Rightarrow> 'r kernel1 \<Rightarrow> 'r kernel1" where
  "set_status1 t s = upd1 t (\<lambda>th. th\<lparr>status1 := s\<rparr>)"

definition status_of1 :: "'r kernel1 \<Rightarrow> tptr \<Rightarrow> thread_status option" where
  "status_of1 k t = map_option status1 (threads1 k t)"

definition goto1 :: "sleep1_point option \<Rightarrow> 'r kernel1 \<Rightarrow> 'r kernel1" where
  "goto1 p k = k\<lparr>in_sleep := (in_sleep k)(cur1 k := p)\<rparr>"

section \<open>Time\<close>

definition timer_ticks1 :: "'r kernel1 \<Rightarrow> int" where
  "timer_ticks1 k = ticks1 k"

definition timer_elapsed1 :: "int \<Rightarrow> 'r kernel1 \<Rightarrow> int" where
  "timer_elapsed1 before k = timer_ticks1 k - before"

section \<open>The clock that asks every thread\<close>

fun timer_sleep_all :: "'r env1 \<Rightarrow> sleep1_point \<Rightarrow> 'r kernel1 \<Rightarrow> 'r kernel1 res" where
  "timer_sleep_all E (S1_Enter n) k = Inr (goto1 (Some (S1_Mark (timer_ticks1 k) n)) k)"
| "timer_sleep_all E (S1_Mark start n) k =
     assert_res (intr_on1 k) ''intr_get_level () == INTR_ON''
       (if n > 0 then
          bind_res (thread_current1 E k) (\<lambda>t.
          bind_res (add_int64 start n) (\<lambda>w.
            Inr (goto1 (Some S1_Block) (upd1 t (\<lambda>th. th\<lparr>waiting_time1 := w\<rparr>) k))))
        else Inr (goto1 None k))"
| "timer_sleep_all E S1_Block k =
     (let prev_interrupt = intr_on1 k; k = k\<lparr>intr_on1 := False\<rparr>
      in thread_block1 E (goto1 (Some (S1_Restore prev_interrupt)) k))"
| "timer_sleep_all E (S1_Restore prev_interrupt) k = Inr (goto1 None (k\<lparr>intr_on1 := prev_interrupt\<rparr>))"

definition timer_wake_all :: "'r env1 \<Rightarrow> tptr \<Rightarrow> 'r kernel1 \<Rightarrow> 'r kernel1 res" where
  "timer_wake_all E t k =
     bind_res (get1 t k) (\<lambda>th. if waiting_time1 th = timer_ticks1 k then thread_unblock1 E t k else Inr k)"

definition timer_interrupt_all :: "'r env1 \<Rightarrow> 'r kernel1 \<Rightarrow> 'r kernel1 res" where
  "timer_interrupt_all E k =
     bind_res (add_int64 (ticks1 k) 1) (\<lambda>n.
     bind_res (thread_tick1 E (k\<lparr>ticks1 := n\<rparr>)) (\<lambda>k.
       let prev_interrupt = intr_on1 k; k = k\<lparr>intr_on1 := False\<rparr>
       in bind_res (thread_foreach1 E (timer_wake_all E) k) (\<lambda>k. Inr (k\<lparr>intr_on1 := prev_interrupt\<rparr>))))"

section \<open>The clock with a list of sleepers\<close>

definition timer_init_list :: "'r kernel1 \<Rightarrow> 'r kernel1" where
  "timer_init_list k = k\<lparr>thread_list1 := []\<rparr>"

fun timer_sleep_list :: "'r env1 \<Rightarrow> sleep1_point \<Rightarrow> 'r kernel1 \<Rightarrow> 'r kernel1 res" where
  "timer_sleep_list E (S1_Enter n) k = Inr (goto1 (Some (S1_Mark (timer_ticks1 k) n)) k)"
| "timer_sleep_list E (S1_Mark start n) k =
     assert_res (intr_on1 k) ''intr_get_level () == INTR_ON''
       (if n > 0 then
          bind_res (thread_current1 E k) (\<lambda>t.
          bind_res (add_int64 start n) (\<lambda>w.
            Inr (goto1 (Some S1_Block) (upd1 t (\<lambda>th. th\<lparr>waiting_time1 := w\<rparr>) k))))
        else Inr (goto1 None k))"
| "timer_sleep_list E S1_Block k =
     (let prev_interrupt = intr_on1 k; k = k\<lparr>intr_on1 := False\<rparr>
      in bind_res (thread_current1 E k) (\<lambda>t.
           thread_block1 E (goto1 (Some (S1_Restore prev_interrupt))
             (k\<lparr>thread_list1 := thread_list1 k @ [t]\<rparr>))))"
| "timer_sleep_list E (S1_Restore prev_interrupt) k = Inr (goto1 None (k\<lparr>intr_on1 := prev_interrupt\<rparr>))"

definition timer_wake_list :: "'r env1 \<Rightarrow> tptr \<Rightarrow> 'r kernel1 \<Rightarrow> 'r kernel1 res" where
  "timer_wake_list E t k =
     bind_res (get1 t k) (\<lambda>th.
       if waiting_time1 th \<le> timer_ticks1 k
       then thread_unblock1 E t (k\<lparr>thread_list1 := remove1 t (thread_list1 k)\<rparr>)
       else Inr k)"

text \<open>A removed element keeps its link to the next one, so the loop visits every sleeper.\<close>

definition timer_interrupt_list :: "'r env1 \<Rightarrow> 'r kernel1 \<Rightarrow> 'r kernel1 res" where
  "timer_interrupt_list E k =
     bind_res (add_int64 (ticks1 k) 1) (\<lambda>n.
     bind_res (thread_tick1 E (k\<lparr>ticks1 := n\<rparr>)) (\<lambda>k.
       let prev_interrupt = intr_on1 k; k = k\<lparr>intr_on1 := False\<rparr>
       in bind_res (fold_res (timer_wake_list E) (thread_list1 k) k) (\<lambda>k.
            Inr (k\<lparr>intr_on1 := prev_interrupt\<rparr>))))"

section \<open>The clock with an ordered list of sleepers\<close>

definition timer_init_sorted :: "'r kernel1 \<Rightarrow> 'r kernel1" where
  "timer_init_sorted k = k\<lparr>thread_list1 := []\<rparr>"

text \<open>
  The comparator takes the \<open>sleep\<close> elements for \<open>allelem\<close> elements, so it reads the time at a wrong
  offset: \<open>misread1\<close> is what it finds there.
\<close>

definition list_wake_sort1 :: "'r env1 \<Rightarrow> less_fn" where
  "list_wake_sort1 E a b = (if misread1 E a > misread1 E b then True else False)"

interpretation sleep_order1: less_func "list_wake_sort1 E" for E
  by unfold_locales (auto simp: list_wake_sort1_def split: if_splits)

fun timer_sleep_sorted :: "'r env1 \<Rightarrow> sleep1_point \<Rightarrow> 'r kernel1 \<Rightarrow> 'r kernel1 res" where
  "timer_sleep_sorted E (S1_Enter n) k = Inr (goto1 (Some (S1_Mark (timer_ticks1 k) n)) k)"
| "timer_sleep_sorted E (S1_Mark start n) k =
     assert_res (intr_on1 k) ''intr_get_level () == INTR_ON''
       (if n > 0 then
          bind_res (thread_current1 E k) (\<lambda>t.
          bind_res (add_int64 start n) (\<lambda>w.
            Inr (goto1 (Some S1_Block) (upd1 t (\<lambda>th. th\<lparr>waiting_time1 := w\<rparr>) k))))
        else Inr (goto1 None k))"
| "timer_sleep_sorted E S1_Block k =
     (let prev_interrupt = intr_on1 k; k = k\<lparr>intr_on1 := False\<rparr>
      in bind_res (thread_current1 E k) (\<lambda>t.
           thread_block1 E (goto1 (Some (S1_Restore prev_interrupt))
             (k\<lparr>thread_list1 := list_insert_ordered (lib1 E) (list_wake_sort1 E) t (thread_list1 k)\<rparr>))))"
| "timer_sleep_sorted E (S1_Restore prev_interrupt) k = Inr (goto1 None (k\<lparr>intr_on1 := prev_interrupt\<rparr>))"

definition timer_wake_sorted :: "'r env1 \<Rightarrow> tptr \<Rightarrow> 'r kernel1 \<Rightarrow> 'r kernel1 res" where
  "timer_wake_sorted E t k =
     bind_res (get1 t k) (\<lambda>th.
       if waiting_time1 th \<le> timer_ticks1 k
       then thread_unblock1 E t (k\<lparr>thread_list1 := remove1 t (thread_list1 k)\<rparr>)
       else Inr k)"

definition timer_interrupt_sorted :: "'r env1 \<Rightarrow> 'r kernel1 \<Rightarrow> 'r kernel1 res" where
  "timer_interrupt_sorted E k =
     bind_res (add_int64 (ticks1 k) 1) (\<lambda>n.
     bind_res (thread_tick1 E (k\<lparr>ticks1 := n\<rparr>)) (\<lambda>k.
       let prev_interrupt = intr_on1 k; k = k\<lparr>intr_on1 := False\<rparr>
       in bind_res (fold_res (timer_wake_sorted E) (thread_list1 k) k) (\<lambda>k.
            Inr (k\<lparr>intr_on1 := prev_interrupt\<rparr>))))"

section \<open>What the clocks rely on\<close>

definition running1 :: "'r kernel1 \<Rightarrow> bool" where
  "running1 k \<longleftrightarrow> status_of1 k (cur1 k) = Some THREAD_RUNNING"

text \<open>
  \<open>thread_current\<close> gives the running thread. \<open>thread_unblock\<close> makes a blocked thread ready and fails its
  assertion on any other. \<open>thread_foreach\<close> applies the function to every thread. \<open>thread_tick\<close> counts.
  \<open>thread_block\<close> blocks the running thread and lets a ready thread or the idle thread run.
\<close>

definition threads_ok1 :: "'r env1 \<Rightarrow> bool" where
  "threads_ok1 E \<longleftrightarrow>
     (\<forall>k. running1 k \<longrightarrow> thread_current1 E k = Inr (cur1 k)) \<and>
     (\<forall>k t. status_of1 k t = Some THREAD_BLOCKED \<longrightarrow>
        (\<exists>r. thread_unblock1 E t k = Inr (set_status1 t THREAD_READY (k\<lparr>rest1 := r\<rparr>)))) \<and>
     (\<forall>k t. threads1 k t \<noteq> None \<and> status_of1 k t \<noteq> Some THREAD_BLOCKED \<longrightarrow>
        thread_unblock1 E t k = Inl (Assert_Failed ''t->status == THREAD_BLOCKED'')) \<and>
     (\<forall>f k. \<not> intr_on1 k \<longrightarrow> thread_foreach1 E f k = fold_res f (all1 k) k) \<and>
     (\<forall>k. running1 k \<longrightarrow> (\<exists>r. thread_tick1 E k = Inr (k\<lparr>rest1 := r\<rparr>))) \<and>
     (\<forall>k i. running1 k \<and> \<not> intr_on1 k \<and> idle1 k = Some i \<and> threads1 k i \<noteq> None \<and> i \<noteq> cur1 k \<longrightarrow>
        (\<exists>n r. n \<noteq> cur1 k \<and> (n = i \<or> status_of1 k n = Some THREAD_READY) \<and> threads1 k n \<noteq> None \<and>
           thread_block1 E k = Inr (set_status1 n THREAD_RUNNING (set_status1 (cur1 k) THREAD_BLOCKED
             (k\<lparr>cur1 := n, rest1 := r\<rparr>)))))"

section \<open>Steps\<close>

text \<open>The wake-up time of a thread that sleeps.\<close>

definition asleep1 :: "'r kernel1 \<Rightarrow> tptr \<Rightarrow> int option" where
  "asleep1 k t =
     (case (in_sleep k t, threads1 k t) of
        (Some (S1_Restore _), Some th) \<Rightarrow> if status1 th = THREAD_BLOCKED then Some (waiting_time1 th) else None
      | _ \<Rightarrow> None)"

text \<open>
  What the rest of the kernel may do: run, create, end, block and unblock threads and change the
  interrupt level, but not touch the clock, nor the status and the wake-up time of a thread that is inside
  \<open>timer_sleep\<close> beyond preempting it. A new structure is cleared.
\<close>

definition rest_step1 :: "'r kernel1 \<Rightarrow> 'r kernel1 \<Rightarrow> bool" where
  "rest_step1 k k' \<longleftrightarrow>
     ticks1 k' = ticks1 k \<and> thread_list1 k' = thread_list1 k \<and> in_sleep k' = in_sleep k \<and> idle1 k' = idle1 k \<and>
     running1 k' \<and> distinct (all1 k') \<and> set (all1 k') = dom (threads1 k') \<and>
     (\<forall>i. idle1 k = Some i \<longrightarrow> threads1 k' i \<noteq> None) \<and>
     (\<forall>t. in_sleep k t \<noteq> None \<longrightarrow> (\<exists>th th'. threads1 k t = Some th \<and> threads1 k' t = Some th' \<and>
        waiting_time1 th' = waiting_time1 th \<and> (status1 th' = THREAD_BLOCKED \<longleftrightarrow> status1 th = THREAD_BLOCKED))) \<and>
     (\<forall>t th'. in_sleep k t = None \<and> threads1 k' t = Some th' \<longrightarrow>
        waiting_time1 th' = 0 \<or> (\<exists>th. threads1 k t = Some th \<and> waiting_time1 th' = waiting_time1 th))"

text \<open>A call of \<open>timer_sleep\<close> begins, and goes on.\<close>

definition may_sleep1 :: "'r kernel1 \<Rightarrow> bool" where
  "may_sleep1 k \<longleftrightarrow> in_sleep k (cur1 k) = None \<and> Some (cur1 k) \<noteq> idle1 k"

inductive alarm_step1 :: "(sleep1_point \<Rightarrow> 'r kernel1 \<Rightarrow> 'r kernel1 res) \<Rightarrow> 'r kernel1 \<Rightarrow> 'r kernel1 \<Rightarrow> bool"
  for sleep where
  rest: "rest_step1 k k' \<Longrightarrow> alarm_step1 sleep k k'"
| call: "may_sleep1 k \<Longrightarrow> alarm_step1 sleep k (goto1 (Some (S1_Enter n)) k)"
| advance: "in_sleep k (cur1 k) = Some p \<Longrightarrow> sleep p k = Inr k' \<Longrightarrow> alarm_step1 sleep k k'"

text \<open>A call in one go, with no interrupt inside it until the thread has blocked.\<close>

definition advance1 :: "(sleep1_point \<Rightarrow> 'r kernel1 \<Rightarrow> 'r kernel1 res) \<Rightarrow> 'r kernel1 \<Rightarrow> 'r kernel1 res" where
  "advance1 sleep k = (case in_sleep k (cur1 k) of None \<Rightarrow> Inr k | Some p \<Rightarrow> sleep p k)"

definition sleep_at_once ::
  "(sleep1_point \<Rightarrow> 'r kernel1 \<Rightarrow> 'r kernel1 res) \<Rightarrow> int \<Rightarrow> 'r kernel1 \<Rightarrow> 'r kernel1 res" where
  "sleep_at_once sleep n k =
     bind_res (advance1 sleep (goto1 (Some (S1_Enter n)) k)) (\<lambda>k.
     bind_res (advance1 sleep k) (advance1 sleep))"

inductive calm_step1 :: "(sleep1_point \<Rightarrow> 'r kernel1 \<Rightarrow> 'r kernel1 res) \<Rightarrow> 'r kernel1 \<Rightarrow> 'r kernel1 \<Rightarrow> bool"
  for sleep where
  rest: "rest_step1 k k' \<Longrightarrow> calm_step1 sleep k k'"
| at_once: "may_sleep1 k \<Longrightarrow> sleep_at_once sleep n k = Inr k' \<Longrightarrow> calm_step1 sleep k k'"
| restore: "in_sleep k (cur1 k) = Some (S1_Restore b) \<Longrightarrow> sleep (S1_Restore b) k = Inr k' \<Longrightarrow> calm_step1 sleep k k'"

text \<open>The interrupt is taken when interrupts are on, and they are off while its handler runs.\<close>

definition interrupt1 :: "('r kernel1 \<Rightarrow> 'r kernel1 res) \<Rightarrow> 'r kernel1 \<Rightarrow> 'r kernel1 res" where
  "interrupt1 handler k =
     bind_res (handler (k\<lparr>intr_on1 := False\<rparr>)) (\<lambda>k. Inr (k\<lparr>intr_on1 := True\<rparr>))"

end
