(* ===== verification/Lab1_Alarm_Props.thy ===== *)
theory Lab1_Alarm_Props
  imports Lab1_Alarm
begin

text \<open>
  Both clocks of Lab 1 meet the contract of an alarm clock, the second in every run, the first only
  when no interrupt comes inside \<open>timer_sleep\<close>; where it does, a thread sleeps for ever or the kernel stops.
\<close>

section \<open>One tick\<close>

lemma upd1_fields [simp]:
  "cur1 (upd1 t f k) = cur1 k" "all1 (upd1 t f k) = all1 k" "idle1 (upd1 t f k) = idle1 k"
  "ticks1 (upd1 t f k) = ticks1 k" "thread_list1 (upd1 t f k) = thread_list1 k"
  "intr_on1 (upd1 t f k) = intr_on1 k" "in_sleep (upd1 t f k) = in_sleep k"
  by (simp_all add: upd1_def)

lemma set_status1_fields [simp]:
  "cur1 (set_status1 t s k) = cur1 k" "all1 (set_status1 t s k) = all1 k" "idle1 (set_status1 t s k) = idle1 k"
  "ticks1 (set_status1 t s k) = ticks1 k" "thread_list1 (set_status1 t s k) = thread_list1 k"
  "intr_on1 (set_status1 t s k) = intr_on1 k" "in_sleep (set_status1 t s k) = in_sleep k"
  "threads1 (set_status1 t s k) = (threads1 k)(t := map_option (\<lambda>th. th\<lparr>status1 := s\<rparr>) (threads1 k t))"
  by (simp_all add: set_status1_def) (simp add: upd1_def)

text \<open>The laws of \<open>threads_ok1\<close> one by one.\<close>

lemma threads_ok1D:
  assumes "threads_ok1 E"
  shows "running1 k \<Longrightarrow> thread_current1 E k = Inr (cur1 k)"
    and "status_of1 k t = Some THREAD_BLOCKED \<Longrightarrow>
      \<exists>r. thread_unblock1 E t k = Inr (set_status1 t THREAD_READY (k\<lparr>rest1 := r\<rparr>))"
    and "threads1 k t \<noteq> None \<Longrightarrow> status_of1 k t \<noteq> Some THREAD_BLOCKED \<Longrightarrow>
      thread_unblock1 E t k = Inl (Assert_Failed ''t->status == THREAD_BLOCKED'')"
    and "\<not> intr_on1 k \<Longrightarrow> thread_foreach1 E f k = fold_res f (all1 k) k"
    and "running1 k \<Longrightarrow> \<exists>r. thread_tick1 E k = Inr (k\<lparr>rest1 := r\<rparr>)"
    and "running1 k \<Longrightarrow> \<not> intr_on1 k \<Longrightarrow> idle1 k = Some i \<Longrightarrow> threads1 k i \<noteq> None \<Longrightarrow> i \<noteq> cur1 k \<Longrightarrow>
      \<exists>n r. n \<noteq> cur1 k \<and> (n = i \<or> status_of1 k n = Some THREAD_READY) \<and> threads1 k n \<noteq> None \<and>
        thread_block1 E k = Inr (set_status1 n THREAD_RUNNING (set_status1 (cur1 k) THREAD_BLOCKED
          (k\<lparr>cur1 := n, rest1 := r\<rparr>)))"
  using assms unfolding threads_ok1_def by blast+

text \<open>Both ways to wake: \<open>c\<close> compares the wake-up time with the clock, \<open>f\<close> takes the thread off the list.\<close>

definition wake_if ::
  "'r env1 \<Rightarrow> (int \<Rightarrow> int \<Rightarrow> bool) \<Rightarrow> (tptr \<Rightarrow> tptr list \<Rightarrow> tptr list) \<Rightarrow> tptr \<Rightarrow> 'r kernel1 \<Rightarrow> 'r kernel1 res" where
  "wake_if E c f t k = bind_res (get1 t k) (\<lambda>th.
     if c (waiting_time1 th) (ticks1 k) then thread_unblock1 E t (k\<lparr>thread_list1 := f t (thread_list1 k)\<rparr>) else Inr k)"

lemma wake_ifs:
  "timer_wake_all E = wake_if E (=) (\<lambda>_ l. l)" "timer_wake_list E = wake_if E (\<le>) remove1"
  by (simp_all add: fun_eq_iff timer_wake_all_def timer_wake_list_def wake_if_def timer_ticks1_def cong: if_cong)

definition due1 :: "(int \<Rightarrow> int \<Rightarrow> bool) \<Rightarrow> 'r kernel1 \<Rightarrow> tptr \<Rightarrow> bool" where
  "due1 c k t \<longleftrightarrow> (case threads1 k t of None \<Rightarrow> False | Some th \<Rightarrow> c (waiting_time1 th) (ticks1 k))"

definition woken1 :: "tptr set \<Rightarrow> tptr list \<Rightarrow> 'r \<Rightarrow> 'r kernel1 \<Rightarrow> 'r kernel1" where
  "woken1 S l r k = k\<lparr>threads1 := (\<lambda>t. if t \<in> S then map_option (\<lambda>th. th\<lparr>status1 := THREAD_READY\<rparr>) (threads1 k t)
     else threads1 k t), thread_list1 := l, rest1 := r\<rparr>"

lemma woken1_fields [simp]:
  "cur1 (woken1 S l r k) = cur1 k" "all1 (woken1 S l r k) = all1 k" "idle1 (woken1 S l r k) = idle1 k"
  "ticks1 (woken1 S l r k) = ticks1 k" "thread_list1 (woken1 S l r k) = l"
  "intr_on1 (woken1 S l r k) = intr_on1 k" "in_sleep (woken1 S l r k) = in_sleep k"
  "threads1 (woken1 S l r k) t = (if t \<in> S then map_option (\<lambda>th. th\<lparr>status1 := THREAD_READY\<rparr>) (threads1 k t) else threads1 k t)"
  by (simp_all add: woken1_def)

text \<open>A pass over the threads \<open>xs\<close> wakes those that are due; they have to be blocked.\<close>

lemma wake_pass:
  assumes E: "threads_ok1 E" and "distinct xs" and "set xs \<subseteq> dom (threads1 k)"
    and "\<forall>t \<in> set xs. due1 c k t \<longrightarrow> status_of1 k t = Some THREAD_BLOCKED"
  shows "\<exists>r. fold_res (wake_if E c f) xs k =
    Inr (woken1 {t \<in> set xs. due1 c k t} (fold (\<lambda>t l. if due1 c k t then f t l else l) xs (thread_list1 k)) r k)"
  using assms(2-)
proof (induction xs arbitrary: k)
  case Nil
  then show ?case by (intro exI[of _ "rest1 k"]) (simp add: woken1_def)
next
  case (Cons x xs)
  obtain th where th: "threads1 k x = Some th" using Cons.prems(2) by auto
  show ?case
  proof (cases "due1 c k x")
    case False
    then have "wake_if E c f x k = Inr k" using th by (simp add: wake_if_def get1_def due1_def)
    moreover have "{t \<in> set (x # xs). due1 c k t} = {t \<in> set xs. due1 c k t}" using False by auto
    ultimately show ?thesis using Cons.IH[of k] Cons.prems False by simp
  next
    case True
    let ?l = "f x (thread_list1 k)"
    have "status_of1 (k\<lparr>thread_list1 := ?l\<rparr>) x = Some THREAD_BLOCKED"
      using Cons.prems(3) True by (simp add: status_of1_def)
    from threads_ok1D(2)[OF E this] obtain r where
      u: "thread_unblock1 E x (k\<lparr>thread_list1 := ?l\<rparr>) = Inr (set_status1 x THREAD_READY (k\<lparr>thread_list1 := ?l, rest1 := r\<rparr>))"
      by auto
    define k1 where "k1 = set_status1 x THREAD_READY (k\<lparr>thread_list1 := ?l, rest1 := r\<rparr>)"
    have w: "wake_if E c f x k = Inr k1"
      using True th u by (simp add: wake_if_def get1_def due1_def k1_def)
    have due: "due1 c k1 t = due1 c k t" for t
      using th by (auto simp: due1_def k1_def split: option.splits)
    have "set xs \<subseteq> dom (threads1 k1)" "\<forall>t \<in> set xs. due1 c k1 t \<longrightarrow> status_of1 k1 t = Some THREAD_BLOCKED"
      using Cons.prems due by (auto simp: k1_def status_of1_def)
    then obtain r' where r': "fold_res (wake_if E c f) xs k1 = Inr (woken1 {t \<in> set xs. due1 c k t}
        (fold (\<lambda>t l. if due1 c k t then f t l else l) xs ?l) r' k1)"
      using Cons.IH[of k1] Cons.prems(1) unfolding due by (auto simp: k1_def[symmetric]) (auto simp: k1_def)
    have "woken1 {t \<in> set xs. due1 c k t} l r' k1 = woken1 {t \<in> set (x # xs). due1 c k t} l r' k" for l
      using True by (auto simp: woken1_def k1_def fun_eq_iff set_status1_def upd1_def option.map_comp comp_def)
    then show ?thesis using w r' True by auto
  qed
qed

lemma fold_remove: "distinct l \<Longrightarrow> fold (\<lambda>t l. if P t then remove1 t l else l) xs l = filter (\<lambda>t. t \<notin> set xs \<or> \<not> P t) l"
proof (induction xs arbitrary: l)
  case (Cons x xs)
  have "filter (\<lambda>t. t \<notin> set xs \<or> \<not> P t) (remove1 x l) = filter (\<lambda>t. t \<notin> set (x # xs) \<or> \<not> P t) l" if "P x"
    using Cons.prems that by (auto simp: distinct_remove1_removeAll removeAll_filter_not_eq intro: filter_cong)
  moreover have "filter (\<lambda>t. t \<notin> set xs \<or> \<not> P t) l = filter (\<lambda>t. t \<notin> set (x # xs) \<or> \<not> P t) l" if "\<not> P x"
    using that by (auto intro: filter_cong)
  ultimately show ?case using Cons.IH Cons.prems by (simp add: distinct_remove1)
qed simp

section \<open>The structure of the kernel\<close>

text \<open>A running thread, an idle thread that does not sleep, and a list of all threads.\<close>

definition sane1 :: "'r kernel1 \<Rightarrow> bool" where
  "sane1 k \<longleftrightarrow> running1 k \<and> 0 \<le> ticks1 k \<and> distinct (all1 k) \<and> set (all1 k) = dom (threads1 k) \<and>
     (\<exists>i. idle1 k = Some i \<and> threads1 k i \<noteq> None \<and> in_sleep k i = None) \<and>
     (\<forall>t. in_sleep k t \<noteq> None \<longrightarrow> threads1 k t \<noteq> None)"

text \<open>The list of the second clock holds exactly the sleepers.\<close>

definition sane_list :: "'r kernel1 \<Rightarrow> bool" where
  "sane_list k \<longleftrightarrow> sane1 k \<and> distinct (thread_list1 k) \<and> (\<forall>t. t \<in> set (thread_list1 k) \<longleftrightarrow> asleep1 k t \<noteq> None)"

text \<open>With the first clock every sleeper still has its tick before it, and no other thread does; nobody is
  between setting the time and blocking.\<close>

definition sane_all :: "'r kernel1 \<Rightarrow> bool" where
  "sane_all k \<longleftrightarrow> sane1 k \<and> (\<forall>t. in_sleep k t \<noteq> Some S1_Block) \<and>
     (\<forall>t th. threads1 k t = Some th \<longrightarrow> (ticks1 k < waiting_time1 th \<longleftrightarrow> asleep1 k t \<noteq> None))"

lemma asleep1_iff:
  "asleep1 k t = Some w \<longleftrightarrow> (\<exists>l th. in_sleep k t = Some (S1_Restore l) \<and> threads1 k t = Some th \<and>
     status1 th = THREAD_BLOCKED \<and> w = waiting_time1 th)"
  by (auto simp: asleep1_def split: option.splits sleep1_point.splits if_splits)

lemma asleep1_cong:
  "in_sleep k' t = in_sleep k t \<Longrightarrow> threads1 k' t = threads1 k t \<Longrightarrow> asleep1 k' t = asleep1 k t"
  by (simp add: asleep1_def)

lemma asleep1_woken:
  "asleep1 (woken1 S l r k) t = (if t \<in> S then None else asleep1 k t)"
  by (auto simp: asleep1_def split: option.splits sleep1_point.splits)

lemma asleep1_blocked: "asleep1 k t \<noteq> None \<Longrightarrow> status_of1 k t = Some THREAD_BLOCKED"
  by (auto simp: asleep1_iff status_of1_def)

lemma asleep1_not_running: "running1 k \<Longrightarrow> asleep1 k (cur1 k) = None"
  by (auto simp: asleep1_def running1_def status_of1_def split: option.splits sleep1_point.splits)

lemma sane1_woken:
  assumes "sane1 k" and "cur1 k \<notin> S"
  shows "sane1 (woken1 S l r k)"
proof -
  have "dom (threads1 (woken1 S l r k)) = dom (threads1 k)" by (auto simp: dom_def)
  moreover have "running1 (woken1 S l r k)" using assms by (simp add: sane1_def running1_def status_of1_def)
  ultimately show ?thesis using assms(1) unfolding sane1_def by auto
qed

text \<open>The handler up to the pass over the threads: the clock goes on by one.\<close>

definition ticked1 :: "'r \<Rightarrow> 'r kernel1 \<Rightarrow> 'r kernel1" where
  "ticked1 r k = k\<lparr>intr_on1 := False, ticks1 := ticks1 k + 1, rest1 := r\<rparr>"

lemma ticked1_fields [simp]:
  "threads1 (ticked1 r k) = threads1 k" "thread_list1 (ticked1 r k) = thread_list1 k"
  "in_sleep (ticked1 r k) = in_sleep k" "cur1 (ticked1 r k) = cur1 k" "all1 (ticked1 r k) = all1 k"
  "ticks1 (ticked1 r k) = ticks1 k + 1" "idle1 (ticked1 r k) = idle1 k" "intr_on1 (ticked1 r k) = False"
  "ticked1 r k\<lparr>intr_on1 := False\<rparr> = ticked1 r k"
  by (simp_all add: ticked1_def)

lemma handler_passes:
  assumes E: "threads_ok1 E" and "sane1 k" and "ticks1 k < 2 ^ 63 - 1"
  shows "\<exists>r. interrupt1 (timer_interrupt_list E) k =
      bind_res (fold_res (timer_wake_list E) (thread_list1 k) (ticked1 r k)) (\<lambda>k. Inr (k\<lparr>intr_on1 := True\<rparr>)) \<and>
    interrupt1 (timer_interrupt_all E) k =
      bind_res (fold_res (timer_wake_all E) (all1 k) (ticked1 r k)) (\<lambda>k. Inr (k\<lparr>intr_on1 := True\<rparr>))"
proof -
  have "running1 (k\<lparr>intr_on1 := False, ticks1 := ticks1 k + 1\<rparr>)" and pos: "0 \<le> ticks1 k"
    using assms(2) by (simp_all add: sane1_def running1_def status_of1_def)
  then obtain r where r: "thread_tick1 E (k\<lparr>intr_on1 := False, ticks1 := ticks1 k + 1\<rparr>) = Inr (ticked1 r k)"
    using threads_ok1D(5)[OF E] unfolding ticked1_def by blast
  have a: "add_int64 (ticks1 k) 1 = Inr (ticks1 k + 1)" using assms(3) pos by (simp add: add_int64_def in_int64_def)
  have f: "thread_foreach1 E f (ticked1 r k) = fold_res f (all1 k) (ticked1 r k)" for f
    using threads_ok1D(4)[OF E, of "ticked1 r k"] by simp
  have b: "bind_res (bind_res m (\<lambda>k. Inr (k\<lparr>intr_on1 := False\<rparr>))) (\<lambda>k. Inr (k\<lparr>intr_on1 := True\<rparr>)) =
      bind_res m (\<lambda>k. Inr (k\<lparr>intr_on1 := True\<rparr>))" for m :: "'a kernel1 res"
    by (cases m) simp_all
  show ?thesis using r a
    by (auto simp: interrupt1_def timer_interrupt_list_def timer_interrupt_all_def f b Let_def)
qed

lemma sane1_ticked: "sane1 k \<Longrightarrow> sane1 (ticked1 r k)"
  by (simp add: sane1_def running1_def status_of1_def)

lemma sane1_intr: "sane1 (k\<lparr>intr_on1 := b\<rparr>) = sane1 k"
  by (simp add: sane1_def running1_def status_of1_def)

lemma asleep1_ticked [simp]: "asleep1 (ticked1 r k) t = asleep1 k t"
  by (rule asleep1_cong) simp_all

lemma asleep1_intr [simp]: "asleep1 (k\<lparr>intr_on1 := b\<rparr>) t = asleep1 k t"
  by (rule asleep1_cong) simp_all

lemma tick_list:
  assumes E: "threads_ok1 E" and k: "sane_list k" and "ticks1 k < 2 ^ 63 - 1"
  shows "\<exists>k'. interrupt1 (timer_interrupt_list E) k = Inr k' \<and> sane_list k' \<and> ticks1 k' = ticks1 k + 1 \<and>
    (\<forall>t. asleep1 k' t = (case asleep1 k t of None \<Rightarrow> None | Some w \<Rightarrow> if w \<le> ticks1 k + 1 then None else Some w))"
proof -
  have s: "sane1 k" "distinct (thread_list1 k)" "\<forall>t. t \<in> set (thread_list1 k) \<longleftrightarrow> asleep1 k t \<noteq> None"
    using k by (auto simp: sane_list_def)
  obtain r where h: "interrupt1 (timer_interrupt_list E) k =
      bind_res (fold_res (timer_wake_list E) (thread_list1 k) (ticked1 r k)) (\<lambda>k. Inr (k\<lparr>intr_on1 := True\<rparr>))"
    using handler_passes[OF E s(1) assms(3)] by blast
  define S where "S = {t \<in> set (thread_list1 k). due1 (\<le>) (ticked1 r k) t}"
  have blocked: "t \<in> set (thread_list1 k) \<Longrightarrow> status_of1 (ticked1 r k) t = Some THREAD_BLOCKED" for t
    using asleep1_blocked[of "ticked1 r k" t] s(3) by auto
  have "\<exists>r'. fold_res (timer_wake_list E) (thread_list1 k) (ticked1 r k) = Inr (woken1 S
    (fold (\<lambda>t l. if due1 (\<le>) (ticked1 r k) t then remove1 t l else l) (thread_list1 k) (thread_list1 (ticked1 r k))) r' (ticked1 r k))"
    unfolding wake_ifs S_def
  proof (rule wake_pass[OF E s(2)])
    show "set (thread_list1 k) \<subseteq> dom (threads1 (ticked1 r k))" using blocked by (auto simp: status_of1_def)
  qed (use blocked in blast)
  then obtain r' where r': "fold_res (timer_wake_list E) (thread_list1 k) (ticked1 r k) =
      Inr (woken1 S (filter (\<lambda>t. t \<notin> S) (thread_list1 k)) r' (ticked1 r k))"
    using s(2) by (auto simp: fold_remove S_def cong: filter_cong)
  define k' where "k' = woken1 S (filter (\<lambda>t. t \<notin> S) (thread_list1 k)) r' (ticked1 r k)"
  have i: "interrupt1 (timer_interrupt_list E) k = Inr (k'\<lparr>intr_on1 := True\<rparr>)" using h r' by (simp add: k'_def)
  have aw: "asleep1 k' t = (if t \<in> S then None else asleep1 k t)" for t by (simp add: k'_def asleep1_woken)
  have S: "t \<in> S \<longleftrightarrow> (\<exists>w. asleep1 k t = Some w \<and> w \<le> ticks1 k + 1)" for t
    using s(3) by (auto simp: S_def due1_def asleep1_iff split: option.splits)
  have "cur1 k \<notin> S" using asleep1_not_running[of k] s(1) S by (auto simp: sane1_def)
  then have "sane1 k'" unfolding k'_def by (intro sane1_woken sane1_ticked s(1)) simp
  moreover have "distinct (thread_list1 k')" "\<forall>t. t \<in> set (thread_list1 k') \<longleftrightarrow> asleep1 k' t \<noteq> None"
    using s by (simp_all add: aw) (simp_all add: k'_def)
  moreover have "asleep1 k' t = (case asleep1 k t of None \<Rightarrow> None | Some w \<Rightarrow> if w \<le> ticks1 k + 1 then None else Some w)" for t
    using S[of t] by (auto simp: aw split: option.split)
  ultimately show ?thesis using i by (auto simp: sane_list_def sane1_intr) (simp_all add: k'_def)
qed

lemma tick_all:
  assumes E: "threads_ok1 E" and k: "sane_all k" and "ticks1 k < 2 ^ 63 - 1"
  shows "\<exists>k'. interrupt1 (timer_interrupt_all E) k = Inr k' \<and> sane_all k' \<and> ticks1 k' = ticks1 k + 1 \<and>
    cur1 k' = cur1 k \<and> in_sleep k' = in_sleep k \<and> idle1 k' = idle1 k \<and> intr_on1 k' \<and>
    (\<forall>t. asleep1 k' t = (case asleep1 k t of None \<Rightarrow> None | Some w \<Rightarrow> if w \<le> ticks1 k + 1 then None else Some w))"
proof -
  have s: "sane1 k" and open_window: "\<forall>t. in_sleep k t \<noteq> Some S1_Block"
    and ahead: "\<forall>t th. threads1 k t = Some th \<longrightarrow> (ticks1 k < waiting_time1 th \<longleftrightarrow> asleep1 k t \<noteq> None)"
    using k by (auto simp: sane_all_def)
  obtain r where h: "interrupt1 (timer_interrupt_all E) k =
      bind_res (fold_res (timer_wake_all E) (all1 k) (ticked1 r k)) (\<lambda>k. Inr (k\<lparr>intr_on1 := True\<rparr>))"
    using handler_passes[OF E s assms(3)] by blast
  define S where "S = {t \<in> set (all1 k). due1 (=) (ticked1 r k) t}"
  have S: "t \<in> S \<longleftrightarrow> (\<exists>w. asleep1 k t = Some w \<and> w \<le> ticks1 k + 1)" for t
  proof
    assume "t \<in> S"
    then obtain th where th: "threads1 k t = Some th" "waiting_time1 th = ticks1 k + 1"
      by (auto simp: S_def due1_def split: option.splits)
    then have "asleep1 k t \<noteq> None" using ahead by force
    then show "\<exists>w. asleep1 k t = Some w \<and> w \<le> ticks1 k + 1" using th by (auto simp: asleep1_iff)
  next
    assume "\<exists>w. asleep1 k t = Some w \<and> w \<le> ticks1 k + 1"
    then obtain th where th: "threads1 k t = Some th" "waiting_time1 th \<le> ticks1 k + 1" "asleep1 k t \<noteq> None"
      by (auto simp: asleep1_iff)
    then have "waiting_time1 th = ticks1 k + 1" using ahead by force
    then show "t \<in> S" using th(1) s by (auto simp: S_def due1_def sane1_def)
  qed
  have "\<exists>r'. fold_res (timer_wake_all E) (all1 k) (ticked1 r k) = Inr (woken1 S
    (fold (\<lambda>t l. if due1 (=) (ticked1 r k) t then l else l) (all1 k) (thread_list1 (ticked1 r k))) r' (ticked1 r k))"
    unfolding wake_ifs S_def
  proof (rule wake_pass[OF E])
    show "\<forall>t \<in> set (all1 k). due1 (=) (ticked1 r k) t \<longrightarrow> status_of1 (ticked1 r k) t = Some THREAD_BLOCKED"
      using S asleep1_blocked[of "ticked1 r k"] by (auto simp: S_def)
  qed (use s in \<open>auto simp: sane1_def\<close>)
  then obtain l r' where r': "fold_res (timer_wake_all E) (all1 k) (ticked1 r k) = Inr (woken1 S l r' (ticked1 r k))"
    by blast
  define k' where "k' = woken1 S l r' (ticked1 r k)"
  have i: "interrupt1 (timer_interrupt_all E) k = Inr (k'\<lparr>intr_on1 := True\<rparr>)" using h r' by (simp add: k'_def)
  have aw: "asleep1 k' t = (if t \<in> S then None else asleep1 k t)" for t by (simp add: k'_def asleep1_woken)
  have "cur1 k \<notin> S" using asleep1_not_running[of k] s S by (auto simp: sane1_def)
  then have "sane1 k'" unfolding k'_def by (intro sane1_woken sane1_ticked s) simp
  moreover have "\<forall>t. in_sleep k' t \<noteq> Some S1_Block" using open_window by (simp add: k'_def)
  moreover have "ticks1 k' < waiting_time1 th \<longleftrightarrow> asleep1 k' t \<noteq> None" if k't: "threads1 k' t = Some th" for t th
  proof -
    obtain th0 where th0: "threads1 k t = Some th0" "waiting_time1 th = waiting_time1 th0"
      using k't by (cases "t \<in> S"; cases "threads1 k t") (auto simp: k'_def)
    then have "asleep1 k t \<noteq> None \<Longrightarrow> asleep1 k t = Some (waiting_time1 th0)" by (auto simp: asleep1_iff)
    then show ?thesis using ahead th0 S[of t] unfolding aw by (cases "asleep1 k t") (force simp: k'_def)+
  qed
  moreover have "asleep1 k' t = (case asleep1 k t of None \<Rightarrow> None | Some w \<Rightarrow> if w \<le> ticks1 k + 1 then None else Some w)" for t
    using S[of t] by (auto simp: aw split: option.split)
  moreover have "ticks1 k' = ticks1 k + 1" "cur1 k' = cur1 k" "in_sleep k' = in_sleep k" "idle1 k' = idle1 k"
    by (simp_all add: k'_def)
  ultimately show ?thesis using i by (auto simp: sane_all_def sane1_intr)
qed

section \<open>Steps between the ticks\<close>

lemma rest_step_asleep:
  assumes "rest_step1 k k'"
  shows "asleep1 k' t = asleep1 k t"
proof (cases "in_sleep k t")
  case None
  then show ?thesis using assms by (simp add: asleep1_def rest_step1_def)
next
  case (Some p)
  then obtain th th' where "threads1 k t = Some th" "threads1 k' t = Some th'" "waiting_time1 th' = waiting_time1 th"
    "status1 th' = THREAD_BLOCKED \<longleftrightarrow> status1 th = THREAD_BLOCKED" "in_sleep k' t = Some p"
    using assms unfolding rest_step1_def by (metis option.distinct(1))
  then show ?thesis using Some by (simp add: asleep1_def split: sleep1_point.split)
qed

lemma rest_step_sane:
  assumes "rest_step1 k k'" and "sane1 k"
  shows "sane1 k'"
  using assms unfolding sane1_def rest_step1_def by (metis option.distinct(1))

text \<open>A step of the running thread inside \<open>timer_sleep\<close> that does not block.\<close>

lemma goto1_fields [simp]:
  "threads1 (goto1 p k) = threads1 k" "cur1 (goto1 p k) = cur1 k" "all1 (goto1 p k) = all1 k"
  "idle1 (goto1 p k) = idle1 k" "ticks1 (goto1 p k) = ticks1 k" "thread_list1 (goto1 p k) = thread_list1 k"
  "intr_on1 (goto1 p k) = intr_on1 k" "in_sleep (goto1 p k) = (in_sleep k)(cur1 k := p)"
  by (simp_all add: goto1_def)

lemma sane1_goto:
  assumes "sane1 k" and "Some (cur1 k) \<noteq> idle1 k"
  shows "sane1 (goto1 p k)"
proof -
  have "\<exists>i. idle1 k = Some i \<and> threads1 k i \<noteq> None \<and> ((in_sleep k)(cur1 k := p)) i = None"
    using assms unfolding sane1_def by (metis fun_upd_other)
  then show ?thesis using assms by (auto simp: sane1_def running1_def status_of1_def)
qed

lemma sane1_mark:
  "sane1 (upd1 t (\<lambda>th. th\<lparr>waiting_time1 := w\<rparr>) k) = sane1 k"
proof -
  have "dom ((threads1 k)(t := map_option f (threads1 k t))) = dom (threads1 k)" for f by (auto simp: dom_def)
  then show ?thesis by (auto simp: sane1_def running1_def status_of1_def upd1_def)
qed

lemma asleep1_goto: "running1 k \<Longrightarrow> asleep1 (goto1 p k) t = asleep1 k t"
  by (auto simp: asleep1_def running1_def status_of1_def split: option.split sleep1_point.split)

lemma asleep1_mark:
  "running1 k \<Longrightarrow> asleep1 (upd1 (cur1 k) (\<lambda>th. th\<lparr>waiting_time1 := w\<rparr>) k) t = asleep1 k t"
  by (auto simp: asleep1_def running1_def status_of1_def upd1_def split: option.split sleep1_point.split)

lemma running1_simps [simp]:
  "running1 (goto1 p k) = running1 k" "running1 (k\<lparr>intr_on1 := b\<rparr>) = running1 k"
  "running1 (k\<lparr>thread_list1 := l\<rparr>) = running1 k" "sane1 (k\<lparr>thread_list1 := l\<rparr>) = sane1 k"
  "sane1 (k\<lparr>intr_on1 := b\<rparr>) = sane1 k"
  by (simp_all add: running1_def status_of1_def sane1_def)

lemma running1_mark [simp]: "running1 (upd1 t (\<lambda>th. th\<lparr>waiting_time1 := w\<rparr>) k) = running1 k"
  by (auto simp: running1_def status_of1_def upd1_def option.map_comp comp_def)

text \<open>Blocking: the running thread is asleep until its wake-up time.\<close>

lemma block1_effect:
  assumes E: "threads_ok1 E" and k: "sane1 k" "\<not> intr_on1 k" "in_sleep k (cur1 k) = Some (S1_Restore l)"
  shows "\<exists>k'. thread_block1 E k = Inr k' \<and> sane1 k' \<and> ticks1 k' = ticks1 k \<and> thread_list1 k' = thread_list1 k \<and>
    in_sleep k' = in_sleep k \<and>
    (\<forall>t. asleep1 k' t = (if t = cur1 k then map_option waiting_time1 (threads1 k t) else asleep1 k t)) \<and>
    (\<forall>t. map_option waiting_time1 (threads1 k' t) = map_option waiting_time1 (threads1 k t))"
proof -
  obtain i where i: "idle1 k = Some i" "threads1 k i \<noteq> None" "in_sleep k i = None" using k(1) by (auto simp: sane1_def)
  have "i \<noteq> cur1 k" using i(3) k(3) by auto
  moreover have r: "running1 k" using k(1) by (simp add: sane1_def)
  ultimately obtain n r where n: "n \<noteq> cur1 k" "n = i \<or> status_of1 k n = Some THREAD_READY" "threads1 k n \<noteq> None"
    and b: "thread_block1 E k = Inr (set_status1 n THREAD_RUNNING (set_status1 (cur1 k) THREAD_BLOCKED (k\<lparr>cur1 := n, rest1 := r\<rparr>)))"
    using threads_ok1D(6)[OF E _ k(2) i(1,2)] by blast
  define k' where "k' = set_status1 n THREAD_RUNNING (set_status1 (cur1 k) THREAD_BLOCKED (k\<lparr>cur1 := n, rest1 := r\<rparr>))"
  have f: "cur1 k' = n" "ticks1 k' = ticks1 k" "thread_list1 k' = thread_list1 k" "in_sleep k' = in_sleep k"
    "all1 k' = all1 k" "idle1 k' = idle1 k"
    "threads1 k' = (threads1 k)(cur1 k := map_option (\<lambda>th. th\<lparr>status1 := THREAD_BLOCKED\<rparr>) (threads1 k (cur1 k)),
       n := map_option (\<lambda>th. th\<lparr>status1 := THREAD_RUNNING\<rparr>) (threads1 k n))"
    using n(1) by (simp_all add: k'_def)
  have "dom (threads1 k') = dom (threads1 k)" by (auto simp: f dom_def)
  moreover have "running1 k'" using n(3) by (auto simp: running1_def status_of1_def f)
  ultimately have "sane1 k'" using k(1) n(1) by (auto simp: sane1_def f)
  moreover have "asleep1 k' t = (if t = cur1 k then map_option waiting_time1 (threads1 k t) else asleep1 k t)" for t
    using n i(3) k(3) by (auto simp: asleep1_def f status_of1_def split: option.split sleep1_point.split)
  moreover have "map_option waiting_time1 (threads1 k' t) = map_option waiting_time1 (threads1 k t)" for t
    by (simp add: f option.map_comp comp_def)
  ultimately show ?thesis using b f by (auto simp: k'_def[symmetric])
qed

lemma block_sleepers:
  assumes E: "threads_ok1 E" and k: "sane_list k" and p: "in_sleep k (cur1 k) = Some S1_Block"
    and xs: "mset xs = add_mset (cur1 k) (mset (thread_list1 k))"
    and b: "thread_block1 E (goto1 (Some (S1_Restore l)) (k\<lparr>intr_on1 := False, thread_list1 := xs\<rparr>)) = Inr k'"
  shows "sane_list k' \<and> ticks1 k' = ticks1 k \<and> (\<forall>t w. asleep1 k t = Some w \<longrightarrow> asleep1 k' t = Some w)"
proof -
  have s: "sane1 k" "running1 k" and d: "distinct (thread_list1 k)" "\<forall>t. t \<in> set (thread_list1 k) \<longleftrightarrow> asleep1 k t \<noteq> None"
    using k by (auto simp: sane_list_def sane1_def)
  have ni: "Some (cur1 k) \<noteq> idle1 k" using s(1) p by (auto simp: sane1_def)
  let ?k = "goto1 (Some (S1_Restore l)) (k\<lparr>intr_on1 := False, thread_list1 := xs\<rparr>)"
  have "sane1 ?k" using s(1) ni by (intro sane1_goto) simp_all
  from block1_effect[OF E this] b have k': "sane1 k'" "ticks1 k' = ticks1 k" "thread_list1 k' = xs"
    "\<forall>t. asleep1 k' t = (if t = cur1 k then map_option waiting_time1 (threads1 k t) else asleep1 ?k t)"
    by auto
  have a: "asleep1 ?k t = asleep1 k t" for t
    using s(2) by (subst asleep1_goto) (auto intro: asleep1_cong)
  have cur: "asleep1 k (cur1 k) = None" by (rule asleep1_not_running[OF s(2)])
  have m: "mset xs = mset (cur1 k # thread_list1 k)" using xs by simp
  note x = set_mset_transfer[OF m] distinct_mset_transfer[OF m]
  show ?thesis using k' d cur s(2) by (auto simp: sane_list_def a x running1_def status_of1_def)
qed

lemma step_list:
  assumes E: "threads_ok1 E" and k: "sane_list k" and step: "alarm_step1 (timer_sleep_list E) k k'"
  shows "sane_list k' \<and> ticks1 k' = ticks1 k \<and> (\<forall>t w. asleep1 k t = Some w \<longrightarrow> asleep1 k' t = Some w)"
  using step
proof cases
  case rest
  then show ?thesis using rest_step_asleep[OF rest] rest_step_sane[OF rest] k
    by (auto simp: sane_list_def) (auto simp: rest_step1_def)
next
  case (call n)
  have r: "running1 k" using k by (simp add: sane_list_def sane1_def)
  then show ?thesis using call k sane1_goto[of k] by (auto simp: sane_list_def may_sleep1_def asleep1_goto)
next
  case (advance p)
  have s: "sane1 k" "running1 k" and l: "distinct (thread_list1 k)" "\<forall>t. t \<in> set (thread_list1 k) \<longleftrightarrow> asleep1 k t \<noteq> None"
    using k by (auto simp: sane_list_def sane1_def)
  have c: "thread_current1 E k = Inr (cur1 k)" by (rule threads_ok1D(1)[OF E s(2)])
  have ni: "Some (cur1 k) \<noteq> idle1 k" using s(1) advance(1) by (auto simp: sane1_def)
  show ?thesis
  proof (cases p)
    case (S1_Enter n)
    then show ?thesis using advance s l ni by (auto simp: sane_list_def sane1_goto asleep1_goto)
  next
    case (S1_Mark start n)
    then show ?thesis using advance s l ni c
      by (auto simp: sane_list_def sane1_goto asleep1_goto asleep1_mark sane1_mark res_simps split: if_splits)
  next
    case (S1_Restore b)
    then show ?thesis using advance s l ni by (auto simp: sane_list_def sane1_goto asleep1_goto)
  next
    case S1_Block
    have "running1 (k\<lparr>intr_on1 := False\<rparr>)" using s(2) by simp
    from threads_ok1D(1)[OF E this]
    have "thread_block1 E (goto1 (Some (S1_Restore (intr_on1 k)))
        (k\<lparr>intr_on1 := False, thread_list1 := thread_list1 k @ [cur1 k]\<rparr>)) = Inr k'"
      using advance(2) S1_Block by simp
    from block_sleepers[OF E k _ _ this] show ?thesis using advance(1) S1_Block by simp
  qed
qed

text \<open>The third clock differs from the second in where it puts a sleeper on the list.\<close>

lemma step_sorted:
  assumes E: "threads_ok1 E" and k: "sane_list k" and step: "alarm_step1 (timer_sleep_sorted E) k k'"
  shows "sane_list k' \<and> ticks1 k' = ticks1 k \<and> (\<forall>t w. asleep1 k t = Some w \<longrightarrow> asleep1 k' t = Some w)"
proof (cases "in_sleep k (cur1 k) = Some S1_Block \<and> timer_sleep_sorted E S1_Block k = Inr k'")
  case True
  have "running1 (k\<lparr>intr_on1 := False\<rparr>)" using k by (simp add: sane_list_def sane1_def)
  from threads_ok1D(1)[OF E this]
  have "thread_block1 E (goto1 (Some (S1_Restore (intr_on1 k))) (k\<lparr>intr_on1 := False,
      thread_list1 := list_insert_ordered (lib1 E) (list_wake_sort1 E) (cur1 k) (thread_list1 k)\<rparr>)) = Inr k'"
    using True by simp
  from block_sleepers[OF E k _ _ this] show ?thesis using True by simp
next
  case False
  have same: "p \<noteq> S1_Block \<Longrightarrow> timer_sleep_sorted E p k = timer_sleep_list E p k" for p by (cases p) simp_all
  from step have "alarm_step1 (timer_sleep_list E) k k'"
  proof cases
    case (advance p)
    with False have "p \<noteq> S1_Block" by auto
    with advance same show ?thesis by (auto intro: alarm_step1.advance)
  qed (auto intro: alarm_step1.intros)
  from step_list[OF E k this] show ?thesis .
qed

lemma interrupt_sorted: "timer_interrupt_sorted E = timer_interrupt_list E"
proof -
  have w: "timer_wake_sorted E = timer_wake_list E" by (simp add: fun_eq_iff timer_wake_sorted_def timer_wake_list_def)
  show ?thesis by (rule ext) (simp only: timer_interrupt_sorted_def timer_interrupt_list_def w)
qed

lemmas tick_sorted = tick_list[folded interrupt_sorted]

interpretation list_clock: alarm_clock "\<lambda>k. threads_ok1 E \<and> sane_list k" ticks1 asleep1 intr_on1
    "interrupt1 (timer_interrupt_list E)" "alarm_step1 (timer_sleep_list E)" for E
  by unfold_locales (use tick_list step_list in blast)+

interpretation sorted_clock: alarm_clock "\<lambda>k. threads_ok1 E \<and> sane_list k" ticks1 asleep1 intr_on1
    "interrupt1 (timer_interrupt_sorted E)" "alarm_step1 (timer_sleep_sorted E)" for E
  by unfold_locales (use tick_sorted step_sorted in blast)+

section \<open>The first clock, undisturbed\<close>

lemma rest_step_all:
  assumes k: "sane_all k" and rest: "rest_step1 k k'"
  shows "sane_all k'"
proof -
  have f: "sane1 k'" "in_sleep k' = in_sleep k" "ticks1 k' = ticks1 k"
    using rest_step_sane[OF rest] rest k by (auto simp: sane_all_def rest_step1_def)
  have "ticks1 k < waiting_time1 th' \<longleftrightarrow> asleep1 k t \<noteq> None" if t: "threads1 k' t = Some th'" for t th'
  proof (cases "in_sleep k t")
    case None
    then have "asleep1 k t = None" by (simp add: asleep1_def)
    moreover have "waiting_time1 th' = 0 \<or> (\<exists>th. threads1 k t = Some th \<and> waiting_time1 th' = waiting_time1 th)"
      using rest None t unfolding rest_step1_def by blast
    ultimately show ?thesis using k by (auto simp: sane_all_def sane1_def)
  next
    case (Some p)
    then obtain th where "threads1 k t = Some th" "waiting_time1 th' = waiting_time1 th"
      using rest t unfolding rest_step1_def by (metis option.distinct(1) option.inject)
    then show ?thesis using k by (auto simp: sane_all_def)
  qed
  then show ?thesis using f k by (auto simp: sane_all_def rest_step_asleep[OF rest])
qed

text \<open>The thread that calls \<open>timer_sleep\<close> reads the clock at \<open>start\<close>, and blocks later.\<close>

lemma mark_then_block:
  assumes E: "threads_ok1 E" and k: "sane1 k" "intr_on1 k" "in_sleep k (cur1 k) = Some (S1_Mark start n)"
    and n: "0 < n" "in_int64 (start + n)"
  shows "\<exists>k1 k2. timer_sleep_all E (S1_Mark start n) k = Inr k1 \<and> in_sleep k1 = (in_sleep k)(cur1 k := Some S1_Block) \<and>
    sane1 k1 \<and> ticks1 k1 = ticks1 k \<and> cur1 k1 = cur1 k \<and> intr_on1 k1 \<and> (\<forall>t. asleep1 k1 t = asleep1 k t) \<and>
    threads1 k1 = (threads1 k)(cur1 k := map_option (\<lambda>th. th\<lparr>waiting_time1 := start + n\<rparr>) (threads1 k (cur1 k))) \<and>
    timer_sleep_all E S1_Block k1 = Inr k2 \<and> sane1 k2 \<and> ticks1 k2 = ticks1 k \<and>
    in_sleep k2 = (in_sleep k)(cur1 k := Some (S1_Restore True)) \<and>
    (\<forall>t. asleep1 k2 t = (if t = cur1 k then Some (start + n) else asleep1 k t)) \<and>
    (\<forall>t. map_option waiting_time1 (threads1 k2 t) = map_option waiting_time1 (threads1 k1 t))"
proof -
  have r: "running1 k" using k(1) by (simp add: sane1_def)
  have ni: "Some (cur1 k) \<noteq> idle1 k" using k(1,3) by (auto simp: sane1_def)
  define k1 where "k1 = goto1 (Some S1_Block) (upd1 (cur1 k) (\<lambda>th. th\<lparr>waiting_time1 := start + n\<rparr>) k)"
  have m: "timer_sleep_all E (S1_Mark start n) k = Inr k1"
    using threads_ok1D(1)[OF E r] k(2) n by (simp add: k1_def add_int64_def)
  have s1: "sane1 k1" unfolding k1_def using k(1) ni by (intro sane1_goto) (simp_all add: sane1_mark)
  have f1: "cur1 k1 = cur1 k" "ticks1 k1 = ticks1 k" "intr_on1 k1" "in_sleep k1 = (in_sleep k)(cur1 k := Some S1_Block)"
    "threads1 k1 = (threads1 k)(cur1 k := map_option (\<lambda>th. th\<lparr>waiting_time1 := start + n\<rparr>) (threads1 k (cur1 k)))"
    "idle1 k1 = idle1 k"
    using k(2) by (simp_all add: k1_def) (simp_all add: upd1_def)
  have a1: "asleep1 k1 t = asleep1 k t" for t using r by (simp add: k1_def asleep1_goto asleep1_mark)
  define k2 where "k2 = goto1 (Some (S1_Restore True)) (k1\<lparr>intr_on1 := False\<rparr>)"
  have s2: "sane1 k2" unfolding k2_def using s1 ni f1 by (intro sane1_goto) simp_all
  have r1: "running1 k1" using s1 by (simp add: sane1_def)
  have a2: "asleep1 k2 t = asleep1 k t" for t using r1 a1 by (simp add: k2_def asleep1_goto)
  have b: "timer_sleep_all E S1_Block k1 = thread_block1 E k2" using f1(3) by (simp add: k2_def)
  obtain th where th: "threads1 k (cur1 k) = Some th" using r by (auto simp: running1_def status_of1_def)
  have f2: "cur1 k2 = cur1 k" "threads1 k2 = threads1 k1" "ticks1 k2 = ticks1 k" "\<not> intr_on1 k2"
    "in_sleep k2 = (in_sleep k)(cur1 k := Some (S1_Restore True))"
    using f1 by (simp_all add: k2_def)
  obtain k3 where k3: "thread_block1 E k2 = Inr k3" "sane1 k3" "ticks1 k3 = ticks1 k"
    "in_sleep k3 = (in_sleep k)(cur1 k := Some (S1_Restore True))"
    "\<forall>t. asleep1 k3 t = (if t = cur1 k then map_option waiting_time1 (threads1 k1 t) else asleep1 k2 t)"
    "\<forall>t. map_option waiting_time1 (threads1 k3 t) = map_option waiting_time1 (threads1 k1 t)"
    using block1_effect[OF E s2 f2(4), of True] f2 by auto
  have "asleep1 k3 t = (if t = cur1 k then Some (start + n) else asleep1 k t)" for t
    using k3(5) a2 th by (simp add: f1(5))
  then show ?thesis using m f1 s1 a1 b k3 by auto
qed

lemma calm_step:
  assumes E: "threads_ok1 E" and k: "sane_all k" and step: "calm_step1 (timer_sleep_all E) k k'"
  shows "sane_all k' \<and> ticks1 k' = ticks1 k \<and> (\<forall>t w. asleep1 k t = Some w \<longrightarrow> asleep1 k' t = Some w)"
  using step
proof cases
  case rest
  then show ?thesis using rest_step_all[OF k rest] rest_step_asleep[OF rest] by (auto simp: rest_step1_def)
next
  case (restore b)
  have s: "sane1 k" "running1 k" using k by (auto simp: sane_all_def sane1_def)
  moreover have "Some (cur1 k) \<noteq> idle1 k" using s(1) restore(1) by (auto simp: sane1_def)
  ultimately show ?thesis using restore k by (auto simp: sane_all_def sane1_goto asleep1_goto split: if_splits)
next
  case (at_once n)
  have s: "sane1 k" "running1 k" "0 \<le> ticks1 k" using k by (auto simp: sane_all_def sane1_def)
  have ni: "Some (cur1 k) \<noteq> idle1 k" using at_once(1) by (simp add: may_sleep1_def)
  define k0 where "k0 = goto1 (Some (S1_Mark (ticks1 k) n)) (goto1 (Some (S1_Enter n)) k)"
  have k0: "sane1 k0" "cur1 k0 = cur1 k" "in_sleep k0 (cur1 k0) = Some (S1_Mark (ticks1 k) n)" "intr_on1 k0 = intr_on1 k"
    "ticks1 k0 = ticks1 k" "threads1 k0 = threads1 k" "in_sleep k0 = (in_sleep k)(cur1 k := Some (S1_Mark (ticks1 k) n))"
    unfolding k0_def using s(1) ni by (simp_all add: sane1_goto)
  have a0: "asleep1 k0 t = asleep1 k t" for t using s(2) by (simp add: k0_def asleep1_goto)
  have e: "advance1 (timer_sleep_all E) (goto1 (Some (S1_Enter n)) k) = Inr k0"
    by (simp add: advance1_def k0_def timer_ticks1_def)
  obtain k1 where k1: "timer_sleep_all E (S1_Mark (ticks1 k) n) k0 = Inr k1" "advance1 (timer_sleep_all E) k1 = Inr k'"
  proof -
    have "bind_res (advance1 (timer_sleep_all E) k0) (advance1 (timer_sleep_all E)) = Inr k'"
      using at_once(2) e by (simp add: sleep_at_once_def)
    moreover have "advance1 (timer_sleep_all E) k0 = timer_sleep_all E (S1_Mark (ticks1 k) n) k0"
      by (simp only: advance1_def k0(3) option.case)
    ultimately show thesis using that by (metis bind_res_elim)
  qed
  have on: "intr_on1 k0" using k1(1) by (auto simp: res_simps)
  show ?thesis
  proof (cases "0 < n")
    case False
    then have "k1 = goto1 None k0" using k1(1) by (auto simp: res_simps)
    then have "k' = goto1 None k0" using k1(2) by (simp add: advance1_def k0)
    moreover have "running1 k0" using k0(1) by (simp add: sane1_def)
    moreover have "sane1 (goto1 None k0)" using sane1_goto[OF k0(1)] ni by (simp add: k0_def)
    ultimately show ?thesis using k k0 a0 by (auto simp: sane_all_def asleep1_goto)
  next
    case True
    then have "in_int64 (ticks1 k + n)" using k1(1) on threads_ok1D(1)[OF E, of k0] k0(1) by (auto simp: sane1_def res_simps)
    from mark_then_block[OF E k0(1) on k0(3) True this] k1 k0(2) have
      k': "sane1 k'" "ticks1 k' = ticks1 k" "in_sleep k' = (in_sleep k)(cur1 k := Some (S1_Restore True))"
        "\<forall>t. asleep1 k' t = (if t = cur1 k then Some (ticks1 k + n) else asleep1 k t)"
        "\<forall>t. map_option waiting_time1 (threads1 k' t) = map_option waiting_time1 (((threads1 k)(cur1 k := map_option (\<lambda>th. th\<lparr>waiting_time1 := ticks1 k + n\<rparr>) (threads1 k (cur1 k)))) t)"
      by (auto simp: advance1_def k0 a0)
    have "ticks1 k < waiting_time1 th \<longleftrightarrow> asleep1 k' t \<noteq> None" if t': "threads1 k' t = Some th" for t th
    proof (cases "t = cur1 k")
      case c: True
      then have "waiting_time1 th = ticks1 k + n"
        using k'(5)[rule_format, of t] t' by (cases "threads1 k (cur1 k)") auto
      then show ?thesis using c True k'(4) by simp
    next
      case c: False
      then obtain th0 where "threads1 k t = Some th0" "waiting_time1 th = waiting_time1 th0"
        using k'(5)[rule_format, of t] t' by (cases "threads1 k t") auto
      then show ?thesis using c k k'(4) by (auto simp: sane_all_def)
    qed
    moreover have "\<forall>t w. asleep1 k t = Some w \<longrightarrow> asleep1 k' t = Some w"
      using k'(4) asleep1_not_running[OF s(2)] by auto
    ultimately show ?thesis using k k' by (auto simp: sane_all_def)
  qed
qed

interpretation all_clock: alarm_clock "\<lambda>k. threads_ok1 E \<and> sane_all k" ticks1 asleep1 intr_on1
    "interrupt1 (timer_interrupt_all E)" "calm_step1 (timer_sleep_all E)" for E
  by unfold_locales (use tick_all calm_step in blast)+

section \<open>The first clock, disturbed\<close>

text \<open>Whatever the first clock does, the running thread stays running, and a sleeper whose time has
  passed is left alone.\<close>

definition missed :: "tptr \<Rightarrow> int \<Rightarrow> 'r kernel1 \<Rightarrow> bool" where
  "missed t w k \<longleftrightarrow> sane1 k \<and> asleep1 k t = Some w \<and> w \<le> ticks1 k"

lemma wake_all_missed:
  assumes E: "threads_ok1 E" and w: "timer_wake_all E u k = Inr k'"
    and k: "sane1 k" "asleep1 k t = Some w" "w < ticks1 k"
  shows "sane1 k' \<and> asleep1 k' t = Some w \<and> ticks1 k' = ticks1 k"
proof -
  obtain th where th: "threads1 k u = Some th" using w by (auto simp: timer_wake_all_def res_simps get1_def split: option.splits)
  show ?thesis
  proof (cases "waiting_time1 th = ticks1 k")
    case False
    then show ?thesis using w th k by (simp add: timer_wake_all_def get1_def timer_ticks1_def)
  next
    case True
    then have un: "thread_unblock1 E u k = Inr k'" using w th by (simp add: timer_wake_all_def get1_def timer_ticks1_def)
    then have b: "status_of1 k u = Some THREAD_BLOCKED" using threads_ok1D(3)[OF E, of k u] th by fastforce
    from threads_ok1D(2)[OF E b] un obtain r where k': "k' = set_status1 u THREAD_READY (k\<lparr>rest1 := r\<rparr>)" by auto
    have "u \<noteq> t" using True th k(2,3) by (auto simp: asleep1_iff)
    moreover have "u \<noteq> cur1 k" using b k(1) by (auto simp: sane1_def running1_def)
    moreover have "k' = woken1 {u} (thread_list1 k) r k"
      by (simp add: k' woken1_def set_status1_def upd1_def fun_eq_iff)
    ultimately show ?thesis using k by (simp add: sane1_woken asleep1_woken)
  qed
qed

lemma missed_tick:
  assumes E: "threads_ok1 E" and k: "missed t w k" and n: "ticks1 k < 2 ^ 63 - 1"
    and t: "interrupt1 (timer_interrupt_all E) k = Inr k'"
  shows "missed t w k' \<and> ticks1 k' = ticks1 k + 1"
proof -
  obtain r where "interrupt1 (timer_interrupt_all E) k =
      bind_res (fold_res (timer_wake_all E) (all1 k) (ticked1 r k)) (\<lambda>k. Inr (k\<lparr>intr_on1 := True\<rparr>))"
    using handler_passes[OF E _ n] k by (auto simp: missed_def)
  then obtain k2 where k2: "fold_res (timer_wake_all E) (all1 k) (ticked1 r k) = Inr k2" "k' = k2\<lparr>intr_on1 := True\<rparr>"
    using t by (cases "fold_res (timer_wake_all E) (all1 k) (ticked1 r k)") simp_all
  have "sane1 k2 \<and> asleep1 k2 t = Some w \<and> ticks1 k2 = ticks1 k + 1"
    by (rule fold_res_invariant[OF k2(1), of "\<lambda>k2. sane1 k2 \<and> asleep1 k2 t = Some w \<and> ticks1 k2 = ticks1 k + 1"])
      (use k wake_all_missed[OF E] in \<open>auto simp: missed_def sane1_ticked\<close>)
  then show ?thesis using k by (auto simp: missed_def k2(2))
qed

lemma step_all_sane:
  assumes E: "threads_ok1 E" and k: "sane1 k" and step: "alarm_step1 (timer_sleep_all E) k k'"
  shows "sane1 k' \<and> ticks1 k' = ticks1 k \<and> (\<forall>t w. asleep1 k t = Some w \<longrightarrow> asleep1 k' t = Some w)"
  using step
proof cases
  case rest
  then show ?thesis using rest_step_asleep[OF rest] rest_step_sane[OF rest] k by (auto simp: rest_step1_def)
next
  case (call n)
  then show ?thesis using k sane1_goto[of k] by (auto simp: may_sleep1_def asleep1_goto sane1_def)
next
  case (advance p)
  have r: "running1 k" using k by (simp add: sane1_def)
  have ni: "Some (cur1 k) \<noteq> idle1 k" using k advance(1) by (auto simp: sane1_def)
  show ?thesis
  proof (cases p)
    case S1_Block
    let ?k = "goto1 (Some (S1_Restore (intr_on1 k))) (k\<lparr>intr_on1 := False\<rparr>)"
    have "sane1 ?k" using k ni by (intro sane1_goto) simp_all
    from block1_effect[OF E this] have "sane1 k' \<and> ticks1 k' = ticks1 k \<and> (\<forall>t. t \<noteq> cur1 k \<longrightarrow> asleep1 k' t = asleep1 k t)"
      using advance(2) S1_Block r by (auto simp: asleep1_goto)
    then show ?thesis using asleep1_not_running[OF r] by (metis option.distinct(1))
  qed (use advance k r ni threads_ok1D(1)[OF E r] in
      \<open>auto simp: sane1_goto asleep1_goto asleep1_mark sane1_mark res_simps split: if_splits\<close>)
qed

lemma missed_for_ever:
  assumes "alarm_run intr_on1 (interrupt1 (timer_interrupt_all E)) (alarm_step1 (timer_sleep_all E)) n k k'"
    and "threads_ok1 E" and "missed t w k" and "ticks1 k + int n < 2 ^ 63"
  shows "missed t w k' \<and> ticks1 k' = ticks1 k + int n"
  using assms
proof (induction rule: alarm_run.induct)
  case (other n k k1 k2)
  then show ?case using step_all_sane[OF _ _ other.hyps(2)] by (auto simp: missed_def)
next
  case (tick n k k1 k2)
  then have "missed t w k1" "ticks1 k1 = ticks1 k + int n" by auto
  then show ?case using missed_tick[OF tick.prems(1) _ _ tick.hyps(3)] tick.prems by simp
qed simp

text \<open>A thread that is due but not blocked stops the kernel.\<close>

lemma wake_pass_panics:
  assumes E: "threads_ok1 E" and "t \<in> set xs" and "threads1 k t = Some th" "status1 th \<noteq> THREAD_BLOCKED"
    "waiting_time1 th = ticks1 k"
  shows "\<exists>e. fold_res (timer_wake_all E) xs k = Inl e"
  using assms(2-)
proof (induction xs arbitrary: k)
  case (Cons x xs)
  show ?case
  proof (cases "x = t")
    case True
    then show ?thesis using Cons.prems threads_ok1D(3)[OF E, of k t]
      by (simp add: timer_wake_all_def get1_def timer_ticks1_def status_of1_def)
  next
    case False
    show ?thesis
    proof (cases "timer_wake_all E x k")
      case (Inr k')
      have "threads1 k' t = Some th \<and> ticks1 k' = ticks1 k"
      proof (cases "\<exists>xt. threads1 k x = Some xt \<and> waiting_time1 xt = ticks1 k")
        case True
        then have u: "thread_unblock1 E x k = Inr k'" "threads1 k x \<noteq> None"
          using Inr by (auto simp: timer_wake_all_def get1_def timer_ticks1_def)
        then have "status_of1 k x = Some THREAD_BLOCKED" using threads_ok1D(3)[OF E, of k x] by fastforce
        from threads_ok1D(2)[OF E this] show ?thesis using u(1) False Cons.prems(2) by auto
      next
        case no: False
        then show ?thesis using Inr Cons.prems(2)
          by (auto simp: timer_wake_all_def get1_def timer_ticks1_def split: option.splits)
      qed
      then show ?thesis using Cons.IH[of k'] Cons.prems False Inr by simp
    qed simp
  qed
qed simp

text \<open>\<open>n\<close> ticks with nothing in between.\<close>

lemma only_ticks:
  assumes E: "threads_ok1 E" and k: "sane_all k1" "intr_on1 k1" "ticks1 k1 + int m < 2 ^ 63"
    and r: "alarm_run intr_on1 (interrupt1 (timer_interrupt_all E)) other 0 k k1"
  shows "\<exists>k2. alarm_run intr_on1 (interrupt1 (timer_interrupt_all E)) other m k k2 \<and> sane_all k2 \<and> intr_on1 k2 \<and>
    ticks1 k2 = ticks1 k1 + int m \<and> cur1 k2 = cur1 k1 \<and> in_sleep k2 = in_sleep k1 \<and> idle1 k2 = idle1 k1"
  using k(3)
proof (induction m)
  case 0
  then show ?case using r k by auto
next
  case (Suc m)
  then obtain k2 where k2: "alarm_run intr_on1 (interrupt1 (timer_interrupt_all E)) other m k k2" "sane_all k2"
    "intr_on1 k2" "ticks1 k2 = ticks1 k1 + int m" "cur1 k2 = cur1 k1" "in_sleep k2 = in_sleep k1" "idle1 k2 = idle1 k1" by auto
  have "ticks1 k2 < 2 ^ 63 - 1" using k2(4) Suc.prems by simp
  then obtain k3 where "interrupt1 (timer_interrupt_all E) k2 = Inr k3" "sane_all k3" "ticks1 k3 = ticks1 k2 + 1"
    "cur1 k3 = cur1 k2" "in_sleep k3 = in_sleep k2" "idle1 k3 = idle1 k2" "intr_on1 k3"
    using tick_all[OF E k2(2)] by blast
  then show ?case using alarm_run.tick[OF k2(1,3)] k2 by (intro exI[of _ k3]) simp
qed

lemma called_all:
  assumes k: "sane_all k" "may_sleep1 k"
  shows "\<exists>k1. alarm_run en tick (alarm_step1 (timer_sleep_all E)) 0 k k1 \<and> sane_all k1 \<and> cur1 k1 = cur1 k \<and>
    ticks1 k1 = ticks1 k \<and> intr_on1 k1 = intr_on1 k \<and> in_sleep k1 = (in_sleep k)(cur1 k := Some (S1_Mark (ticks1 k) n))"
proof -
  let ?k0 = "goto1 (Some (S1_Enter n)) k" and ?k1 = "goto1 (Some (S1_Mark (ticks1 k) n)) (goto1 (Some (S1_Enter n)) k)"
  have a: "alarm_run en tick (alarm_step1 (timer_sleep_all E)) 0 k ?k0"
    by (rule alarm_run.other[OF alarm_run.start]) (rule alarm_step1.call[OF k(2)])
  have r: "alarm_run en tick (alarm_step1 (timer_sleep_all E)) 0 k ?k1"
    by (rule alarm_run.other[OF a], rule alarm_step1.advance[where p = "S1_Enter n"]) (simp_all add: timer_ticks1_def)
  have s: "sane1 k" "running1 k" using k(1) by (simp_all add: sane_all_def sane1_def)
  have "sane1 ?k1" using s(1) k(2) by (simp add: sane1_goto may_sleep1_def)
  then have "sane_all ?k1" using k(1) s(2) by (auto simp: sane_all_def asleep1_goto split: if_splits)
  then show ?thesis using r by (intro exI[of _ ?k1]) simp
qed

section \<open>The clocks keep their promises, or not\<close>

text \<open>A kernel with a main thread on page 1 and the idle thread on page 2; \<open>thread_block\<close> lets the idle
  thread run.\<close>

definition demo_env1 :: "unit env1" where
  "demo_env1 =
     \<lparr>thread_current1 = (\<lambda>k. Inr (cur1 k)),
      thread_block1 = (\<lambda>k. case idle1 k of None \<Rightarrow> Inl Bad_Pointer | Some i \<Rightarrow>
        Inr (set_status1 i THREAD_RUNNING (set_status1 (cur1 k) THREAD_BLOCKED (k\<lparr>cur1 := i, rest1 := ()\<rparr>)))),
      thread_unblock1 = (\<lambda>t k. if status_of1 k t = Some THREAD_BLOCKED then Inr (set_status1 t THREAD_READY (k\<lparr>rest1 := ()\<rparr>))
        else Inl (Assert_Failed ''t->status == THREAD_BLOCKED'')),
      thread_tick1 = (\<lambda>k. Inr (k\<lparr>rest1 := ()\<rparr>)),
      thread_foreach1 = (\<lambda>f k. fold_res f (all1 k) k),
      lib1 = stable_lib, misread1 = (\<lambda>_. 0)\<rparr>"

lemma demo_threads_ok1: "threads_ok1 demo_env1"
  unfolding threads_ok1_def demo_env1_def by auto

definition demo_thread1 :: "thread_status \<Rightarrow> int \<Rightarrow> thread1" where
  "demo_thread1 st w = \<lparr>tid1 = 1, status1 = st, name1 = ''main'', stack1 = 0, priority1 = PRI_DEFAULT,
     waiting_time1 = w, magic1 = THREAD_MAGIC\<rparr>"

definition awake_kernel1 :: "unit kernel1" where
  "awake_kernel1 = \<lparr>threads1 = [1 \<mapsto> demo_thread1 THREAD_RUNNING 0, 2 \<mapsto> demo_thread1 THREAD_BLOCKED 0], cur1 = 1,
     all1 = [1, 2], idle1 = Some 2, ticks1 = 0, thread_list1 = [], intr_on1 = True, in_sleep = (\<lambda>_. None), rest1 = ()\<rparr>"

text \<open>The main thread sleeps until tick 1.\<close>

definition asleep_kernel1 :: "unit kernel1" where
  "asleep_kernel1 = \<lparr>threads1 = [1 \<mapsto> demo_thread1 THREAD_BLOCKED 1, 2 \<mapsto> demo_thread1 THREAD_RUNNING 0], cur1 = 2,
     all1 = [1, 2], idle1 = Some 2, ticks1 = 0, thread_list1 = [1], intr_on1 = True, in_sleep = [1 \<mapsto> S1_Restore True], rest1 = ()\<rparr>"

lemmas demo1_defs = demo_thread1_def awake_kernel1_def asleep_kernel1_def

lemma demo_sane:
  "sane_all awake_kernel1" "sane_list asleep_kernel1" "sane_all asleep_kernel1" "asleep1 asleep_kernel1 1 = Some 1"
  by (auto simp: sane_all_def sane_list_def sane1_def demo1_defs asleep1_def running1_def status_of1_def dom_def
      split: if_splits)

text \<open>The clock with a list is on time in every run, whatever the other threads do and wherever
  inside \<open>timer_sleep\<close> the interrupts come: a thread sleeps until its wake-up time and is woken by the
  tick that reaches it, or by the next tick if that time has passed already.\<close>

theorem list_clock_on_time:
  assumes "threads_ok1 E" and "sane_list k" and "ticks1 k + int n < 2 ^ 63" and "asleep1 k t = Some w"
    and "alarm_run intr_on1 (interrupt1 (timer_interrupt_list E)) (alarm_step1 (timer_sleep_list E)) n k k'"
  shows "if n < due_tick w (ticks1 k) then asleep1 k' t = Some w
    else \<exists>k1 k2. alarm_run intr_on1 (interrupt1 (timer_interrupt_list E)) (alarm_step1 (timer_sleep_list E))
        (due_tick w (ticks1 k) - 1) k k1 \<and> asleep1 k1 t = Some w \<and> intr_on1 k1 \<and>
      interrupt1 (timer_interrupt_list E) k1 = Inr k2 \<and> asleep1 k2 t = None \<and>
      ticks1 k2 = ticks1 k + int (due_tick w (ticks1 k))"
  by (rule list_clock.on_time[OF assms(5) _ assms(3,4)]) (use assms in blast)

theorem list_clock_on_time_witness:
  "\<exists>k2. interrupt1 (timer_interrupt_list demo_env1) asleep_kernel1 = Inr k2 \<and> asleep1 asleep_kernel1 1 = Some 1 \<and>
     (\<exists>k1 k3. alarm_run intr_on1 (interrupt1 (timer_interrupt_list demo_env1)) (alarm_step1 (timer_sleep_list demo_env1))
        0 asleep_kernel1 k1 \<and> interrupt1 (timer_interrupt_list demo_env1) k1 = Inr k3 \<and> asleep1 k3 1 = None \<and> ticks1 k3 = 1)"
proof -
  have t: "ticks1 asleep_kernel1 = 0" "intr_on1 asleep_kernel1" by (simp_all add: asleep_kernel1_def)
  then obtain k2 where k2: "interrupt1 (timer_interrupt_list demo_env1) asleep_kernel1 = Inr k2"
    using tick_list[OF demo_threads_ok1, of asleep_kernel1] demo_sane by auto
  have "due_tick 1 0 = 1" by (simp add: due_tick_def)
  moreover have "alarm_run intr_on1 (interrupt1 (timer_interrupt_list demo_env1)) (alarm_step1 (timer_sleep_list demo_env1))
      1 asleep_kernel1 k2"
    by (rule one_tick[of intr_on1]) (rule t(2), rule k2)
  ultimately have "\<exists>k1 k3. alarm_run intr_on1 (interrupt1 (timer_interrupt_list demo_env1))
      (alarm_step1 (timer_sleep_list demo_env1)) 0 asleep_kernel1 k1 \<and>
      interrupt1 (timer_interrupt_list demo_env1) k1 = Inr k3 \<and> asleep1 k3 1 = None \<and> ticks1 k3 = 1"
    using list_clock_on_time[OF demo_threads_ok1 demo_sane(2) _ demo_sane(4), of 1 k2] t(1) by auto
  then show ?thesis using k2 demo_sane(4) by blast
qed

text \<open>C23: The clocks with a list of sleepers, ordered or not, are on time in every run, whatever the other
  threads do and wherever inside \<open>timer_sleep\<close> the interrupts come: a thread sleeps until its wake-up time
  and is woken by the tick that reaches it, or by the next tick if that time has passed already.\<close>

theorem listed_clocks_on_time:
  assumes "threads_ok1 E" and "sane_list k" and "ticks1 k + int n < 2 ^ 63" and "asleep1 k t = Some w"
    and clock: "(handler, sleep) = (timer_interrupt_list E, timer_sleep_list E) \<or>
      (handler, sleep) = (timer_interrupt_sorted E, timer_sleep_sorted E)"
    and run: "alarm_run intr_on1 (interrupt1 handler) (alarm_step1 sleep) n k k'"
  shows "if n < due_tick w (ticks1 k) then asleep1 k' t = Some w
    else \<exists>k1 k2. alarm_run intr_on1 (interrupt1 handler) (alarm_step1 sleep) (due_tick w (ticks1 k) - 1) k k1 \<and>
      asleep1 k1 t = Some w \<and> intr_on1 k1 \<and> interrupt1 handler k1 = Inr k2 \<and> asleep1 k2 t = None \<and>
      ticks1 k2 = ticks1 k + int (due_tick w (ticks1 k))"
  using clock
proof (elim disjE)
  assume "(handler, sleep) = (timer_interrupt_list E, timer_sleep_list E)"
  then have c: "handler = timer_interrupt_list E" "sleep = timer_sleep_list E" by simp_all
  show ?thesis unfolding c
    by (rule list_clock.on_time[OF run[unfolded c] _ assms(3,4)]) (use assms(1,2) in blast)
next
  assume "(handler, sleep) = (timer_interrupt_sorted E, timer_sleep_sorted E)"
  then have c: "handler = timer_interrupt_sorted E" "sleep = timer_sleep_sorted E" by simp_all
  show ?thesis unfolding c
    by (rule sorted_clock.on_time[OF run[unfolded c] _ assms(3,4)]) (use assms(1,2) in blast)
qed

theorem listed_clocks_on_time_witness:
  "\<exists>k1 k3. alarm_run intr_on1 (interrupt1 (timer_interrupt_sorted demo_env1)) (alarm_step1 (timer_sleep_sorted demo_env1))
      0 asleep_kernel1 k1 \<and> interrupt1 (timer_interrupt_sorted demo_env1) k1 = Inr k3 \<and> asleep1 k3 1 = None \<and> ticks1 k3 = 1"
proof -
  have t: "ticks1 asleep_kernel1 = 0" "intr_on1 asleep_kernel1" by (simp_all add: asleep_kernel1_def)
  then obtain k2 where k2: "interrupt1 (timer_interrupt_sorted demo_env1) asleep_kernel1 = Inr k2"
    using tick_sorted[OF demo_threads_ok1, of asleep_kernel1] demo_sane by auto
  have "due_tick 1 0 = 1" by (simp add: due_tick_def)
  moreover have "alarm_run intr_on1 (interrupt1 (timer_interrupt_sorted demo_env1)) (alarm_step1 (timer_sleep_sorted demo_env1))
      1 asleep_kernel1 k2"
    by (rule one_tick[of intr_on1]) (rule t(2), rule k2)
  ultimately show ?thesis
    using listed_clocks_on_time[OF demo_threads_ok1 demo_sane(2) _ demo_sane(4), of 1
        "timer_interrupt_sorted demo_env1" "timer_sleep_sorted demo_env1" k2] t(1) by auto
qed

text \<open>The clock that asks every thread is as punctual as long as no interrupt comes between the
  call of \<open>timer_sleep\<close> and the block.\<close>

theorem all_clock_on_time:
  assumes "threads_ok1 E" and "sane_all k" and "ticks1 k + int n < 2 ^ 63" and "asleep1 k t = Some w"
    and "alarm_run intr_on1 (interrupt1 (timer_interrupt_all E)) (calm_step1 (timer_sleep_all E)) n k k'"
  shows "if n < due_tick w (ticks1 k) then asleep1 k' t = Some w
    else \<exists>k1 k2. alarm_run intr_on1 (interrupt1 (timer_interrupt_all E)) (calm_step1 (timer_sleep_all E))
        (due_tick w (ticks1 k) - 1) k k1 \<and> asleep1 k1 t = Some w \<and> intr_on1 k1 \<and>
      interrupt1 (timer_interrupt_all E) k1 = Inr k2 \<and> asleep1 k2 t = None \<and>
      ticks1 k2 = ticks1 k + int (due_tick w (ticks1 k))"
  by (rule all_clock.on_time[OF assms(5) _ assms(3,4)]) (use assms in blast)

theorem all_clock_on_time_witness:
  "\<exists>k2. interrupt1 (timer_interrupt_all demo_env1) asleep_kernel1 = Inr k2 \<and> asleep1 asleep_kernel1 1 = Some 1 \<and>
     (\<exists>k1 k3. alarm_run intr_on1 (interrupt1 (timer_interrupt_all demo_env1)) (calm_step1 (timer_sleep_all demo_env1))
        0 asleep_kernel1 k1 \<and> interrupt1 (timer_interrupt_all demo_env1) k1 = Inr k3 \<and> asleep1 k3 1 = None \<and> ticks1 k3 = 1)"
proof -
  have t: "ticks1 asleep_kernel1 = 0" "intr_on1 asleep_kernel1" by (simp_all add: asleep_kernel1_def)
  then obtain k2 where k2: "interrupt1 (timer_interrupt_all demo_env1) asleep_kernel1 = Inr k2"
    using tick_all[OF demo_threads_ok1, of asleep_kernel1] demo_sane by auto
  have "due_tick 1 0 = 1" by (simp add: due_tick_def)
  moreover have "alarm_run intr_on1 (interrupt1 (timer_interrupt_all demo_env1)) (calm_step1 (timer_sleep_all demo_env1))
      1 asleep_kernel1 k2"
    by (rule one_tick[of intr_on1]) (rule t(2), rule k2)
  ultimately have "\<exists>k1 k3. alarm_run intr_on1 (interrupt1 (timer_interrupt_all demo_env1))
      (calm_step1 (timer_sleep_all demo_env1)) 0 asleep_kernel1 k1 \<and>
      interrupt1 (timer_interrupt_all demo_env1) k1 = Inr k3 \<and> asleep1 k3 1 = None \<and> ticks1 k3 = 1"
    using all_clock_on_time[OF demo_threads_ok1 demo_sane(3) _ demo_sane(4), of 1 k2] t(1) by auto
  then show ?thesis using k2 demo_sane(4) by blast
qed

text \<open>A call of \<open>timer_sleep\<close> that \<open>m\<close> ticks interrupt after it has read the clock, before and after it blocks.\<close>

lemma ticks_after_reading:
  assumes E: "threads_ok1 E" and k: "sane_all k" "intr_on1 k" "may_sleep1 k" and n: "0 < n" "ticks1 k + int n < 2 ^ 63 - 1"
    and m: "m \<le> n"
  defines "runs \<equiv> alarm_run intr_on1 (interrupt1 (timer_interrupt_all E)) (alarm_step1 (timer_sleep_all E))"
  shows "\<exists>k1 k2 k3. runs m k k1 \<and> sane_all k1 \<and> ticks1 k1 = ticks1 k + int m \<and>
      timer_sleep_all E (S1_Mark (ticks1 k) (int n)) k1 = Inr k2 \<and> sane1 k2 \<and> ticks1 k2 = ticks1 k1 \<and> intr_on1 k2 \<and>
      runs m k k2 \<and>
      (\<exists>th. threads1 k2 (cur1 k) = Some th \<and> waiting_time1 th = ticks1 k + int n \<and> status1 th \<noteq> THREAD_BLOCKED) \<and>
      runs m k k3 \<and> sane1 k3 \<and> ticks1 k3 = ticks1 k1 \<and> asleep1 k3 (cur1 k) = Some (ticks1 k + int n)"
proof -
  let ?run = "alarm_run intr_on1 (interrupt1 (timer_interrupt_all E)) (alarm_step1 (timer_sleep_all E))"
  note [simp] = runs_def
  obtain k0 where k0: "?run 0 k k0" "sane_all k0" "cur1 k0 = cur1 k" "ticks1 k0 = ticks1 k" "intr_on1 k0"
    "in_sleep k0 = (in_sleep k)(cur1 k := Some (S1_Mark (ticks1 k) (int n)))"
    using called_all[OF k(1,3), of intr_on1 "interrupt1 (timer_interrupt_all E)" E "int n"] k(2) by auto
  have w: "in_int64 (ticks1 k + int n)" using n k(1) by (simp add: in_int64_def sane_all_def sane1_def)
  have "ticks1 k0 + int m < 2 ^ 63" using k0(4) n(2) m by simp
  then obtain k1 where k1: "?run m k k1" "sane_all k1" "intr_on1 k1" "ticks1 k1 = ticks1 k + int m" "cur1 k1 = cur1 k"
    "in_sleep k1 = in_sleep k0"
    using only_ticks[OF E k0(2,5) _ k0(1)] k0(3,4) by auto
  have s: "sane1 k1" "in_sleep k1 (cur1 k1) = Some (S1_Mark (ticks1 k) (int n))"
    using k1 k0(6) by (auto simp: sane_all_def)
  obtain k2 k3 where k2: "timer_sleep_all E (S1_Mark (ticks1 k) (int n)) k1 = Inr k2"
    "in_sleep k2 = (in_sleep k1)(cur1 k1 := Some S1_Block)" "sane1 k2" "ticks1 k2 = ticks1 k1" "cur1 k2 = cur1 k1" "intr_on1 k2"
    "threads1 k2 = (threads1 k1)(cur1 k1 := map_option (\<lambda>th. th\<lparr>waiting_time1 := ticks1 k + int n\<rparr>) (threads1 k1 (cur1 k1)))"
    and k3: "timer_sleep_all E S1_Block k2 = Inr k3" "sane1 k3" "ticks1 k3 = ticks1 k1"
    "\<forall>t. asleep1 k3 t = (if t = cur1 k1 then Some (ticks1 k + int n) else asleep1 k1 t)"
    using mark_then_block[OF E s(1) k1(3) s(2) _ w] n(1) by auto
  have r2: "?run m k k2" by (rule alarm_run.other[OF k1(1)], rule alarm_step1.advance[OF s(2)]) (rule k2(1))
  have "?run m k k3" by (rule alarm_run.other[OF r2], rule alarm_step1.advance[where p = S1_Block]) (simp_all add: k2 k3 del: timer_sleep_all.simps)
  moreover obtain th where "threads1 k1 (cur1 k1) = Some th" "status1 th = THREAD_RUNNING"
    using s(1) by (auto simp: sane1_def running1_def status_of1_def)
  ultimately show ?thesis using k1 k2 k3 r2 by (intro exI[of _ k1] exI[of _ k2] exI[of _ k3]) (simp del: timer_sleep_all.simps)
qed

text \<open>C27: Where interrupts do come inside \<open>timer_sleep\<close> the clock that asks every thread fails, for any
  number of ticks asked for: if they all come between reading the clock and setting the wake-up time the
  thread sleeps for ever; if all but the last come there and the last before the thread blocks, the handler
  stops the kernel.\<close>

theorem all_clock_fails:
  assumes E: "threads_ok1 E" and k: "sane_all k" "intr_on1 k" "may_sleep1 k" and n: "0 < n" "ticks1 k + int n < 2 ^ 63 - 1"
  shows "(\<exists>k1. alarm_run intr_on1 (interrupt1 (timer_interrupt_all E)) (alarm_step1 (timer_sleep_all E)) n k k1 \<and>
      (\<forall>m k2. ticks1 k1 + int m < 2 ^ 63 \<and>
         alarm_run intr_on1 (interrupt1 (timer_interrupt_all E)) (alarm_step1 (timer_sleep_all E)) m k1 k2 \<longrightarrow>
         asleep1 k2 (cur1 k) = Some (ticks1 k + int n))) \<and>
    (\<exists>k1. alarm_run intr_on1 (interrupt1 (timer_interrupt_all E)) (alarm_step1 (timer_sleep_all E)) (n - 1) k k1 \<and>
      intr_on1 k1 \<and> (\<exists>e. interrupt1 (timer_interrupt_all E) k1 = Inl e))"
proof -
  let ?run = "alarm_run intr_on1 (interrupt1 (timer_interrupt_all E)) (alarm_step1 (timer_sleep_all E))"
  note after = ticks_after_reading[OF E k n]
  obtain k3 where k3: "?run n k k3" "sane1 k3" "ticks1 k3 = ticks1 k + int n" "asleep1 k3 (cur1 k) = Some (ticks1 k + int n)"
    using after[of n] by auto
  then have "missed (cur1 k) (ticks1 k + int n) k3" by (simp add: missed_def)
  then have lost: "asleep1 k2 (cur1 k) = Some (ticks1 k + int n)" if "ticks1 k3 + int m < 2 ^ 63" "?run m k3 k2" for m k2
    using missed_for_ever[OF that(2) E _ that(1)] by (simp add: missed_def)
  obtain k2 th where k2: "?run (n - 1) k k2" "sane1 k2" "intr_on1 k2" "ticks1 k2 = ticks1 k + int n - 1"
    "threads1 k2 (cur1 k) = Some th" "waiting_time1 th = ticks1 k + int n" "status1 th \<noteq> THREAD_BLOCKED"
    using after[of "n - 1"] n(1) by (auto simp: of_nat_diff)
  have "ticks1 k2 < 2 ^ 63 - 1" using k2(4) n(2) by simp
  from handler_passes[OF E k2(2) this] obtain r where r: "interrupt1 (timer_interrupt_all E) k2 =
      bind_res (fold_res (timer_wake_all E) (all1 k2) (ticked1 r k2)) (\<lambda>k. Inr (k\<lparr>intr_on1 := True\<rparr>))" by blast
  have "cur1 k \<in> set (all1 k2)" using k2(2,5) by (auto simp: sane1_def)
  then obtain e where "fold_res (timer_wake_all E) (all1 k2) (ticked1 r k2) = Inl e"
    using wake_pass_panics[OF E _ _ k2(7), of "cur1 k" "all1 k2" "ticked1 r k2"] k2 by auto
  then show ?thesis using k3(1) lost k2(1,3) r by auto
qed

theorem all_clock_fails_witness:
  "(\<exists>k1. alarm_run intr_on1 (interrupt1 (timer_interrupt_all demo_env1)) (alarm_step1 (timer_sleep_all demo_env1)) 1 awake_kernel1 k1 \<and>
      (\<forall>m k2. ticks1 k1 + int m < 2 ^ 63 \<and> alarm_run intr_on1 (interrupt1 (timer_interrupt_all demo_env1))
         (alarm_step1 (timer_sleep_all demo_env1)) m k1 k2 \<longrightarrow> asleep1 k2 1 = Some 1)) \<and>
   (\<exists>k1 e. alarm_run intr_on1 (interrupt1 (timer_interrupt_all demo_env1)) (alarm_step1 (timer_sleep_all demo_env1)) 0 awake_kernel1 k1 \<and>
      interrupt1 (timer_interrupt_all demo_env1) k1 = Inl e)"
proof -
  have "intr_on1 awake_kernel1" "may_sleep1 awake_kernel1" "ticks1 awake_kernel1 = 0" "cur1 awake_kernel1 = 1"
    by (simp_all add: awake_kernel1_def may_sleep1_def)
  then show ?thesis using all_clock_fails[OF demo_threads_ok1 demo_sane(1), of 1] by simp blast
qed

end
