(* ===== verification/Threadsort.thy ===== *)
theory Threadsort
  imports Mergesort
begin

text \<open>
  The multi-threaded merge sort of Assignment 2 (\<open>sort.c\<close>). The caller splits the array between two
  threads, each of these between two more, which sort in themselves. The index of a new thread comes
  from the variable \<open>thread_num\<close>, which all threads read and write without a lock: every read, write,
  creation, join and merge is a step of its own here. \<open>merge\<close> is not in the repository and is the
  parameter \<open>mg\<close>; \<open>created n\<close> says whether the system can give a process with \<open>n\<close> threads one more.
\<close>

section \<open>State\<close>

definition THREAD_COUNT :: nat where
  "THREAD_COUNT = 6"

text \<open>The structure \<open>Arg\<close> without the address of the array, which all threads share.\<close>

record sort_arg =
  arg_L :: nat
  arg_M :: nat
  arg_R :: nat
  arg_id :: nat

text \<open>The function a thread starts in, and what a thread that sorts in itself has still to do.\<close>

datatype sort_start = Thread_Create2 | Thread_Sort

datatype sort_todo = Sort nat nat | Merge nat nat nat

text \<open>
  Where a thread is inside \<open>multiThreadedMergeSort\<close>: \<open>At_Index\<close> has still to read \<open>thread_num\<close> for
  \<open>thread_num++\<close>, \<open>At_Bump\<close> to write it back. \<open>At_Sort\<close> is inside \<open>singleThreadedMergeSort\<close>.
\<close>

datatype sort_pc =
  At_Mode | At_Arg1 | At_Index1 | At_Bump1 | At_Create1 | At_Arg2 | At_Index2 | At_Bump2 | At_Create2
| At_Join1 | At_Join2 | At_Merge | At_Sort | At_End

text \<open>The local variables; \<open>idx\<close> is the value of \<open>thread_num++\<close>, and an element of \<open>thread_id\<close> that
  was not written is \<open>None\<close>.\<close>

record sort_thread =
  pc :: sort_pc
  left_of :: nat
  right_of :: nat
  mid_of :: nat
  start_fn :: sort_start
  arg1 :: sort_arg
  arg2 :: sort_arg
  idx :: nat
  thread_id :: "nat \<Rightarrow> nat option"
  todo :: "sort_todo list"
  joined :: bool

record sort_state =
  mem :: "int list"
  thread_num :: nat
  sort_threads :: "sort_thread list"

section \<open>Threads\<close>

definition no_arg :: sort_arg where
  "no_arg = \<lparr>arg_L = 0, arg_M = 0, arg_R = 0, arg_id = 0\<rparr>"

definition enter :: "sort_pc \<Rightarrow> nat \<Rightarrow> nat \<Rightarrow> sort_todo list \<Rightarrow> sort_thread" where
  "enter p left right td = \<lparr>pc = p, left_of = left, right_of = right, mid_of = 0, start_fn = Thread_Sort,
     arg1 = no_arg, arg2 = no_arg, idx = 0, thread_id = (\<lambda>_. None), todo = td, joined = False\<rparr>"

definition thread_sort :: "sort_arg \<Rightarrow> sort_thread" where
  "thread_sort args = enter At_Sort (arg_L args) (arg_R args) [Sort (arg_L args) (arg_R args)]"

definition thread_create2 :: "sort_arg \<Rightarrow> sort_thread" where
  "thread_create2 args = enter At_Mode (arg_L args) (arg_R args) []"

definition start_thread :: "sort_start \<Rightarrow> sort_arg \<Rightarrow> sort_thread" where
  "start_thread f args = (case f of Thread_Create2 \<Rightarrow> thread_create2 args | Thread_Sort \<Rightarrow> thread_sort args)"

text \<open>A failed creation leaves the element undefined, and the result is not looked at.\<close>

definition create_thread :: "(nat \<Rightarrow> bool) \<Rightarrow> nat \<Rightarrow> sort_arg \<Rightarrow> sort_pc \<Rightarrow> sort_state \<Rightarrow> sort_state res" where
  "create_thread created i args next_pc st =
     (let th = sort_threads st ! i; n = length (sort_threads st) in
      if THREAD_COUNT \<le> idx th then Inl Bad_Pointer
      else if created n then
        Inr (st\<lparr>sort_threads := (sort_threads st)[i := th\<lparr>thread_id := (thread_id th)(idx th := Some n), pc := next_pc\<rparr>]
          @ [start_thread (start_fn th) args]\<rparr>)
      else Inr (st\<lparr>sort_threads := (sort_threads st)[i := th\<lparr>thread_id := (thread_id th)(idx th := None), pc := next_pc\<rparr>]\<rparr>))"

text \<open>Joining something that is not a thread, or a thread that was joined before, is not defined.\<close>

definition join_thread :: "nat \<Rightarrow> nat \<Rightarrow> sort_pc \<Rightarrow> sort_state \<Rightarrow> sort_state res" where
  "join_thread i n next_pc st =
     (let th = sort_threads st ! i in
      if THREAD_COUNT \<le> n then Inl Bad_Pointer
      else case thread_id th n of None \<Rightarrow> Inl Bad_Pointer
      | Some d \<Rightarrow>
          if joined (sort_threads st ! d) then Inl Bad_Pointer
          else Inr (st\<lparr>sort_threads := (sort_threads st)[i := th\<lparr>pc := next_pc\<rparr>, d := (sort_threads st ! d)\<lparr>joined := True\<rparr>]\<rparr>))"

text \<open>A join waits while the thread it names is running.\<close>

definition join_ready :: "nat \<Rightarrow> nat \<Rightarrow> sort_state \<Rightarrow> bool" where
  "join_ready i n st =
     (case thread_id (sort_threads st ! i) n of None \<Rightarrow> True
      | Some d \<Rightarrow> joined (sort_threads st ! d) \<or> pc (sort_threads st ! d) = At_End)"

section \<open>Steps\<close>

text \<open>\<open>singleThreadedMergeSort\<close> by its pending calls.\<close>

fun singleThreadedMergeSort :: "merge_fn \<Rightarrow> sort_todo list \<Rightarrow> int list \<Rightarrow> (sort_todo list \<times> int list) res" where
  "singleThreadedMergeSort mg [] arr = Inr ([], arr)"
| "singleThreadedMergeSort mg (Sort left right # td) arr =
     (if left < right
      then bind_res (midpoint left right) (\<lambda>middle.
        Inr ([Sort left middle, Sort (middle + 1) right, Merge left middle right] @ td, arr))
      else Inr (td, arr))"
| "singleThreadedMergeSort mg (Merge left middle right # td) arr =
     bind_res (call_merge mg (left, middle, right) arr) (\<lambda>arr. Inr (td, arr))"

definition put_thread :: "nat \<Rightarrow> sort_thread \<Rightarrow> sort_state \<Rightarrow> sort_state" where
  "put_thread i th st = st\<lparr>sort_threads := (sort_threads st)[i := th]\<rparr>"

fun multiThreadedMergeSort ::
  "sort_pc \<Rightarrow> merge_fn \<Rightarrow> (nat \<Rightarrow> bool) \<Rightarrow> nat \<Rightarrow> sort_thread \<Rightarrow> sort_state \<Rightarrow> sort_state res" where
  "multiThreadedMergeSort At_Mode mg created i th st =
     bind_res (midpoint (left_of th) (right_of th)) (\<lambda>m.
       Inr (put_thread i (th\<lparr>mid_of := m, start_fn := (if thread_num st \<le> 1 then Thread_Create2 else Thread_Sort),
         pc := At_Arg1\<rparr>) st))"
| "multiThreadedMergeSort At_Arg1 mg created i th st =
     bind_res (midpoint (left_of th) (mid_of th)) (\<lambda>m.
       Inr (put_thread i (th\<lparr>arg1 := \<lparr>arg_L = left_of th, arg_M = m, arg_R = mid_of th, arg_id = thread_num st\<rparr>,
         pc := At_Index1\<rparr>) st))"
| "multiThreadedMergeSort At_Index1 mg created i th st =
     Inr (put_thread i (th\<lparr>idx := thread_num st, pc := At_Bump1\<rparr>) st)"
| "multiThreadedMergeSort At_Bump1 mg created i th st =
     (if idx th + 1 < 2 ^ 31 then Inr (put_thread i (th\<lparr>pc := At_Create1\<rparr>) (st\<lparr>thread_num := idx th + 1\<rparr>))
      else Inl Signed_Overflow)"
| "multiThreadedMergeSort At_Create1 mg created i th st = create_thread created i (arg1 th) At_Arg2 st"
| "multiThreadedMergeSort At_Arg2 mg created i th st =
     bind_res (midpoint (mid_of th) (right_of th)) (\<lambda>m.
       Inr (put_thread i (th\<lparr>arg2 := \<lparr>arg_L = mid_of th + 1, arg_M = m, arg_R = right_of th, arg_id = thread_num st\<rparr>,
         pc := At_Index2\<rparr>) st))"
| "multiThreadedMergeSort At_Index2 mg created i th st =
     Inr (put_thread i (th\<lparr>idx := thread_num st, pc := At_Bump2\<rparr>) st)"
| "multiThreadedMergeSort At_Bump2 mg created i th st =
     (if idx th + 1 < 2 ^ 31 then Inr (put_thread i (th\<lparr>pc := At_Create2\<rparr>) (st\<lparr>thread_num := idx th + 1\<rparr>))
      else Inl Signed_Overflow)"
| "multiThreadedMergeSort At_Create2 mg created i th st = create_thread created i (arg2 th) At_Join1 st"
| "multiThreadedMergeSort At_Join1 mg created i th st = join_thread i (arg_id (arg1 th)) At_Join2 st"
| "multiThreadedMergeSort At_Join2 mg created i th st = join_thread i (arg_id (arg2 th)) At_Merge st"
| "multiThreadedMergeSort At_Merge mg created i th st =
     bind_res (call_merge mg (left_of th, mid_of th, right_of th) (mem st)) (\<lambda>arr.
       Inr (put_thread i (th\<lparr>pc := At_End\<rparr>) (st\<lparr>mem := arr\<rparr>)))"
| "multiThreadedMergeSort At_Sort mg created i th st =
     bind_res (singleThreadedMergeSort mg (todo th) (mem st)) (\<lambda>(td, arr).
       Inr (put_thread i (th\<lparr>todo := td, pc := (if td = [] then At_End else At_Sort)\<rparr>) (st\<lparr>mem := arr\<rparr>)))"
| "multiThreadedMergeSort At_End mg created i th st = Inr st"

definition sort_step :: "merge_fn \<Rightarrow> (nat \<Rightarrow> bool) \<Rightarrow> nat \<Rightarrow> sort_state \<Rightarrow> sort_state res" where
  "sort_step mg created i st =
     (let th = sort_threads st ! i in multiThreadedMergeSort (pc th) mg created i th st)"

definition can_step :: "nat \<Rightarrow> sort_state \<Rightarrow> bool" where
  "can_step i st \<longleftrightarrow> i < length (sort_threads st) \<and>
     (let th = sort_threads st ! i in
      case pc th of At_End \<Rightarrow> False
      | At_Join1 \<Rightarrow> join_ready i (arg_id (arg1 th)) st
      | At_Join2 \<Rightarrow> join_ready i (arg_id (arg2 th)) st
      | _ \<Rightarrow> True)"

section \<open>Runs\<close>

text \<open>The call \<open>multiThreadedMergeSort(arr, left, right)\<close>, made by thread 0 when the counter is \<open>c\<close>: a
  process starts with 0.\<close>

definition sort_call :: "nat \<Rightarrow> int list \<Rightarrow> nat \<Rightarrow> nat \<Rightarrow> sort_state" where
  "sort_call c arr left right = \<lparr>mem = arr, thread_num = c, sort_threads = [enter At_Mode left right []]\<rparr>"

text \<open>A run of \<open>n\<close> steps; \<open>sched\<close> says which threads the scheduler may choose in a state.\<close>

inductive sort_run :: "(nat \<Rightarrow> sort_state \<Rightarrow> bool) \<Rightarrow> merge_fn \<Rightarrow> (nat \<Rightarrow> bool) \<Rightarrow> nat \<Rightarrow> sort_state \<Rightarrow> sort_state \<Rightarrow> bool"
  for sched mg created where
  start: "sort_run sched mg created 0 st st"
| step: "sort_run sched mg created n st st1 \<Longrightarrow> can_step i st1 \<Longrightarrow> sched i st1 \<Longrightarrow>
     sort_step mg created i st1 = Inr st2 \<Longrightarrow> sort_run sched mg created (Suc n) st st2"

definition any_order :: "nat \<Rightarrow> sort_state \<Rightarrow> bool" where
  "any_order i st = True"

text \<open>The schedules that never let two threads be in lines 62 to 68 at once, as a lock held over these
  lines would.\<close>

definition numbering :: "sort_pc \<Rightarrow> bool" where
  "numbering p \<longleftrightarrow> p \<in> {At_Arg1, At_Index1, At_Bump1, At_Create1, At_Arg2, At_Index2, At_Bump2, At_Create2}"

definition orderly :: "nat \<Rightarrow> sort_state \<Rightarrow> bool" where
  "orderly i st \<longleftrightarrow> pc (sort_threads st ! i) = At_Mode \<longrightarrow> (\<forall>th \<in> set (sort_threads st). \<not> numbering (pc th))"

end
