(* ===== verification/Threadsort_Inv.thy ===== *)
theory Threadsort_Inv
  imports Threadsort Mergesort_Props
begin

text \<open>
  The invariant of the multi-threaded sort under every schedule. Each index of the array belongs to one
  thread (\<open>own\<close>) and each thread to the one that created it (\<open>par\<close>); a thread merges only what belongs
  to it, so what it knows of its part stays true while others run.
\<close>

section \<open>Blocks of the array\<close>

text \<open>The contract of \<open>merge\<close> with runs that may be empty.\<close>

definition merge_runs_ok :: "merge_fn \<Rightarrow> bool" where
  "merge_runs_ok mg \<longleftrightarrow>
     (\<forall>arr l m r. l \<le> m + 1 \<and> m \<le> r \<and> r < length arr \<and> sorted (segment l m arr) \<and> sorted (segment (m + 1) r arr) \<longrightarrow>
        mg arr l m r = sort_at l r arr)"

lemma merge_runs_ok_merge_ok: "merge_runs_ok mg \<Longrightarrow> merge_ok mg"
  by (simp add: merge_runs_ok_def merge_ok_def)

lemma segment_empty [simp]: "r < l \<Longrightarrow> segment l r xs = []"
  by (simp add: segment_def)

lemma sort_at_empty: "sort_at (Suc r) r xs = xs"
  by (simp add: sort_at_def)

lemma length_segment: "l \<le> r + 1 \<Longrightarrow> r < length xs \<Longrightarrow> length (segment l r xs) = r + 1 - l"
  by (simp add: segment_def)

lemma split_segment:
  assumes "l \<le> r + 1" "r < length xs"
  shows "xs = take l xs @ segment l r xs @ drop (r + 1) xs"
proof -
  have "drop l xs = segment l r xs @ drop (r + 1) xs"
    using append_take_drop_id[of "r + 1 - l" "drop l xs"] assms(1) by (simp add: segment_def)
  then show ?thesis by (metis append_take_drop_id)
qed

lemma length_sort_at_gen: "l \<le> r + 1 \<Longrightarrow> r < length xs \<Longrightarrow> length (sort_at l r xs) = length xs"
  by (cases "l \<le> r") (auto simp: sort_at_empty not_less_eq_eq le_Suc_eq)

lemma nth_sort_at:
  assumes "l \<le> r + 1" "r < length xs" "x < length xs" "x < l \<or> r < x"
  shows "sort_at l r xs ! x = xs ! x"
  using assms by (auto simp: sort_at_def nth_append segment_def)

lemma segment_nth: "x < length (segment l r xs) \<Longrightarrow> segment l r xs ! x = xs ! (l + x)"
  by (auto simp: segment_def intro!: nth_drop)

lemma segment_sort_at_disjoint:
  assumes "l \<le> r + 1" "r < length xs" "r' < length xs" "\<And>x. l' \<le> x \<Longrightarrow> x \<le> r' \<Longrightarrow> x < l \<or> r < x"
  shows "segment l' r' (sort_at l r xs) = segment l' r' xs"
proof (cases "l' \<le> r' + 1")
  case True
  have len: "length (segment l' r' (sort_at l r xs)) = length (segment l' r' xs)"
    using length_sort_at_gen[OF assms(1,2)] assms(3) True by (simp add: length_segment)
  show ?thesis
  proof (rule nth_equalityI[OF len])
    fix x assume x: "x < length (segment l' r' (sort_at l r xs))"
    then have "l' + x \<le> r'" using length_sort_at_gen[OF assms(1,2)] assms(3) True by (simp add: length_segment)
    then show "segment l' r' (sort_at l r xs) ! x = segment l' r' xs ! x"
      using x len assms nth_sort_at[OF assms(1,2), of "l' + x"] by (simp add: segment_nth)
  qed
qed simp

text \<open>Sorting a part permutes the whole and leaves the rest.\<close>

lemma sort_at_inside:
  assumes "l \<le> a" "a \<le> b + 1" "b \<le> r" "r < length xs"
  shows "take l (sort_at a b xs) = take l xs" "drop (r + 1) (sort_at a b xs) = drop (r + 1) xs"
    "mset (segment l r (sort_at a b xs)) = mset (segment l r xs)"
    "a \<le> b \<Longrightarrow> segment l r (sort_at a b xs) = sort_at (a - l) (b - l) (segment l r xs)"
proof -
  have "take l (sort_at a b xs) = take l xs \<and> drop (r + 1) (sort_at a b xs) = drop (r + 1) xs \<and>
      mset (segment l r (sort_at a b xs)) = mset (segment l r xs) \<and>
      (a \<le> b \<longrightarrow> segment l r (sort_at a b xs) = sort_at (a - l) (b - l) (segment l r xs))"
  proof (cases "a \<le> b")
    case False
    then have "a = Suc b" using assms by simp
    then show ?thesis by (simp add: sort_at_empty)
  next
    case True
    let ?P = "take l xs" and ?X = "segment l r xs" and ?Q = "drop (r + 1) xs"
    have l: "length ?P = l" "length ?X = r + 1 - l" using assms True by (simp_all add: length_segment)
    have e: "sort_at a b xs = ?P @ sort_at (a - l) (b - l) ?X @ ?Q"
      using sort_at_block[of ?P a b ?X ?Q] split_segment[of l r xs] l assms True by simp
    have lX: "length (sort_at (a - l) (b - l) ?X) = r + 1 - l" using l True assms by simp
    have "mset (sort_at (a - l) (b - l) ?X) = mset ?X"
    proof -
      have "?X = take (a - l) ?X @ segment (a - l) (b - l) ?X @ drop (b - l + 1) ?X"
        using split_segment[of "a - l" "b - l" ?X] l True assms by simp
      then have "mset ?X = mset (take (a - l) ?X) + mset (segment (a - l) (b - l) ?X) + mset (drop (b - l + 1) ?X)"
        by (metis mset_append union_assoc)
      then show ?thesis by (simp add: sort_at_def)
    qed
    moreover have "segment l r (sort_at a b xs) = sort_at (a - l) (b - l) ?X"
      unfolding e using l lX by (simp add: segment_def)
    moreover have "take l (sort_at a b xs) = ?P" unfolding e using l by simp
    moreover have "drop (r + 1) (sort_at a b xs) = ?Q" unfolding e using l lX assms True by simp
    ultimately show ?thesis by simp
  qed
  then show "take l (sort_at a b xs) = take l xs" "drop (r + 1) (sort_at a b xs) = drop (r + 1) xs"
    "mset (segment l r (sort_at a b xs)) = mset (segment l r xs)"
    "a \<le> b \<Longrightarrow> segment l r (sort_at a b xs) = sort_at (a - l) (b - l) (segment l r xs)" by simp_all
qed

lemma permuted_sorted_is_sort_at:
  assumes "l \<le> r + 1" "r < length xs" "length ys = length xs" "take l ys = take l xs" "drop (r + 1) ys = drop (r + 1) xs"
    and "mset (segment l r ys) = mset (segment l r xs)" "sorted (segment l r ys)"
  shows "ys = sort_at l r xs"
proof -
  have "sort (segment l r xs) = segment l r ys" using assms(6,7) by (intro properties_for_sort) simp_all
  then show ?thesis using split_segment[of l r ys] assms by (simp add: sort_at_def)
qed

section \<open>What each thread knows\<close>

text \<open>The calls of \<open>merge\<close> a thread that sorts in itself has still to make.\<close>

fun todo_calls :: "sort_todo list \<Rightarrow> merge_call list" where
  "todo_calls [] = []"
| "todo_calls (Sort l r # td) = merge_calls l r @ todo_calls td"
| "todo_calls (Merge l m r # td) = (l, m, r) # todo_calls td"

definition owns :: "(nat \<Rightarrow> nat) \<Rightarrow> nat \<Rightarrow> nat \<Rightarrow> nat \<Rightarrow> bool" where
  "owns own i l r \<longleftrightarrow> (\<forall>x. l \<le> x \<and> x \<le> r \<longrightarrow> own x = i)"

text \<open>A thread that \<open>i\<close> has created for a block and has not joined.\<close>

definition kid :: "(nat \<Rightarrow> nat) \<Rightarrow> sort_thread list \<Rightarrow> nat \<Rightarrow> nat \<Rightarrow> nat \<Rightarrow> nat \<Rightarrow> bool" where
  "kid par ths i c l r \<longleftrightarrow> i < c \<and> c < length ths \<and> par c = i \<and> \<not> joined (ths ! c) \<and>
     left_of (ths ! c) = l \<and> right_of (ths ! c) = r"

definition both_kids :: "(nat \<Rightarrow> nat) \<Rightarrow> sort_thread list \<Rightarrow> nat \<Rightarrow> bool" where
  "both_kids par ths i \<longleftrightarrow> (let th = ths ! i in
     \<exists>c d. c \<noteq> d \<and> kid par ths i c (left_of th) (mid_of th) \<and> kid par ths i d (mid_of th + 1) (right_of th) \<and>
       ran (thread_id th) \<subseteq> {c, d})"

definition one_kid :: "(nat \<Rightarrow> nat) \<Rightarrow> (nat \<Rightarrow> nat) \<Rightarrow> sort_thread list \<Rightarrow> int list \<Rightarrow> nat \<Rightarrow> nat \<Rightarrow> nat \<Rightarrow> nat \<Rightarrow> nat \<Rightarrow> bool" where
  "one_kid own par ths arr i l r l' r' \<longleftrightarrow> (let th = ths ! i in
     owns own i l r \<and> sorted (segment l r arr) \<and>
     (\<exists>c d. kid par ths i c l' r' \<and> ran (thread_id th) \<subseteq> {c, d} \<and>
        thread_id th (arg_id (arg1 th)) = Some d \<and> d < length ths \<and> joined (ths ! d) \<and> par d = i))"

text \<open>What is left when a creation has failed: at most one thread, and then one that cannot be joined again.\<close>

definition first_kid :: "(nat \<Rightarrow> nat) \<Rightarrow> sort_thread list \<Rightarrow> nat \<Rightarrow> bool" where
  "first_kid par ths i \<longleftrightarrow> (let th = ths ! i in
     thread_id th = Map.empty \<or> (\<exists>c. kid par ths i c (left_of th) (mid_of th) \<and> ran (thread_id th) \<subseteq> {c}))"

definition lone_kid :: "(nat \<Rightarrow> nat) \<Rightarrow> sort_thread list \<Rightarrow> nat \<Rightarrow> bool" where
  "lone_kid par ths i \<longleftrightarrow>
     thread_id (ths ! i) = Map.empty \<or> (\<exists>c l r. kid par ths i c l r \<and> ran (thread_id (ths ! i)) \<subseteq> {c})"

definition no_kid :: "(nat \<Rightarrow> nat) \<Rightarrow> sort_thread list \<Rightarrow> nat \<Rightarrow> bool" where
  "no_kid par ths i \<longleftrightarrow>
     (\<exists>d. ran (thread_id (ths ! i)) \<subseteq> {d} \<and> d < length ths \<and> joined (ths ! d) \<and> par d = i)"

definition halves :: "sort_thread \<Rightarrow> bool" where
  "halves th \<longleftrightarrow> mid_of th = (left_of th + right_of th) div 2"

lemma halves_update [simp]:
  "halves (th\<lparr>pc := p\<rparr>) = halves th" "halves (th\<lparr>arg1 := a\<rparr>) = halves th" "halves (th\<lparr>arg2 := a\<rparr>) = halves th"
  "halves (th\<lparr>idx := n\<rparr>) = halves th" "halves (th\<lparr>thread_id := s\<rparr>) = halves th"
  by (simp_all add: halves_def)

fun point_ok :: "sort_pc \<Rightarrow> (nat \<Rightarrow> nat) \<Rightarrow> (nat \<Rightarrow> nat) \<Rightarrow> sort_thread list \<Rightarrow> int list \<Rightarrow> nat \<Rightarrow> sort_thread \<Rightarrow> bool" where
  "point_ok At_Mode own par ths arr i th = (owns own i (left_of th) (right_of th) \<and> thread_id th = Map.empty)"
| "point_ok At_Arg1 own par ths arr i th = (halves th \<and> owns own i (left_of th) (right_of th) \<and> thread_id th = Map.empty)"
| "point_ok At_Arg2 own par ths arr i th = (halves th \<and> owns own i (mid_of th + 1) (right_of th) \<and>
     first_kid par ths i)"
| "point_ok At_Join1 own par ths arr i th = (halves th \<and> (both_kids par ths i \<or> lone_kid par ths i))"
| "point_ok At_Join2 own par ths arr i th = (halves th \<and>
     (one_kid own par ths arr i (left_of th) (mid_of th) (mid_of th + 1) (right_of th) \<or>
      one_kid own par ths arr i (mid_of th + 1) (right_of th) (left_of th) (mid_of th) \<or> no_kid par ths i))"
| "point_ok At_Merge own par ths arr i th = (halves th \<and> owns own i (left_of th) (right_of th) \<and>
     sorted (segment (left_of th) (mid_of th) arr) \<and> sorted (segment (mid_of th + 1) (right_of th) arr))"
| "point_ok At_Sort own par ths arr i th = (owns own i (left_of th) (right_of th) \<and>
     good_calls (left_of th) (todo_calls (todo th)) (segment (left_of th) (right_of th) arr) \<and>
     sorted (after_calls (left_of th) (todo_calls (todo th)) (segment (left_of th) (right_of th) arr)))"
| "point_ok At_End own par ths arr i th = (owns own i (left_of th) (right_of th) \<and>
     sorted (segment (left_of th) (right_of th) arr))"
| "point_ok p own par ths arr i th = (if p \<in> {At_Index1, At_Bump1, At_Create1}
     then halves th \<and> owns own i (left_of th) (right_of th) \<and> thread_id th = Map.empty \<and>
       arg_L (arg1 th) = left_of th \<and> arg_R (arg1 th) = mid_of th
     else halves th \<and> owns own i (mid_of th + 1) (right_of th) \<and> first_kid par ths i \<and>
       arg_L (arg2 th) = mid_of th + 1 \<and> arg_R (arg2 th) = right_of th)"

lemma halves_bounds: "halves th \<Longrightarrow> left_of th \<le> Suc (right_of th) \<Longrightarrow> mid_of th \<le> right_of th \<and> left_of th \<le> Suc (mid_of th)"
  unfolding halves_def by linarith

text \<open>A thread keeps what it knows while others run.\<close>

definition same_thread :: "sort_thread \<Rightarrow> sort_thread \<Rightarrow> bool" where
  "same_thread t t' \<longleftrightarrow> left_of t' = left_of t \<and> right_of t' = right_of t \<and> joined t' = joined t"

lemma point_ok_frame:
  assumes "point_ok p own par ths arr i (ths ! i)" and "ths' ! i = ths ! i" and "length ths \<le> length ths'"
    and "\<And>c. c < length ths \<Longrightarrow> par c = i \<Longrightarrow> par' c = i \<and> same_thread (ths ! c) (ths' ! c)"
    and "\<And>x. own x = i \<Longrightarrow> own' x = i"
    and seg: "\<And>l r. owns own i l r \<Longrightarrow> r \<le> right_of (ths ! i) \<Longrightarrow> segment l r arr' = segment l r arr"
    and "left_of (ths ! i) \<le> Suc (right_of (ths ! i))"
  shows "point_ok p own' par' ths' arr' i (ths' ! i)"
proof -
  have o: "owns own' i l r" if "owns own i l r" for l r using assms(5) that by (auto simp: owns_def)
  have k: "kid par' ths' i c l r" if "kid par ths i c l r" for c l r
    using that assms(3,4) by (auto simp: kid_def same_thread_def)
  have b: "both_kids par' ths' i" if "both_kids par ths i"
    using that k assms(2) by (auto simp: both_kids_def Let_def) blast+
  have d: "one_kid own' par' ths' arr' i l r l' r'" if one: "one_kid own par ths arr i l r l' r'" and le: "r \<le> right_of (ths ! i)" for l r l' r'
  proof -
    obtain c e where "kid par ths i c l' r'" "ran (thread_id (ths ! i)) \<subseteq> {c, e}"
      "thread_id (ths ! i) (arg_id (arg1 (ths ! i))) = Some e" "e < length ths" "joined (ths ! e)" "par e = i"
      and w: "owns own i l r" "sorted (segment l r arr)"
      using one unfolding one_kid_def Let_def by blast
    moreover have "joined (ths' ! e)" "e < length ths'" "par' e = i"
      using assms(3,4) calculation by (auto simp: same_thread_def)
    ultimately show ?thesis using k o[OF w(1)] seg[OF w(1) le] assms(2) by (auto simp: one_kid_def Let_def) blast
  qed
  have f: "first_kid par' ths' i" if "first_kid par ths i"
    using that k assms(2) by (auto simp: first_kid_def Let_def)
  have n: "lone_kid par' ths' i" if "lone_kid par ths i"
    using that k assms(2) by (auto simp: lone_kid_def) blast+
  have j: "no_kid par' ths' i" if none: "no_kid par ths i"
  proof -
    obtain e where e: "ran (thread_id (ths ! i)) \<subseteq> {e}" "e < length ths" "joined (ths ! e)" "par e = i"
      using none unfolding no_kid_def by blast
    then have "joined (ths' ! e)" "e < length ths'" "par' e = i" using assms(3,4) by (auto simp: same_thread_def)
    then show ?thesis using e(1) assms(2) unfolding no_kid_def by metis
  qed
  have s: "segment l r arr' = segment l r arr" if "owns own i (left_of (ths ! i)) (right_of (ths ! i))"
    "left_of (ths ! i) \<le> l" "r \<le> right_of (ths ! i)" for l r
    using that by (intro seg) (auto simp: owns_def)
  show ?thesis
    using assms(1) halves_bounds[OF _ assms(7)] unfolding assms(2)
    by (cases p) (auto dest: o k b d f n j simp: s)
qed

section \<open>The invariant\<close>

definition thread_inv :: "nat \<Rightarrow> nat \<Rightarrow> (nat \<Rightarrow> nat) \<Rightarrow> (nat \<Rightarrow> nat) \<Rightarrow> sort_thread list \<Rightarrow> int list \<Rightarrow> nat \<Rightarrow> bool" where
  "thread_inv left right own par ths arr i \<longleftrightarrow> (let th = ths ! i in
     left \<le> left_of th \<and> left_of th \<le> Suc (right_of th) \<and> right_of th \<le> right \<and>
     (if joined th then pc th = At_End else point_ok (pc th) own par ths arr i th))"

definition permuted :: "nat \<Rightarrow> nat \<Rightarrow> int list \<Rightarrow> int list \<Rightarrow> bool" where
  "permuted left right arr m \<longleftrightarrow> length m = length arr \<and> take left m = take left arr \<and>
     drop (right + 1) m = drop (right + 1) arr \<and> mset (segment left right m) = mset (segment left right arr)"

definition sort_inv :: "int list \<Rightarrow> nat \<Rightarrow> nat \<Rightarrow> (nat \<Rightarrow> nat) \<Rightarrow> (nat \<Rightarrow> nat) \<Rightarrow> sort_state \<Rightarrow> bool" where
  "sort_inv arr left right own par st \<longleftrightarrow> (let ths = sort_threads st in
     permuted left right arr (mem st) \<and> ths \<noteq> [] \<and>
     left_of (ths ! 0) = left \<and> right_of (ths ! 0) = right \<and> \<not> joined (ths ! 0) \<and>
     (\<forall>i < length ths. thread_inv left right own par ths (mem st) i))"

lemma kid_update [simp]: "kid par (ths[i := th]) i c l r = kid par ths i c l r"
  by (auto simp: kid_def)

lemma first_kid_update:
  "i < length ths \<Longrightarrow> left_of th = left_of (ths ! i) \<Longrightarrow> mid_of th = mid_of (ths ! i) \<Longrightarrow> thread_id th = thread_id (ths ! i) \<Longrightarrow>
     first_kid par (ths[i := th]) i = first_kid par ths i"
  by (simp add: first_kid_def Let_def)

lemma sort_invD:
  assumes "sort_inv arr left right own par st" and "i < length (sort_threads st)"
  shows "left \<le> left_of (sort_threads st ! i)" "left_of (sort_threads st ! i) \<le> Suc (right_of (sort_threads st ! i))"
    "right_of (sort_threads st ! i) \<le> right" "joined (sort_threads st ! i) \<Longrightarrow> pc (sort_threads st ! i) = At_End"
    "\<not> joined (sort_threads st ! i) \<Longrightarrow> point_ok (pc (sort_threads st ! i)) own par (sort_threads st) (mem st) i (sort_threads st ! i)"
    "permuted left right arr (mem st)"
  using assms by (auto simp: sort_inv_def thread_inv_def Let_def split: if_splits)

text \<open>What a thread keeps while another one changes its local variables and the part it owns.\<close>

lemma inv_put:
  assumes inv: "sort_inv arr left right own par st" and i: "i < length (sort_threads st)" "\<not> joined (sort_threads st ! i)"
    and th: "same_thread (sort_threads st ! i) th" "point_ok (pc th) own par ((sort_threads st)[i := th]) (mem st') i th"
    and st': "sort_threads st' = (sort_threads st)[i := th]" "permuted left right arr (mem st')"
    and seg: "\<And>j l r. j \<noteq> i \<Longrightarrow> owns own j l r \<Longrightarrow> r \<le> right \<Longrightarrow> segment l r (mem st') = segment l r (mem st)"
  shows "sort_inv arr left right own par st'"
proof -
  let ?ths = "sort_threads st"
  have "thread_inv left right own par (?ths[i := th]) (mem st') j" if j: "j < length ?ths" for j
  proof (cases "j = i")
    case True
    then show ?thesis using sort_invD[OF inv i(1)] th i by (auto simp: thread_inv_def same_thread_def Let_def)
  next
    case False
    have "point_ok (pc (?ths ! j)) own par (?ths[i := th]) (mem st') j (?ths[i := th] ! j)" if nj: "\<not> joined (?ths ! j)"
    proof (rule point_ok_frame[OF sort_invD(5)[OF inv j nj]])
      show "segment l r (mem st') = segment l r (mem st)" if "owns own j l r" "r \<le> right_of (?ths ! j)" for l r
        using seg[OF False that(1)] that(2) sort_invD(3)[OF inv j] by simp
      show "par c = j \<and> same_thread (?ths ! c) (?ths[i := th] ! c)" if "c < length ?ths" "par c = j" for c
        using that th(1) i by (cases "c = i") (auto simp: same_thread_def)
    qed (use False sort_invD[OF inv j] in auto)
    then show ?thesis using sort_invD[OF inv j] False by (auto simp: thread_inv_def Let_def)
  qed
  moreover have "left_of (?ths[i := th] ! 0) = left \<and> right_of (?ths[i := th] ! 0) = right \<and> \<not> joined (?ths[i := th] ! 0)"
    using inv th(1) i by (cases "i = 0") (auto simp: sort_inv_def Let_def same_thread_def)
  ultimately show ?thesis using inv st' by (auto simp: sort_inv_def Let_def)
qed

lemma inv_local:
  assumes "sort_inv arr left right own par st" and "i < length (sort_threads st)" "\<not> joined (sort_threads st ! i)"
    and "same_thread (sort_threads st ! i) th" "point_ok (pc th) own par ((sort_threads st)[i := th]) (mem st) i th"
  shows "sort_inv arr left right own par (put_thread i th (st\<lparr>thread_num := c\<rparr>))"
    "sort_inv arr left right own par (put_thread i th st)"
  using assms(4,5) sort_invD(6)[OF assms(1,2)]
  by (auto intro!: inv_put[OF assms(1-4)] simp: put_thread_def)

lemma sort_at_permuted:
  assumes "permuted left right arr m" "right < length arr" "left \<le> a" "a \<le> Suc b" "b \<le> right"
  shows "permuted left right arr (sort_at a b m)"
  using assms sort_at_inside[of left a b right m] length_sort_at_gen[of a b m] by (simp add: permuted_def)

lemma inv_merge:
  assumes inv: "sort_inv arr left right own par st" and i: "i < length (sort_threads st)" "\<not> joined (sort_threads st ! i)"
    and th: "same_thread (sort_threads st ! i) th"
    and ab: "right < length arr" "left_of th \<le> a" "a \<le> Suc b" "b \<le> right_of th" "owns own i a b"
    and ok: "point_ok (pc th) own par ((sort_threads st)[i := th]) (sort_at a b (mem st)) i th"
  shows "sort_inv arr left right own par (put_thread i th (st\<lparr>mem := sort_at a b (mem st)\<rparr>))"
proof (rule inv_put[OF inv i th, where st' = "put_thread i th (st\<lparr>mem := sort_at a b (mem st)\<rparr>)"])
  have l: "left \<le> left_of th" "right_of th \<le> right" using sort_invD[OF inv i(1)] th by (simp_all add: same_thread_def)
  have len: "length (mem st) = length arr" using sort_invD(6)[OF inv i(1)] by (simp add: permuted_def)
  show "permuted left right arr (mem (put_thread i th (st\<lparr>mem := sort_at a b (mem st)\<rparr>)))"
    using sort_at_permuted[OF sort_invD(6)[OF inv i(1)] ab(1) _ ab(3)] l ab by (simp add: put_thread_def)
  show "segment l' r' (mem (put_thread i th (st\<lparr>mem := sort_at a b (mem st)\<rparr>))) = segment l' r' (mem st)"
    if "j \<noteq> i" "owns own j l' r'" "r' \<le> right" for j l' r'
  proof -
    have "x < a \<or> b < x" if "l' \<le> x" "x \<le> r'" for x
      using ab(5) \<open>owns own j l' r'\<close> \<open>j \<noteq> i\<close> that by (auto simp: owns_def) (metis not_le)
    then show ?thesis using segment_sort_at_disjoint[of a b "mem st" r' l'] ab l len that(3) by (simp add: put_thread_def)
  qed
qed (use ok in \<open>simp_all add: put_thread_def\<close>)

section \<open>Creating and joining\<close>

lemma inv_create:
  assumes inv: "sort_inv arr left right own par st" and i: "i < length (sort_threads st)" "\<not> joined (sort_threads st ! i)"
    and same: "same_thread (sort_threads st ! i) th"
    and a: "own' = (\<lambda>x. if a \<le> x \<and> x \<le> b then length (sort_threads st) else own x)" "owns own i a b"
      "left_of (sort_threads st ! i) \<le> a" "a \<le> Suc b" "b \<le> right_of (sort_threads st ! i)"
    and new: "left_of new = a" "right_of new = b" "\<not> joined new" "par' = par(length (sort_threads st) := i)"
      "point_ok (pc new) own' par' ((sort_threads st)[i := th] @ [new]) (mem st) (length (sort_threads st)) new"
    and ok: "point_ok (pc th) own' par' ((sort_threads st)[i := th] @ [new]) (mem st) i th"
  shows "sort_inv arr left right own' par' (st\<lparr>sort_threads := (sort_threads st)[i := th] @ [new]\<rparr>)"
proof -
  let ?ths = "sort_threads st" and ?ths' = "(sort_threads st)[i := th] @ [new]"
  have "thread_inv left right own' par' ?ths' (mem st) j" if j: "j < length ?ths'" for j
  proof (cases "j = length ?ths \<or> j = i")
    case True
    then show ?thesis using sort_invD(1-3)[OF inv i(1)] same a new ok i
      by (auto simp: thread_inv_def Let_def nth_append same_thread_def)
  next
    case False
    then have jl: "j < length ?ths" using j by simp
    have "point_ok (pc (?ths ! j)) own' par' ?ths' (mem st) j (?ths' ! j)" if nj: "\<not> joined (?ths ! j)"
    proof (rule point_ok_frame[OF sort_invD(5)[OF inv jl nj]])
      show "own' x = j" if "own x = j" for x using that a(1,2) False by (auto simp: owns_def)
      show "par' c = j \<and> same_thread (?ths ! c) (?ths' ! c)" if "c < length ?ths" "par c = j" for c
        using that same i new(4) by (cases "c = i") (auto simp: same_thread_def nth_append)
    qed (use False jl sort_invD[OF inv jl] in \<open>auto simp: nth_append\<close>)
    then show ?thesis using sort_invD[OF inv jl] False jl by (auto simp: thread_inv_def Let_def nth_append)
  qed
  moreover have "left_of (?ths' ! 0) = left \<and> right_of (?ths' ! 0) = right \<and> \<not> joined (?ths' ! 0)"
    using inv same i by (cases "i = 0") (auto simp: sort_inv_def Let_def same_thread_def nth_append)
  ultimately show ?thesis using sort_invD(6)[OF inv i(1)] by (auto simp: sort_inv_def Let_def)
qed

lemma inv_join:
  assumes inv: "sort_inv arr left right own par st" and i: "i < length (sort_threads st)" "\<not> joined (sort_threads st ! i)"
    and same: "same_thread (sort_threads st ! i) th"
    and d: "kid par (sort_threads st) i d a b" "pc (sort_threads st ! d) = At_End"
    and ths': "ths' = (sort_threads st)[i := th, d := (sort_threads st ! d)\<lparr>joined := True\<rparr>]"
    and own': "own' = (\<lambda>x. if own x = d then i else own x)"
    and ok: "point_ok (pc th) own' par ths' (mem st) i th"
  shows "sort_inv arr left right own' par (st\<lparr>sort_threads := ths'\<rparr>)"
proof -
  let ?ths = "sort_threads st"
  have dk: "i < d" "d < length ?ths" "par d = i" using d(1) by (simp_all add: kid_def)
  have "thread_inv left right own' par ths' (mem st) j" if j: "j < length ?ths" for j
  proof (cases "j = i \<or> j = d")
    case True
    then show ?thesis using sort_invD(1-3)[OF inv i(1)] sort_invD(1-3)[OF inv dk(2)] same ok i dk d(2)
      by (auto simp: thread_inv_def Let_def ths' same_thread_def)
  next
    case False
    have "point_ok (pc (?ths ! j)) own' par ths' (mem st) j (ths' ! j)" if nj: "\<not> joined (?ths ! j)"
    proof (rule point_ok_frame[OF sort_invD(5)[OF inv j nj]])
      show "own' x = j" if "own x = j" for x using that own' False by auto
      show "par c = j \<and> same_thread (?ths ! c) (ths' ! c)" if "c < length ?ths" "par c = j" for c
        using that same i dk False by (cases "c = i"; cases "c = d") (auto simp: same_thread_def ths')
    qed (use False j sort_invD[OF inv j] in \<open>auto simp: ths'\<close>)
    then show ?thesis using sort_invD[OF inv j] False j by (auto simp: thread_inv_def Let_def ths')
  qed
  moreover have "left_of (ths' ! 0) = left \<and> right_of (ths' ! 0) = right \<and> \<not> joined (ths' ! 0)"
    using inv same i dk by (cases "i = 0") (auto simp: sort_inv_def Let_def same_thread_def ths')
  ultimately show ?thesis using sort_invD(6)[OF inv i(1)] i by (auto simp: sort_inv_def Let_def ths')
qed

section \<open>Every step keeps the invariant\<close>

lemma owns_part: "owns own i l r \<Longrightarrow> l \<le> l' \<Longrightarrow> r' \<le> r \<Longrightarrow> owns own i l' r'"
  by (auto simp: owns_def)

lemma new_thread_ok:
  assumes "arr_len > arg_R a" "length arr = arr_len" "arg_L a \<le> Suc (arg_R a)" "owns own n (arg_L a) (arg_R a)"
  shows "point_ok (pc (start_thread f a)) own par ths arr n (start_thread f a)"
proof (cases f)
  case Thread_Sort
  let ?s = "segment (arg_L a) (arg_R a) arr"
  have "good_calls (arg_L a) (merge_calls (arg_L a) (arg_R a)) ?s \<and> sorted (after_calls (arg_L a) (merge_calls (arg_L a) (arg_R a)) ?s)"
  proof (cases "arg_L a \<le> arg_R a")
    case True
    then show ?thesis using merge_calls_sort[OF True, of ?s] assms by (simp add: length_segment)
  qed (simp add: merge_calls.simps)
  then show ?thesis using assms Thread_Sort by (simp add: start_thread_def thread_sort_def enter_def)
qed (use assms in \<open>simp add: start_thread_def thread_create2_def enter_def\<close>)

lemma start_thread_fields [simp]:
  "left_of (start_thread f a) = arg_L a" "right_of (start_thread f a) = arg_R a" "joined (start_thread f a) = False"
  by (simp_all add: start_thread_def thread_sort_def thread_create2_def enter_def split: sort_start.split)

lemma step_create1:
  assumes inv: "sort_inv arr left right own par st" and r: "right < length arr" and i: "i < length (sort_threads st)"
    and p: "pc (sort_threads st ! i) = At_Create1"
    and step: "create_thread created i (arg1 (sort_threads st ! i)) At_Arg2 st = Inr st'" and ok: "created (length (sort_threads st))"
  shows "\<exists>own' par'. sort_inv arr left right own' par' st'"
proof -
  let ?th = "sort_threads st ! i" and ?n = "length (sort_threads st)"
  have nj: "\<not> joined ?th" using sort_invD(4)[OF inv i] p by auto
  have pt: "halves ?th" "owns own i (left_of ?th) (right_of ?th)" "thread_id ?th = Map.empty"
    "arg_L (arg1 ?th) = left_of ?th" "arg_R (arg1 ?th) = mid_of ?th"
    using sort_invD(5)[OF inv i nj] p by simp_all
  have b: "mid_of ?th \<le> right_of ?th" "left_of ?th \<le> Suc (mid_of ?th)" "right_of ?th \<le> right"
    using halves_bounds[OF pt(1)] sort_invD[OF inv i] by simp_all
  have len: "length (mem st) = length arr" using sort_invD(6)[OF inv i] by (simp add: permuted_def)
  define own' where "own' = (\<lambda>x. if left_of ?th \<le> x \<and> x \<le> mid_of ?th then ?n else own x)"
  define th where "th = ?th\<lparr>thread_id := (thread_id ?th)(idx ?th := Some ?n), pc := At_Arg2\<rparr>"
  have st': "st' = st\<lparr>sort_threads := (sort_threads st)[i := th] @ [start_thread (start_fn ?th) (arg1 ?th)]\<rparr>"
    using step ok by (simp add: create_thread_def Let_def th_def split: if_splits)
  show ?thesis unfolding st'
  proof (intro exI, rule inv_create[OF inv i nj _ own'_def _ _ _ _ _ _ _ refl])
    show "point_ok (pc (start_thread (start_fn ?th) (arg1 ?th))) own' (par(?n := i))
        ((sort_threads st)[i := th] @ [start_thread (start_fn ?th) (arg1 ?th)]) (mem st) ?n (start_thread (start_fn ?th) (arg1 ?th))"
      by (rule new_thread_ok[OF _ refl]) (use pt b len r in \<open>auto simp: own'_def owns_def\<close>)
    have "owns own' i (Suc (mid_of ?th)) (right_of ?th)" using pt(2) b(2) by (auto simp: owns_def own'_def)
    moreover have "kid (par(?n := i)) ((sort_threads st)[i := th] @ [start_thread (start_fn ?th) (arg1 ?th)]) i ?n (left_of ?th) (mid_of ?th)"
      using i pt by (simp add: kid_def nth_append)
    ultimately show "point_ok (pc th) own' (par(?n := i)) ((sort_threads st)[i := th] @ [start_thread (start_fn ?th) (arg1 ?th)]) (mem st) i th"
      using pt i by (auto simp: th_def halves_def first_kid_def nth_append)
  qed (use pt b in \<open>auto simp: th_def same_thread_def owns_def\<close>)
qed

lemma ran_fun_upd_subset: "ran m \<subseteq> S \<Longrightarrow> ran (m(x := y)) \<subseteq> (case y of None \<Rightarrow> S | Some z \<Rightarrow> insert z S)"
  by (auto simp: ran_def split: option.splits if_splits)

lemma step_create2:
  assumes inv: "sort_inv arr left right own par st" and r: "right < length arr" and i: "i < length (sort_threads st)"
    and p: "pc (sort_threads st ! i) = At_Create2"
    and step: "create_thread created i (arg2 (sort_threads st ! i)) At_Join1 st = Inr st'" and ok: "created (length (sort_threads st))"
  shows "\<exists>own' par'. sort_inv arr left right own' par' st'"
proof -
  let ?th = "sort_threads st ! i" and ?n = "length (sort_threads st)"
  have nj: "\<not> joined ?th" using sort_invD(4)[OF inv i] p by auto
  have pt: "halves ?th" "owns own i (mid_of ?th + 1) (right_of ?th)" "first_kid par (sort_threads st) i"
    "arg_L (arg2 ?th) = mid_of ?th + 1" "arg_R (arg2 ?th) = right_of ?th"
    using sort_invD(5)[OF inv i nj] p by simp_all
  have b: "mid_of ?th \<le> right_of ?th" "left_of ?th \<le> Suc (mid_of ?th)" "right_of ?th \<le> right"
    using halves_bounds[OF pt(1)] sort_invD[OF inv i] by simp_all
  have len: "length (mem st) = length arr" using sort_invD(6)[OF inv i] by (simp add: permuted_def)
  define own' where "own' = (\<lambda>x. if mid_of ?th + 1 \<le> x \<and> x \<le> right_of ?th then ?n else own x)"
  define th where "th = ?th\<lparr>thread_id := (thread_id ?th)(idx ?th := Some ?n), pc := At_Join1\<rparr>"
  define ths' where "ths' = (sort_threads st)[i := th] @ [start_thread (start_fn ?th) (arg2 ?th)]"
  have st': "st' = st\<lparr>sort_threads := (sort_threads st)[i := th] @ [start_thread (start_fn ?th) (arg2 ?th)]\<rparr>"
    using step ok by (simp add: create_thread_def Let_def th_def split: if_splits)
  have kn: "kid (par(?n := i)) ths' i ?n (mid_of ?th + 1) (right_of ?th)"
    using i pt by (simp add: kid_def nth_append ths'_def)
  have thi: "ths' ! i = th" using i by (simp add: ths'_def nth_append)
  have kids: "both_kids (par(?n := i)) ths' i \<or> lone_kid (par(?n := i)) ths' i"
  proof (cases "thread_id ?th = Map.empty")
    case True
    then have "ran (thread_id th) \<subseteq> {?n}" by (simp add: th_def)
    then show ?thesis using kn thi by (auto simp: lone_kid_def)
  next
    case False
    then obtain c where c: "kid par (sort_threads st) i c (left_of ?th) (mid_of ?th)" "ran (thread_id ?th) \<subseteq> {c}"
      using pt(3) by (auto simp: first_kid_def Let_def)
    then have "kid (par(?n := i)) ths' i c (left_of ?th) (mid_of ?th)" "c \<noteq> ?n"
      using i by (auto simp: kid_def nth_append ths'_def)
    moreover have "ran (thread_id th) \<subseteq> {c, ?n}" using ran_fun_upd_subset[OF c(2), of "idx ?th" "Some ?n"] by (auto simp: th_def)
    ultimately show ?thesis using kn unfolding both_kids_def thi Let_def by (auto simp: th_def)
  qed
  show ?thesis unfolding st'
  proof (intro exI, rule inv_create[OF inv i nj _ own'_def _ _ _ _ _ _ _ refl])
    show "point_ok (pc (start_thread (start_fn ?th) (arg2 ?th))) own' (par(?n := i))
        ((sort_threads st)[i := th] @ [start_thread (start_fn ?th) (arg2 ?th)]) (mem st) ?n (start_thread (start_fn ?th) (arg2 ?th))"
      by (rule new_thread_ok[OF _ refl]) (use pt b len r in \<open>auto simp: own'_def owns_def\<close>)
    show "point_ok (pc th) own' (par(?n := i)) ((sort_threads st)[i := th] @ [start_thread (start_fn ?th) (arg2 ?th)]) (mem st) i th"
      using pt(1) kids unfolding ths'_def[symmetric] by (simp add: th_def halves_def)
  qed (use pt b in \<open>auto simp: th_def same_thread_def owns_def\<close>)
qed

text \<open>A creation that fails changes nothing but the element of \<open>thread_id\<close>.\<close>

lemma step_create_fails:
  assumes inv: "sort_inv arr left right own par st" and i: "i < length (sort_threads st)"
    and p: "pc (sort_threads st ! i) = At_Create1 \<and> q = At_Arg2 \<or> pc (sort_threads st ! i) = At_Create2 \<and> q = At_Join1"
    and step: "create_thread created i a q st = Inr st'" and no: "\<not> created (length (sort_threads st))"
  shows "sort_inv arr left right own par st'"
proof -
  let ?th = "sort_threads st ! i"
  define th where "th = ?th\<lparr>thread_id := (thread_id ?th)(idx ?th := None), pc := q\<rparr>"
  have nj: "\<not> joined ?th" using sort_invD(4)[OF inv i] p by auto
  have st': "st' = put_thread i th st"
    using step no by (simp add: create_thread_def Let_def th_def put_thread_def split: if_splits)
  have sub: "ran (thread_id th) \<subseteq> ran (thread_id ?th)" by (auto simp: th_def ran_def split: if_splits)
  have e: "thread_id ?th = Map.empty \<Longrightarrow> thread_id th = Map.empty" by (simp add: th_def)
  note pt = sort_invD(5)[OF inv i nj]
  have b: "left_of ?th \<le> Suc (mid_of ?th)" if "halves ?th" using halves_bounds[OF that] sort_invD[OF inv i] by simp
  have "point_ok (pc th) own par ((sort_threads st)[i := th]) (mem st) i th"
  proof (cases "pc ?th = At_Create1")
    case True
    then show ?thesis using p pt b e i by (auto simp: th_def halves_def first_kid_def intro: owns_part)
  next
    case False
    then have "pc ?th = At_Create2" "q = At_Join1" using p by auto
    moreover have "lone_kid par ((sort_threads st)[i := th]) i"
    proof (cases "thread_id ?th = Map.empty")
      case False
      then obtain c where c: "kid par (sort_threads st) i c (left_of ?th) (mid_of ?th)" "ran (thread_id ?th) \<subseteq> {c}"
        using pt calculation by (auto simp: first_kid_def Let_def)
      have "ran (thread_id th) \<subseteq> {c}" using sub c(2) by blast
      then show ?thesis using c(1) i unfolding lone_kid_def by auto
    qed (use e i in \<open>auto simp: lone_kid_def\<close>)
    ultimately show ?thesis using pt by (simp add: th_def halves_def)
  qed
  then show ?thesis unfolding st' by (intro inv_local[OF inv i nj]) (simp_all add: th_def same_thread_def)
qed

lemma ended_kid:
  assumes inv: "sort_inv arr left right own par st" and "kid par (sort_threads st) i d l r" "pc (sort_threads st ! d) = At_End"
  shows "owns own d l r" "sorted (segment l r (mem st))"
  using assms sort_invD(5)[OF inv, of d] by (auto simp: kid_def)

lemma join_thread_Inr:
  assumes "join_thread i n q st = Inr st'" and "join_ready i n st"
  obtains d where "thread_id (sort_threads st ! i) n = Some d" "\<not> joined (sort_threads st ! d)"
    "pc (sort_threads st ! d) = At_End"
    "st' = st\<lparr>sort_threads := (sort_threads st)[i := (sort_threads st ! i)\<lparr>pc := q\<rparr>, d := (sort_threads st ! d)\<lparr>joined := True\<rparr>]\<rparr>"
  using assms by (auto simp: join_thread_def join_ready_def Let_def split: if_splits option.splits)

lemma step_join1:
  assumes inv: "sort_inv arr left right own par st" and i: "i < length (sort_threads st)"
    and p: "pc (sort_threads st ! i) = At_Join1"
    and step: "join_thread i (arg_id (arg1 (sort_threads st ! i))) At_Join2 st = Inr st'"
    and ready: "join_ready i (arg_id (arg1 (sort_threads st ! i))) st"
  shows "\<exists>own' par'. sort_inv arr left right own' par' st'"
proof -
  let ?th = "sort_threads st ! i" and ?ths = "sort_threads st"
  define th where "th = ?th\<lparr>pc := At_Join2\<rparr>"
  obtain d where d: "thread_id ?th (arg_id (arg1 ?th)) = Some d" "\<not> joined (?ths ! d)" "pc (?ths ! d) = At_End"
    and st': "st' = st\<lparr>sort_threads := ?ths[i := th, d := (?ths ! d)\<lparr>joined := True\<rparr>]\<rparr>"
    using join_thread_Inr[OF step ready] unfolding th_def by metis
  define own' where "own' = (\<lambda>x. if own x = d then i else own x)"
  define ths' where "ths' = ?ths[i := th, d := (?ths ! d)\<lparr>joined := True\<rparr>]"
  have nj: "\<not> joined ?th" using sort_invD(4)[OF inv i] p by auto
  have dr: "d \<in> ran (thread_id ?th)" using d(1) by (auto simp: ran_def)
  have pt: "halves ?th" "both_kids par ?ths i \<or> lone_kid par ?ths i" using sort_invD(5)[OF inv i nj] p by simp_all
  have done1: "thread_id (ths' ! i) (arg_id (arg1 (ths' ! i))) = Some d \<and> d < length ths' \<and> joined (ths' ! d) \<and> par d = i \<and>
      thread_id (ths' ! i) = thread_id ?th"
    if "kid par ?ths i d a b" for a b
    using that d(1) i unfolding ths'_def by (auto simp: kid_def th_def)
  have keep: "kid par ths' i c a b" if "kid par ?ths i c a b" "c \<noteq> d" for c a b
    using that i unfolding ths'_def by (auto simp: kid_def)
  have mine: "owns own' i a b \<and> sorted (segment a b (mem st))" if "kid par ?ths i d a b" for a b
    using ended_kid[OF inv that d(3)] by (auto simp: owns_def own'_def)
  have "\<exists>a b. kid par ?ths i d a b \<and> (one_kid own' par ths' (mem st) i (left_of ?th) (mid_of ?th) (mid_of ?th + 1) (right_of ?th) \<or>
      one_kid own' par ths' (mem st) i (mid_of ?th + 1) (right_of ?th) (left_of ?th) (mid_of ?th) \<or> no_kid par ths' i)"
    using pt(2)
  proof
    assume "both_kids par ?ths i"
    then obtain c e where k: "c \<noteq> e" "kid par ?ths i c (left_of ?th) (mid_of ?th)" "kid par ?ths i e (mid_of ?th + 1) (right_of ?th)"
      and ran: "ran (thread_id ?th) \<subseteq> {c, e}" unfolding both_kids_def Let_def by blast
    then consider "d = c" | "d = e" using dr by blast
    then show ?thesis
    proof cases
      case 1
      then have "one_kid own' par ths' (mem st) i (left_of ?th) (mid_of ?th) (mid_of ?th + 1) (right_of ?th)"
        using mine[of "left_of ?th" "mid_of ?th"] done1[of "left_of ?th" "mid_of ?th"] keep[OF k(3)] k ran 1
        unfolding one_kid_def Let_def by (intro conjI exI[of _ e] exI[of _ d]) auto
      then show ?thesis using k 1 by auto
    next
      case 2
      then have "one_kid own' par ths' (mem st) i (mid_of ?th + 1) (right_of ?th) (left_of ?th) (mid_of ?th)"
        using mine[of "mid_of ?th + 1" "right_of ?th"] done1[of "mid_of ?th + 1" "right_of ?th"] keep[OF k(2)] k ran 2
        unfolding one_kid_def Let_def by (intro conjI exI[of _ c] exI[of _ d]) auto
      then show ?thesis using k 2 by auto
    qed
  next
    assume "lone_kid par ?ths i"
    then obtain c a b where k: "kid par ?ths i c a b" "ran (thread_id ?th) \<subseteq> {c}"
      using d(1) by (auto simp: lone_kid_def)
    then have "d = c" using dr by blast
    then show ?thesis using k done1[of a b] unfolding no_kid_def by auto
  qed
  then obtain a b where kd: "kid par ?ths i d a b"
    and ok: "one_kid own' par ths' (mem st) i (left_of ?th) (mid_of ?th) (mid_of ?th + 1) (right_of ?th) \<or>
      one_kid own' par ths' (mem st) i (mid_of ?th + 1) (right_of ?th) (left_of ?th) (mid_of ?th) \<or> no_kid par ths' i" by blast
  have "sort_inv arr left right own' par st'" unfolding st'
    by (rule inv_join[OF inv i nj _ kd d(3) refl own'_def])
      (use pt(1) ok in \<open>simp_all add: ths'_def th_def same_thread_def halves_def\<close>)
  then show ?thesis by blast
qed

lemma step_join2:
  assumes inv: "sort_inv arr left right own par st" and i: "i < length (sort_threads st)"
    and p: "pc (sort_threads st ! i) = At_Join2"
    and step: "join_thread i (arg_id (arg2 (sort_threads st ! i))) At_Merge st = Inr st'"
    and ready: "join_ready i (arg_id (arg2 (sort_threads st ! i))) st"
  shows "\<exists>own' par'. sort_inv arr left right own' par' st'"
proof -
  let ?th = "sort_threads st ! i" and ?ths = "sort_threads st"
  define th where "th = ?th\<lparr>pc := At_Merge\<rparr>"
  obtain d where d: "thread_id ?th (arg_id (arg2 ?th)) = Some d" "\<not> joined (?ths ! d)" "pc (?ths ! d) = At_End"
    and st': "st' = st\<lparr>sort_threads := ?ths[i := th, d := (?ths ! d)\<lparr>joined := True\<rparr>]\<rparr>"
    using join_thread_Inr[OF step ready] unfolding th_def by metis
  define own' where "own' = (\<lambda>x. if own x = d then i else own x)"
  have nj: "\<not> joined ?th" using sort_invD(4)[OF inv i] p by auto
  have dr: "d \<in> ran (thread_id ?th)" using d(1) by (auto simp: ran_def)
  have h: "halves ?th" using sort_invD(5)[OF inv i nj] p by simp
  have one: "kid par ?ths i d l' r' \<and> owns own' i l r \<and> sorted (segment l r (mem st)) \<and>
      owns own' i l' r' \<and> sorted (segment l' r' (mem st))"
    if one_kid: "one_kid own par ?ths (mem st) i l r l' r'" for l r l' r'
  proof -
    obtain c e where c: "kid par ?ths i c l' r'" "ran (thread_id ?th) \<subseteq> {c, e}" "joined (?ths ! e)"
      "owns own i l r" "sorted (segment l r (mem st))"
      using one_kid unfolding one_kid_def Let_def by blast
    then have "d = c" using dr d(2) by blast
    then show ?thesis using c ended_kid[OF inv c(1)] d(3) by (auto simp: owns_def own'_def)
  qed
  have "\<not> no_kid par ?ths i" using dr d(2) by (auto simp: no_kid_def)
  then have "one_kid own par ?ths (mem st) i (left_of ?th) (mid_of ?th) (mid_of ?th + 1) (right_of ?th) \<or>
      one_kid own par ?ths (mem st) i (mid_of ?th + 1) (right_of ?th) (left_of ?th) (mid_of ?th)"
    using sort_invD(5)[OF inv i nj] p by simp
  then obtain a b where kd: "kid par ?ths i d a b"
    and ok: "owns own' i (left_of ?th) (mid_of ?th)" "owns own' i (mid_of ?th + 1) (right_of ?th)"
      "sorted (segment (left_of ?th) (mid_of ?th) (mem st))" "sorted (segment (mid_of ?th + 1) (right_of ?th) (mem st))"
    using one by metis
  have "owns own' i (left_of ?th) (right_of ?th)" using ok(1,2) by (auto simp: owns_def) (metis not_less_eq_eq)
  then have "sort_inv arr left right own' par st'" unfolding st'
    by (intro inv_join[OF inv i nj _ kd d(3) refl own'_def])
      (use h ok in \<open>simp_all add: th_def same_thread_def halves_def\<close>)
  then show ?thesis by blast
qed

lemma step_merge:
  assumes mg: "merge_runs_ok mg" and inv: "sort_inv arr left right own par st" and r: "right < length arr"
    and i: "i < length (sort_threads st)" and p: "pc (sort_threads st ! i) = At_Merge"
  shows "\<exists>st'. sort_step mg created i st = Inr st' \<and> sort_inv arr left right own par st'"
proof -
  let ?th = "sort_threads st ! i"
  let ?l = "left_of ?th" and ?m = "mid_of ?th" and ?r = "right_of ?th"
  have nj: "\<not> joined ?th" using sort_invD(4)[OF inv i] p by auto
  have pt: "halves ?th" "owns own i ?l ?r" "sorted (segment ?l ?m (mem st))" "sorted (segment (?m + 1) ?r (mem st))"
    using sort_invD(5)[OF inv i nj] p by simp_all
  have b: "?m \<le> ?r" "?l \<le> Suc ?m" "?r \<le> right" "?l \<le> Suc ?r" "left \<le> ?l"
    using halves_bounds[OF pt(1)] sort_invD[OF inv i] by simp_all
  have len: "length (mem st) = length arr" using sort_invD(6)[OF inv i] by (simp add: permuted_def)
  have merged: "mg (mem st) ?l ?m ?r = sort_at ?l ?r (mem st)"
    using mg pt b r len unfolding merge_runs_ok_def by simp
  have "sorted (segment ?l ?r (sort_at ?l ?r (mem st)))"
  proof (cases "?l \<le> ?r")
    case True
    then have "segment ?l ?r (sort_at ?l ?r (mem st)) = sort_at 0 (?r - ?l) (segment ?l ?r (mem st))"
      using sort_at_inside(4)[of ?l ?l ?r ?r "mem st"] b r len by simp
    also have "\<dots> = sort (segment ?l ?r (mem st))"
      using length_segment[of ?l ?r "mem st"] True b r len by (simp add: sort_at_def segment_all)
    finally show ?thesis by simp
  qed simp
  then have "sort_inv arr left right own par
      (put_thread i (?th\<lparr>pc := At_End\<rparr>) (st\<lparr>mem := sort_at ?l ?r (mem st)\<rparr>))"
    by (intro inv_merge[OF inv i nj]) (use pt b r in \<open>simp_all add: same_thread_def\<close>)
  then show ?thesis using p merged b r len by (simp add: sort_step_def Let_def call_merge_def)
qed

text \<open>A thread that sorts in itself.\<close>

definition small :: "sort_todo list \<Rightarrow> bool" where
  "small td \<longleftrightarrow> (\<forall>l r. Sort l r \<in> set td \<longrightarrow> l \<le> r \<longrightarrow> r < 2 ^ 30)"

lemma step_sort:
  assumes mg: "merge_runs_ok mg" and inv: "sort_inv arr left right own par st" and r: "right < length arr"
    and i: "i < length (sort_threads st)" and p: "pc (sort_threads st ! i) = At_Sort"
  shows "(case sort_step mg created i st of Inr st' \<Rightarrow> sort_inv arr left right own par st'
    | Inl e \<Rightarrow> \<not> small (todo (sort_threads st ! i)))"
proof -
  let ?th = "sort_threads st ! i"
  let ?l = "left_of ?th" and ?r = "right_of ?th" and ?X = "segment (left_of ?th) (right_of ?th) (mem st)"
  have nj: "\<not> joined ?th" using sort_invD(4)[OF inv i] p by auto
  have pt: "owns own i ?l ?r" "good_calls ?l (todo_calls (todo ?th)) ?X" "sorted (after_calls ?l (todo_calls (todo ?th)) ?X)"
    using sort_invD(5)[OF inv i nj] p by simp_all
  have b: "?r \<le> right" "?l \<le> Suc ?r" "left \<le> ?l" using sort_invD[OF inv i] by simp_all
  have len: "length (mem st) = length arr" using sort_invD(6)[OF inv i] by (simp add: permuted_def)
  have keep: "sort_inv arr left right own par (put_thread i (?th\<lparr>todo := td, pc := if td = [] then At_End else At_Sort\<rparr>) st)"
    if "todo_calls td = todo_calls (todo ?th)" for td
    by (intro inv_local[OF inv i nj]) (use pt that in \<open>auto simp: same_thread_def\<close>)
  show ?thesis
  proof (cases "todo ?th")
    case Nil
    then show ?thesis using keep[of "[]"] p by (simp add: sort_step_def Let_def)
  next
    case (Cons x td)
    show ?thesis
    proof (cases x)
      case (Sort a c)
      then show ?thesis
      proof (cases "a < c")
        case True
        let ?m = "(a + c) div 2"
        have "todo_calls ([Sort a ?m, Sort (?m + 1) c, Merge a ?m c] @ td) = todo_calls (todo ?th)"
          using Cons Sort True by (simp add: merge_calls.simps[of a c] Let_def)
        note k = keep[OF this]
        have "a + c < 2 ^ 31" if "small (todo ?th)" using that True Cons Sort
          by (auto simp: small_def imp_disjL imp_conjL all_conj_distrib)
        then show ?thesis using k p Cons Sort True by (auto simp: sort_step_def Let_def midpoint_def)
      next
        case False
        then have "todo_calls td = todo_calls (todo ?th)" using Cons Sort by (simp add: merge_calls.simps)
        then show ?thesis using keep[of td] p Cons Sort False by (simp add: sort_step_def Let_def)
      qed
    next
      case (Merge a m c)
      have g: "good_calls ?l ((a, m, c) # todo_calls td) ?X" using pt Cons Merge by simp
      then have ac: "?l \<le> a" "a \<le> m" "m \<le> c" "c < ?l + length ?X" by simp_all
      then have cr: "c \<le> ?r" using length_segment[of ?l ?r "mem st"] b len r by simp
      have P: "length (take ?l (mem st)) = ?l" using b len r ac cr by simp
      have mem: "mem st = take ?l (mem st) @ ?X @ drop (?r + 1) (mem st)"
        using split_segment[of ?l ?r "mem st"] b len r by simp
      have call: "call_merge mg (a, m, c) (mem st) = Inr (sort_at a c (mem st))"
        using merge_block[OF merge_runs_ok_merge_ok[OF mg] P g, of "drop (?r + 1) (mem st)"]
          sort_at_block[of "take ?l (mem st)" a c ?X "drop (?r + 1) (mem st)"] ac P mem by simp
      have seg: "segment ?l ?r (sort_at a c (mem st)) = sort_at (a - ?l) (c - ?l) ?X"
        using sort_at_inside(4)[of ?l a c ?r "mem st"] ac cr b len r by simp
      have "sort_inv arr left right own par (put_thread i (?th\<lparr>todo := td, pc := if td = [] then At_End else At_Sort\<rparr>)
          (st\<lparr>mem := sort_at a c (mem st)\<rparr>))"
        by (intro inv_merge[OF inv i nj])
          (use pt g ac cr b r seg Cons Merge in \<open>auto simp: same_thread_def intro: owns_part\<close>)
      then show ?thesis using p Cons Merge call by (simp add: sort_step_def Let_def)
    qed
  qed
qed

lemma inv_start:
  assumes "left \<le> right"
  shows "sort_inv arr left right (\<lambda>_. 0) (\<lambda>_. 0) (sort_call c arr left right)"
  using assms by (auto simp: sort_inv_def sort_call_def enter_def thread_inv_def permuted_def owns_def)

lemma inv_step:
  assumes mg: "merge_runs_ok mg" and inv: "sort_inv arr left right own par st" and r: "right < length arr"
    and can: "can_step i st" and step: "sort_step mg created i st = Inr st'"
  shows "\<exists>own' par'. sort_inv arr left right own' par' st'"
proof -
  let ?th = "sort_threads st ! i"
  have i: "i < length (sort_threads st)" using can by (simp add: can_step_def)
  have nj: "\<not> joined ?th" using sort_invD(4)[OF inv i] can by (auto simp: can_step_def Let_def)
  note pt = sort_invD(5)[OF inv i nj]
  have b: "left_of ?th \<le> Suc (mid_of ?th)" if "halves ?th" using halves_bounds[OF that] sort_invD[OF inv i] by simp
  note loc = inv_local[OF inv i nj]
  show ?thesis
  proof (cases "pc ?th")
    case At_Create1
    then show ?thesis
      using step_create1[OF inv r i At_Create1] step_create_fails[OF inv i] step by (fastforce simp: sort_step_def Let_def)
  next
    case At_Create2
    then show ?thesis
      using step_create2[OF inv r i At_Create2] step_create_fails[OF inv i] step by (fastforce simp: sort_step_def Let_def)
  next
    case At_Join1
    then show ?thesis using step_join1[OF inv i At_Join1] step can by (simp add: sort_step_def can_step_def Let_def)
  next
    case At_Join2
    then show ?thesis using step_join2[OF inv i At_Join2] step can by (simp add: sort_step_def can_step_def Let_def)
  next
    case At_Merge
    then show ?thesis using step_merge[OF mg inv r i At_Merge, of created] step by auto
  next
    case At_Sort
    then show ?thesis using step_sort[OF mg inv r i At_Sort, of created] step by auto
  next
    case At_End
    then show ?thesis using can by (simp add: can_step_def Let_def)
  next
    case At_Mode
    then have "st' = put_thread i (?th\<lparr>mid_of := (left_of ?th + right_of ?th) div 2,
        start_fn := (if thread_num st \<le> 1 then Thread_Create2 else Thread_Sort), pc := At_Arg1\<rparr>) st"
      using step by (auto simp: sort_step_def Let_def res_simps)
    then show ?thesis using pt At_Mode by (auto intro!: loc(2) exI simp: same_thread_def halves_def)
  next
    case At_Arg1
    then obtain a where "st' = put_thread i (?th\<lparr>arg1 := a, pc := At_Index1\<rparr>) st" "arg_L a = left_of ?th" "arg_R a = mid_of ?th"
      using step by (auto simp: sort_step_def Let_def res_simps)
    then show ?thesis using pt At_Arg1 by (auto intro!: loc(2) exI simp: same_thread_def halves_def)
  next
    case At_Arg2
    then obtain a where "st' = put_thread i (?th\<lparr>arg2 := a, pc := At_Index2\<rparr>) st" "arg_L a = mid_of ?th + 1" "arg_R a = right_of ?th"
      using step by (auto simp: sort_step_def Let_def res_simps)
    then show ?thesis using pt At_Arg2 i by (auto intro!: loc(2) exI simp: same_thread_def first_kid_update)
  next
    case At_Index1
    then show ?thesis using step pt by (auto intro!: loc(2) exI simp: sort_step_def Let_def same_thread_def halves_def)
  next
    case At_Index2
    then show ?thesis using step pt i
      by (auto intro!: loc(2) exI simp: sort_step_def Let_def same_thread_def first_kid_update)
  next
    case At_Bump1
    then show ?thesis using step pt
      by (auto intro!: loc(1) exI simp: sort_step_def Let_def same_thread_def halves_def split: if_splits)
  next
    case At_Bump2
    then show ?thesis using step pt i
      by (auto intro!: loc(1) exI simp: sort_step_def Let_def same_thread_def first_kid_update split: if_splits)
  qed
qed

lemma inv_run:
  assumes "sort_run sched mg created n st st'" and "merge_runs_ok mg" and "right < length arr"
    and "sort_inv arr left right own par st"
  shows "\<exists>own' par'. sort_inv arr left right own' par' st'"
  using assms
proof (induction rule: sort_run.induct)
  case (step n st st1 i st2)
  then show ?case using inv_step by metis
qed blast

end
