(* ===== verification/Threadsort_Props.thy ===== *)
theory Threadsort_Props
  imports Threadsort_Inv
begin

text \<open>
  What the multi-threaded sort does: a sorted array whenever it returns, under every schedule; a run
  in which two threads number their threads at once and one joins what is not a thread; and, when the
  schedule keeps these lines apart, the end of every run.
\<close>

section \<open>The result\<close>

text \<open>C24: Under every schedule of the threads, whatever becomes of the updates of \<open>thread_num\<close> and
  whichever creations of threads fail: when the sort returns, the sub-array is sorted and nothing else
  has changed. Every thread merges in its own block, and no caller goes on before both of its threads
  have ended.\<close>

theorem threads_sort:
  assumes "merge_runs_ok mg" and "left \<le> right" and "right < length arr"
    and "sort_run any_order mg created n (sort_call c arr left right) st"
    and "pc (sort_threads st ! 0) = At_End"
  shows "mem st = sort_at left right arr"
proof -
  obtain own par where inv: "sort_inv arr left right own par st"
    using inv_run[OF assms(4,1,3) inv_start[OF assms(2)]] by blast
  then have t: "sort_threads st \<noteq> []" "left_of (sort_threads st ! 0) = left" "right_of (sort_threads st ! 0) = right"
    "\<not> joined (sort_threads st ! 0)" "permuted left right arr (mem st)"
    by (simp_all add: sort_inv_def Let_def)
  then have "sorted (segment left right (mem st))" using sort_invD(5)[OF inv, of 0] assms(5) by simp
  then show ?thesis
    using t(5) assms(2,3) by (intro permuted_sorted_is_sort_at) (simp_all add: permuted_def)
qed

section \<open>Orderly runs: the counter\<close>

text \<open>How often a thread has raised the counter, and how many threads it has created.\<close>

fun bumps :: "sort_pc \<Rightarrow> nat" where
  "bumps At_Mode = 0"
| "bumps At_Arg1 = 0"
| "bumps At_Index1 = 0"
| "bumps At_Bump1 = 0"
| "bumps At_Create1 = 1"
| "bumps At_Arg2 = 1"
| "bumps At_Index2 = 1"
| "bumps At_Bump2 = 1"
| "bumps _ = 2"

fun made :: "sort_pc \<Rightarrow> nat" where
  "made At_Mode = 0"
| "made At_Arg1 = 0"
| "made At_Index1 = 0"
| "made At_Bump1 = 0"
| "made At_Create1 = 0"
| "made At_Arg2 = 1"
| "made At_Index2 = 1"
| "made At_Bump2 = 1"
| "made At_Create2 = 1"
| "made _ = 2"

text \<open>The caller is alone until it has created its first thread; that one waits at the beginning while
  the second is created; then these two create the threads that sort.\<close>

fun counter_inv :: "nat \<Rightarrow> sort_pc list \<Rightarrow> bool" where
  "counter_inv n [] = False"
| "counter_inv n [a] = (made a = 0 \<and> n = bumps a)"
| "counter_inv n [a, b] = (made a = 1 \<and> b = At_Mode \<and> n = bumps a)"
| "counter_inv n (a # b # d # rest) = (made a = 2 \<and> a \<noteq> At_Sort \<and> b \<noteq> At_Sort \<and> d \<noteq> At_Sort \<and>
     n = 2 + bumps b + bumps d \<and> length rest = made b + made d \<and> set rest \<subseteq> {At_Sort, At_End} \<and>
     \<not> (numbering b \<and> numbering d))"

lemma made_numbering:
  "made p = 2 \<Longrightarrow> \<not> numbering p" "made p = 1 \<Longrightarrow> numbering p" "made p = 0 \<Longrightarrow> \<not> numbering p \<Longrightarrow> p = At_Mode"
  by (cases p; simp add: numbering_def)+

lemma not_numbering [simp]: "\<not> numbering At_Mode" "\<not> numbering At_Sort" "\<not> numbering At_End"
  by (simp_all add: numbering_def)

lemma bumps_le: "bumps p \<le> 2" "bumps p \<le> made p + 1"
  by (cases p; simp)+

lemma counter_cases:
  assumes "counter_inv n ps"
  obtains (one) a where "ps = [a]" | (two) a b where "ps = [a, b]" | (more) a b d rest where "ps = a # b # d # rest"
  using assms by (cases "(n, ps)" rule: counter_inv.cases) auto

lemma index_cases: obtains "i = 0" | "i = Suc 0" | "i = Suc (Suc 0)" | j where "i = Suc (Suc (Suc j))"
  by (metis not0_implies_Suc)

lemma set_update_subset: "set xs \<subseteq> S \<Longrightarrow> x \<in> S \<Longrightarrow> set (xs[i := x]) \<subseteq> S"
  by (meson insert_subset order_trans set_update_subset_insert)

lemma counter_rest:
  assumes "counter_inv n (a # b # d # rest)" and "j < length rest"
  shows "rest ! j = At_Sort \<or> rest ! j = At_End"
proof -
  have "set rest \<subseteq> {At_Sort, At_End}" using assms(1) by simp
  then show ?thesis using nth_mem[OF assms(2)] by blast
qed

lemma counter_plain:
  assumes "counter_inv n ps" and "i < length ps" and "bumps q = bumps (ps ! i)" "made q = made (ps ! i)"
    and "q = At_Sort \<Longrightarrow> 3 \<le> i" "3 \<le> i \<Longrightarrow> q \<in> {At_Sort, At_End}"
    and "numbering q \<Longrightarrow> \<not> numbering (ps ! i) \<Longrightarrow> \<forall>p \<in> set ps. \<not> numbering p"
  shows "counter_inv n (ps[i := q])"
  using assms(1)
proof (cases rule: counter_cases)
  case (one a)
  then show ?thesis using assms by simp
next
  case (two a b)
  show ?thesis
  proof (cases i)
    case (Suc j)
    then have j: "i = 1" "ps ! i = At_Mode" using two assms(1,2) by auto
    moreover have "numbering a" using two assms(1) by (auto intro: made_numbering(2))
    ultimately have "\<not> numbering q" using assms(7) two by auto
    then have "q = At_Mode" using made_numbering(3)[of q] assms(4) j by simp
    then show ?thesis using assms(1) j list_update_id[of ps i] by simp
  qed (use two assms in simp)
next
  case (more a b d rest)
  have q: "i < 3 \<Longrightarrow> q \<noteq> At_Sort" "i = 0 \<or> \<not> numbering q \<or> numbering (ps ! i) \<or> \<not> numbering b \<and> \<not> numbering d"
    using assms(5,7) more by auto
  show ?thesis
  proof (cases rule: index_cases[of i])
    case (4 j)
    then have "q \<in> {At_Sort, At_End}" using assms(6) by simp
    moreover have "set rest \<subseteq> {At_Sort, At_End}" using assms(1) more by simp
    ultimately show ?thesis using assms(1) more 4 set_update_subset[of rest _ q j] by simp
  qed (use assms(1,3,4) q more in auto)
qed

lemma counter_bump:
  assumes "counter_inv n ps" and "i < length ps" and "ps ! i = At_Bump1 \<and> q = At_Create1 \<or> ps ! i = At_Bump2 \<and> q = At_Create2"
  shows "counter_inv (Suc n) (ps[i := q])"
  using assms(1)
proof (cases rule: counter_cases)
  case (more a b d rest)
  note r = counter_rest[OF assms(1)[unfolded more]]
  from more show ?thesis using assms r by (cases rule: index_cases[of i]) (force simp: numbering_def)+
qed (use assms in \<open>auto simp: less_Suc_eq_0_disj\<close>)

lemma counter_create:
  assumes "counter_inv n ps" and "i < length ps" and "ps ! i = At_Create1 \<and> q = At_Arg2 \<or> ps ! i = At_Create2 \<and> q = At_Join1"
  shows "counter_inv n (ps[i := q] @ [if i = 0 then At_Mode else At_Sort])"
  using assms(1)
proof (cases rule: counter_cases)
  case (more a b d rest)
  note r = counter_rest[OF assms(1)[unfolded more]]
  from more show ?thesis using assms r by (cases rule: index_cases[of i]) (force simp: numbering_def)+
qed (use assms in \<open>auto simp: less_Suc_eq_0_disj numbering_def\<close>)

lemma counter_unique:
  assumes "counter_inv n ps" and "i < length ps" "j < length ps" "numbering (ps ! i)" "numbering (ps ! j)"
  shows "i = j"
  using assms(1)
proof (cases rule: counter_cases)
  case (more a b d rest)
  note r = counter_rest[OF assms(1)[unfolded more]]
  have "k = Suc 0 \<or> k = Suc (Suc 0)" if "k < length ps" "numbering (ps ! k)" for k
  proof (cases rule: index_cases[of k])
    case (4 m)
    then show ?thesis using more that r[of m] by auto
  qed (use more assms(1) that made_numbering(1)[of a] in auto)
  then show ?thesis using assms more by (metis counter_inv.simps(4) nth_Cons_0 nth_Cons_Suc)
qed (use assms in \<open>auto simp: less_Suc_eq_0_disj\<close>)

lemma counter_facts:
  assumes "counter_inv n ps"
  shows "n \<le> 6" "i < length ps \<Longrightarrow> i < 3 \<Longrightarrow> ps ! i \<noteq> At_Sort" "i < length ps \<Longrightarrow> 3 \<le> i \<Longrightarrow> ps ! i \<in> {At_Sort, At_End}"
    "0 < i \<Longrightarrow> i < length ps \<Longrightarrow> \<forall>p \<in> set ps. \<not> numbering p \<Longrightarrow> 2 \<le> n"
    "ps ! 0 = At_Mode \<Longrightarrow> n = 0"
proof -
  have "n \<le> 6 \<and> (i < length ps \<longrightarrow> i < 3 \<longrightarrow> ps ! i \<noteq> At_Sort) \<and> (i < length ps \<longrightarrow> 3 \<le> i \<longrightarrow> ps ! i \<in> {At_Sort, At_End}) \<and>
      (0 < i \<longrightarrow> i < length ps \<longrightarrow> (\<forall>p \<in> set ps. \<not> numbering p) \<longrightarrow> 2 \<le> n) \<and> (ps ! 0 = At_Mode \<longrightarrow> n = 0)"
    using assms
  proof (cases rule: counter_cases)
    case (more a b d rest)
    note r = counter_rest[OF assms[unfolded more]]
    show ?thesis using more assms r bumps_le(1)[of b] bumps_le(1)[of d] by (cases rule: index_cases[of i]) auto
  next
    case (one a)
    then show ?thesis using assms bumps_le(1)[of a] by auto
  next
    case (two a b)
    then show ?thesis using assms bumps_le(1)[of a] made_numbering(2)[of a] by (auto simp: less_Suc_eq_0_disj)
  qed
  then show "n \<le> 6" "i < length ps \<Longrightarrow> i < 3 \<Longrightarrow> ps ! i \<noteq> At_Sort" "i < length ps \<Longrightarrow> 3 \<le> i \<Longrightarrow> ps ! i \<in> {At_Sort, At_End}"
    "0 < i \<Longrightarrow> i < length ps \<Longrightarrow> \<forall>p \<in> set ps. \<not> numbering p \<Longrightarrow> 2 \<le> n" "ps ! 0 = At_Mode \<Longrightarrow> n = 0"
    by auto
qed

lemma counter_creator:
  assumes "counter_inv n ps" and "i < length ps" and "ps ! i = At_Create1 \<or> ps ! i = At_Create2"
  shows "i = 0 \<or> 3 \<le> length ps"
  using assms(1)
proof (cases rule: counter_cases)
  case (two a b)
  then show ?thesis using assms by (auto simp: less_Suc_eq_0_disj)
qed (use assms in auto)

section \<open>Orderly runs: the state\<close>

fun num_ok :: "sort_pc \<Rightarrow> nat \<Rightarrow> sort_thread \<Rightarrow> bool" where
  "num_ok At_Index1 n th = (arg_id (arg1 th) = n)"
| "num_ok At_Bump1 n th = (arg_id (arg1 th) = n \<and> idx th = n)"
| "num_ok At_Create1 n th = (arg_id (arg1 th) = idx th \<and> n = Suc (idx th))"
| "num_ok At_Arg2 n th = (n = Suc (arg_id (arg1 th)) \<and> (\<exists>c. thread_id th = [arg_id (arg1 th) \<mapsto> c]))"
| "num_ok At_Index2 n th = (n = Suc (arg_id (arg1 th)) \<and> (\<exists>c. thread_id th = [arg_id (arg1 th) \<mapsto> c]) \<and> arg_id (arg2 th) = n)"
| "num_ok At_Bump2 n th = (n = Suc (arg_id (arg1 th)) \<and> (\<exists>c. thread_id th = [arg_id (arg1 th) \<mapsto> c]) \<and> arg_id (arg2 th) = n \<and>
     idx th = n)"
| "num_ok At_Create2 n th = (arg_id (arg2 th) = Suc (arg_id (arg1 th)) \<and> (\<exists>c. thread_id th = [arg_id (arg1 th) \<mapsto> c]) \<and>
     idx th = arg_id (arg2 th) \<and> n = Suc (idx th))"
| "num_ok p n th = (p \<in> {At_Join1, At_Join2} \<longrightarrow> arg_id (arg2 th) = Suc (arg_id (arg1 th)) \<and> Suc (arg_id (arg1 th)) < 6 \<and>
     (\<exists>c d. c \<noteq> d \<and> thread_id th = [arg_id (arg1 th) \<mapsto> c, Suc (arg_id (arg1 th)) \<mapsto> d]))"

lemma num_ok_other: "\<not> numbering p \<Longrightarrow> num_ok p n th \<Longrightarrow> num_ok p n' th"
  by (cases p) (auto simp: numbering_def)

definition fn_ok :: "nat \<Rightarrow> sort_thread \<Rightarrow> bool" where
  "fn_ok i th \<longleftrightarrow> (pc th \<noteq> At_Mode \<and> i < 3 \<longrightarrow> start_fn th = (if i = 0 then Thread_Create2 else Thread_Sort))"

definition count_ok :: "nat \<Rightarrow> nat \<Rightarrow> sort_thread \<Rightarrow> bool" where
  "count_ok n i th \<longleftrightarrow> num_ok (pc th) n th \<and> fn_ok i th \<and> small (todo th)"

lemma count_ok_other: "\<not> numbering (pc th) \<Longrightarrow> count_ok n i th \<Longrightarrow> count_ok n' i th"
  using num_ok_other by (auto simp: count_ok_def)

definition orderly_inv :: "sort_state \<Rightarrow> bool" where
  "orderly_inv st \<longleftrightarrow> (let ths = sort_threads st in
     counter_inv (thread_num st) (map pc ths) \<and>
     (\<forall>i < length ths. count_ok (thread_num st) i (ths ! i)))"

text \<open>How many steps are left, where \<open>R\<close> is the index of the last element.\<close>

fun todo_weight :: "sort_todo list \<Rightarrow> nat" where
  "todo_weight [] = 0"
| "todo_weight (Sort l r # td) = 3 * (r - l) + 1 + todo_weight td"
| "todo_weight (Merge l m r # td) = 1 + todo_weight td"

fun rank :: "sort_pc \<Rightarrow> nat" where
  "rank At_Mode = 13" | "rank At_Arg1 = 12" | "rank At_Index1 = 11" | "rank At_Bump1 = 10" | "rank At_Create1 = 9"
| "rank At_Arg2 = 8" | "rank At_Index2 = 7" | "rank At_Bump2 = 6" | "rank At_Create2 = 5" | "rank At_Join1 = 4"
| "rank At_Join2 = 3" | "rank At_Merge = 2" | "rank At_Sort = 1" | "rank At_End = 0"

definition weight :: "nat \<Rightarrow> nat \<Rightarrow> sort_thread \<Rightarrow> nat" where
  "weight R i th = rank (pc th) + (if pc th = At_Sort then todo_weight (todo th) else 0) +
     (2 - made (pc th)) * (if i = 0 then 6 * R + 17 else 3 * R + 2)"

definition total :: "nat \<Rightarrow> sort_thread list \<Rightarrow> nat" where
  "total R ths = (\<Sum>i < length ths. weight R i (ths ! i))"

lemma total_update: "i < length ths \<Longrightarrow> total R (ths[i := th]) + weight R i (ths ! i) = total R ths + weight R i th"
  unfolding total_def
  by (simp add: sum.remove[of _ i] nth_list_update cong: sum.cong_simp)

lemma total_append: "total R (ths @ [th]) = total R ths + weight R (length ths) th"
  by (simp add: total_def nth_append)

lemma orderly_put:
  assumes inv: "orderly_inv st" and i: "i < length (sort_threads st)"
    and n: "n = thread_num st \<or> numbering (pc (sort_threads st ! i))"
    and c: "counter_inv n ((map pc (sort_threads st))[i := pc th])"
    and th: "count_ok n i th" and w: "weight R i th < weight R i (sort_threads st ! i)"
    and st': "sort_threads st' = (sort_threads st)[i := th]" "thread_num st' = n"
  shows "orderly_inv st' \<and> total R (sort_threads st') < total R (sort_threads st)"
proof -
  let ?ths = "sort_threads st"
  have "count_ok n j (?ths[i := th] ! j)" if j: "j < length ?ths" for j
  proof (cases "j = i")
    case False
    then have ok: "count_ok (thread_num st) j (?ths ! j)" using inv j by (auto simp: orderly_inv_def Let_def)
    have "count_ok n j (?ths ! j)"
    proof (cases "n = thread_num st")
      case neq: False
      then have "\<not> numbering (pc (?ths ! j))"
        using counter_unique[of "thread_num st" "map pc ?ths" i j] inv i n j False by (auto simp: orderly_inv_def Let_def)
      then show ?thesis using ok count_ok_other by blast
    qed (use ok in simp)
    then show ?thesis using False by simp
  qed (use th i in simp)
  then have "orderly_inv st'"
    using c st' by (simp add: orderly_inv_def Let_def map_update)
  then show ?thesis using total_update[OF i, of R th] w st' by simp
qed

lemma orderly_create:
  assumes inv: "orderly_inv st" and i: "i < length (sort_threads st)"
    and p: "pc (sort_threads st ! i) = At_Create1 \<and> pc th = At_Arg2 \<or> pc (sort_threads st ! i) = At_Create2 \<and> pc th = At_Join1"
    and th: "count_ok (thread_num st) i th"
    and new: "arg_R a < 2 ^ 30" "arg_R a \<le> R"
    and st': "st' = st\<lparr>sort_threads := (sort_threads st)[i := th] @ [start_thread (start_fn (sort_threads st ! i)) a]\<rparr>"
  shows "orderly_inv st' \<and> total R (sort_threads st') < total R (sort_threads st)"
proof -
  let ?ths = "sort_threads st" and ?f = "start_fn (sort_threads st ! i)"
  have c: "counter_inv (thread_num st) (map pc ?ths)" using inv by (simp add: orderly_inv_def Let_def)
  have i3: "i < 3" using counter_facts(3)[OF c, of i] i p by (cases "i < 3") auto
  then have f: "?f = (if i = 0 then Thread_Create2 else Thread_Sort)"
    using inv i p by (fastforce simp: orderly_inv_def Let_def count_ok_def fn_ok_def)
  have pcn: "pc (start_thread ?f a) = (if i = 0 then At_Mode else At_Sort)"
    by (simp add: f start_thread_def thread_sort_def thread_create2_def enter_def)
  have pos: "i = 0 \<or> 3 \<le> length ?ths" using counter_creator[OF c, of i] i p by auto
  have new_ok: "count_ok (thread_num st) (length ?ths) (start_thread ?f a)"
    using pos new(1) f by (auto simp: count_ok_def fn_ok_def small_def start_thread_def thread_sort_def thread_create2_def enter_def)
  have wn: "weight R (length ?ths) (start_thread ?f a) \<le> (if i = 0 then 6 * R + 17 else 3 * R + 2)"
    using new(2) i f by (auto simp: weight_def start_thread_def thread_sort_def thread_create2_def enter_def)
  have "count_ok (thread_num st) j ((?ths[i := th] @ [start_thread ?f a]) ! j)" if "j < Suc (length ?ths)" for j
    using that th new_ok inv i by (cases "j = i") (auto simp: nth_append less_Suc_eq orderly_inv_def Let_def)
  moreover have "counter_inv (thread_num st) (map pc (?ths[i := th] @ [start_thread ?f a]))"
    using counter_create[OF c, of i "pc th"] i p pcn by (auto simp: map_update)
  ultimately have "orderly_inv st'" by (simp add: orderly_inv_def Let_def st')
  moreover have "weight R i (?ths ! i) = Suc (weight R i th) + (if i = 0 then 6 * R + 17 else 3 * R + 2)"
    using p by (auto simp: weight_def)
  ultimately show ?thesis using total_update[OF i, of R th] total_append[of R "?ths[i := th]" "start_thread ?f a"] wn st' by simp
qed

lemma joined_update [simp]: "count_ok n i (th\<lparr>joined := b\<rparr>) = count_ok n i th" "weight R i (th\<lparr>joined := b\<rparr>) = weight R i th"
proof -
  have "num_ok p n (th\<lparr>joined := b\<rparr>) = num_ok p n th" for p by (cases p) simp_all
  then show "count_ok n i (th\<lparr>joined := b\<rparr>) = count_ok n i th" by (simp add: count_ok_def fn_ok_def)
qed (simp add: weight_def)

lemma orderly_join:
  assumes inv: "orderly_inv st" and i: "i < length (sort_threads st)" and d: "d < length (sort_threads st)" "i \<noteq> d"
    and p: "pc (sort_threads st ! i) = At_Join1 \<and> q = At_Join2 \<or> pc (sort_threads st ! i) = At_Join2 \<and> q = At_Merge"
    and st': "st' = st\<lparr>sort_threads := (sort_threads st)[i := (sort_threads st ! i)\<lparr>pc := q\<rparr>,
      d := (sort_threads st ! d)\<lparr>joined := True\<rparr>]\<rparr>"
  shows "orderly_inv st' \<and> total R (sort_threads st') < total R (sort_threads st)"
proof -
  let ?ths = "sort_threads st" and ?th = "(sort_threads st ! i)\<lparr>pc := q\<rparr>"
  let ?st = "st\<lparr>sort_threads := ?ths[i := ?th]\<rparr>"
  have "count_ok (thread_num st) i (?ths ! i)" and c: "counter_inv (thread_num st) (map pc ?ths)"
    using inv i by (auto simp: orderly_inv_def Let_def)
  then have th: "count_ok (thread_num st) i ?th" using p by (auto simp: count_ok_def fn_ok_def)
  have i3: "i < 3" using counter_facts(3)[OF c, of i] i p by (cases "i < 3") auto
  have "counter_inv (thread_num st) ((map pc ?ths)[i := pc ?th])"
    by (rule counter_plain[OF c]) (use i p i3 in \<open>auto simp: numbering_def\<close>)
  then have o: "orderly_inv ?st \<and> total R (sort_threads ?st) < total R ?ths"
    by (intro orderly_put[OF inv i, of "thread_num st" ?th]) (use th p in \<open>auto simp: weight_def\<close>)
  have "map pc (?ths[i := ?th, d := (?ths ! d)\<lparr>joined := True\<rparr>]) = map pc (?ths[i := ?th])"
    by (rule nth_equalityI) (use d in \<open>auto simp: nth_list_update\<close>)
  moreover have "count_ok n j (?ths[i := ?th, d := (?ths ! d)\<lparr>joined := True\<rparr>] ! j) = count_ok n j (?ths[i := ?th] ! j)"
    "weight R j (?ths[i := ?th, d := (?ths ! d)\<lparr>joined := True\<rparr>] ! j) = weight R j (?ths[i := ?th] ! j)"
    if "j < length ?ths" for j n
    using that d by (cases "j = d"; simp)+
  ultimately show ?thesis using o unfolding st' by (simp add: orderly_inv_def Let_def total_def cong: sum.cong_simp)
qed

lemma single_small:
  assumes "singleThreadedMergeSort mg td arr = Inr (td', arr')" and "small td"
  shows "small td' \<and> (td = [] \<and> td' = [] \<or> todo_weight td' < todo_weight td)"
  using assms
proof (cases "(mg, td, arr)" rule: singleThreadedMergeSort.cases)
  case (2 mg' l r td1 arr')
  then have "l < r \<Longrightarrow> r < 2 ^ 30" using assms(2) by (auto simp: small_def)
  then show ?thesis using assms 2 by (auto simp: res_simps small_def split: if_splits)
qed (auto simp: res_simps small_def)

section \<open>Orderly runs: every step succeeds\<close>

lemma orderly_joins:
  assumes inv: "sort_inv arr left right own par st" and o: "orderly_inv st" and i: "i < length (sort_threads st)"
    and p: "pc (sort_threads st ! i) = At_Join1 \<and> n = arg_id (arg1 (sort_threads st ! i)) \<or>
      pc (sort_threads st ! i) = At_Join2 \<and> n = arg_id (arg2 (sort_threads st ! i))"
  obtains d where "n < 6" "thread_id (sort_threads st ! i) n = Some d" "\<not> joined (sort_threads st ! d)" "i < d" "d < length (sort_threads st)"
proof -
  let ?th = "sort_threads st ! i" and ?ths = "sort_threads st"
  let ?n = "arg_id (arg1 (sort_threads st ! i))"
  have nj: "\<not> joined ?th" using sort_invD(4)[OF inv i] p by auto
  note pt = sort_invD(5)[OF inv i nj]
  have "count_ok (thread_num st) i ?th" using o i by (simp add: orderly_inv_def Let_def)
  then obtain c d where cd: "arg_id (arg2 ?th) = Suc ?n" "Suc ?n < 6" "c \<noteq> d" "thread_id ?th = [?n \<mapsto> c, Suc ?n \<mapsto> d]"
    using p by (auto simp: count_ok_def)
  have ran: "ran (thread_id ?th) = {c, d}" by (auto simp: cd(4) ran_map_upd)
  have "\<exists>e. thread_id ?th n = Some e \<and> (\<exists>l r. kid par ?ths i e l r)"
  proof (cases "pc ?th = At_Join1")
    case True
    have "\<not> lone_kid par ?ths i" using ran cd(3) by (auto simp: lone_kid_def)
    then have bk: "both_kids par ?ths i" using pt True by simp
    then obtain a b where ab: "kid par ?ths i a (left_of ?th) (mid_of ?th)" "kid par ?ths i b (mid_of ?th + 1) (right_of ?th)"
      "{c, d} \<subseteq> {a, b}" unfolding both_kids_def Let_def ran by blast
    have "thread_id ?th n = Some c" using p True cd(4) by auto
    then show ?thesis using ab by (metis insert_iff insert_subset singletonD)
  next
    case False
    then have p2: "pc ?th = At_Join2" "n = Suc ?n" using p cd(1) by auto
    have k: "\<exists>l r. kid par ?ths i d l r" if one: "one_kid own par ?ths (mem st) i l r l' r'" for l r l' r'
    proof -
      obtain a b where ab: "kid par ?ths i a l' r'" "ran (thread_id ?th) \<subseteq> {a, b}" "thread_id ?th ?n = Some b"
        using one unfolding one_kid_def Let_def by blast
      then have "b = c" using cd(4) by simp
      then have "d = a" using ab(2) ran cd(3) by auto
      then show ?thesis using ab(1) by blast
    qed
    have "\<not> no_kid par ?ths i" using ran cd(3) by (auto simp: no_kid_def)
    then have "\<exists>l r. kid par ?ths i d l r" using pt p2(1) k by auto
    then show ?thesis using p2 cd(4) by simp
  qed
  then obtain e where "thread_id ?th n = Some e" "i < e" "e < length ?ths" "\<not> joined (?ths ! e)" by (auto simp: kid_def)
  moreover have "n < 6" using p cd(1,2) by auto
  ultimately show ?thesis using that by blast
qed

text \<open>A step that succeeds, keeps the invariant and makes the weight fall.\<close>

definition advances :: "merge_fn \<Rightarrow> (nat \<Rightarrow> bool) \<Rightarrow> nat \<Rightarrow> nat \<Rightarrow> sort_state \<Rightarrow> bool" where
  "advances mg created R i st \<longleftrightarrow>
     (\<exists>st'. sort_step mg created i st = Inr st' \<and> orderly_inv st' \<and> total R (sort_threads st') < total R (sort_threads st))"

lemma advances_put:
  assumes o: "orderly_inv st" and i: "i < length (sort_threads st)"
    and "sort_step mg created i st = Inr (put_thread i th st1)" "n = thread_num st \<or> numbering (pc (sort_threads st ! i))"
      "st1 = st\<lparr>thread_num := n\<rparr>"
      "counter_inv n ((map pc (sort_threads st))[i := pc th])" "count_ok n i th" "weight R i th < weight R i (sort_threads st ! i)"
  shows "advances mg created R i st"
  using orderly_put[OF o i assms(4,6,7,8), of "put_thread i th st1"] assms(3,5) by (auto simp: advances_def put_thread_def)

lemma orderly_facts:
  assumes inv: "sort_inv arr left right own par st" and o: "orderly_inv st" and i: "i < length (sort_threads st)"
    and e: "pc (sort_threads st ! i) \<noteq> At_End"
  shows "point_ok (pc (sort_threads st ! i)) own par (sort_threads st) (mem st) i (sort_threads st ! i)"
    "counter_inv (thread_num st) (map pc (sort_threads st))" "count_ok (thread_num st) i (sort_threads st ! i)" "thread_num st \<le> 6"
    "left_of (sort_threads st ! i) \<le> Suc (right_of (sort_threads st ! i))" "right_of (sort_threads st ! i) \<le> right"
    "halves (sort_threads st ! i) \<Longrightarrow> mid_of (sort_threads st ! i) \<le> right_of (sort_threads st ! i)"
    "i < 3 \<longleftrightarrow> pc (sort_threads st ! i) \<noteq> At_Sort"
proof -
  show c: "counter_inv (thread_num st) (map pc (sort_threads st))" using o by (simp add: orderly_inv_def Let_def)
  show "thread_num st \<le> 6" using counter_facts(1)[OF c] .
  show "i < 3 \<longleftrightarrow> pc (sort_threads st ! i) \<noteq> At_Sort"
    using counter_facts(2,3)[OF c, of i] i e by (cases "i < 3") auto
qed (use o i e sort_invD[OF inv i] halves_bounds in \<open>auto simp: orderly_inv_def Let_def\<close>)

lemma first_number_step:
  assumes mg: "merge_runs_ok mg" and inv: "sort_inv arr left right own par st" and o: "orderly_inv st"
    and r: "right < length arr" "right < 2 ^ 30" and i: "i < length (sort_threads st)"
    and quiet: "pc (sort_threads st ! i) = At_Mode \<Longrightarrow> orderly i st"
    and p: "pc (sort_threads st ! i) = At_Mode \<or> pc (sort_threads st ! i) = At_Arg1 \<or>
      pc (sort_threads st ! i) = At_Index1 \<or> pc (sort_threads st ! i) = At_Bump1"
  shows "advances mg created right i st"
proof -
  let ?th = "sort_threads st ! i" and ?n = "thread_num st"
  have e: "pc ?th \<noteq> At_End" using p by auto
  note f = orderly_facts[OF inv o i e] and go = advances_put[OF o i]
  note pt = f(1) and c = f(2) and t = f(3) and n6 = f(4) and b = f(5,6) and h = f(7) and i3 = f(8)
  note plain = counter_plain[OF c, of i]
  show ?thesis using p
  proof (elim disjE)
    assume pp: "pc ?th = At_Mode"
    then have quiet': "\<forall>p \<in> set (map pc (sort_threads st)). \<not> numbering p" using quiet by (auto simp: orderly_def)
    have f: "thread_num st \<le> 1 \<longleftrightarrow> i = 0"
      using counter_facts(4)[OF c, of i] counter_facts(5)[OF c] quiet' i pp by (cases i) auto
    have "counter_inv ?n ((map pc (sort_threads st))[i := At_Arg1])"
      by (rule plain) (use i pp quiet' i3 in \<open>auto simp: numbering_def\<close>)
    moreover have eq: "sort_step mg created i st = Inr (put_thread i (?th\<lparr>mid_of := (left_of ?th + right_of ?th) div 2,
        start_fn := if i = 0 then Thread_Create2 else Thread_Sort, pc := At_Arg1\<rparr>) st)"
      using pp b r f by (auto simp: sort_step_def Let_def midpoint_def count_ok_def)
    ultimately show ?thesis using pp t
      by (intro go[OF eq, where n = "?n"]) (auto simp: count_ok_def fn_ok_def weight_def numbering_def)
  next
    assume pp: "pc ?th = At_Arg1"
    have "counter_inv ?n ((map pc (sort_threads st))[i := At_Index1])"
      by (rule plain) (use i pp i3 in \<open>auto simp: numbering_def\<close>)
    moreover have eq: "sort_step mg created i st = Inr (put_thread i (?th\<lparr>
        arg1 := \<lparr>arg_L = left_of ?th, arg_M = (left_of ?th + mid_of ?th) div 2, arg_R = mid_of ?th, arg_id = ?n\<rparr>, pc := At_Index1\<rparr>) st)"
      using pp b h r pt by (auto simp: sort_step_def Let_def midpoint_def count_ok_def)
    ultimately show ?thesis using pp t
      by (intro go[OF eq, where n = "?n"]) (auto simp: count_ok_def fn_ok_def weight_def numbering_def)
  next
    assume pp: "pc ?th = At_Index1"
    have "counter_inv ?n ((map pc (sort_threads st))[i := At_Bump1])"
      by (rule plain) (use i pp i3 in \<open>auto simp: numbering_def\<close>)
    moreover have eq: "sort_step mg created i st = Inr (put_thread i (?th\<lparr>idx := ?n, pc := At_Bump1\<rparr>) st)"
      using pp t by (auto simp: sort_step_def Let_def midpoint_def count_ok_def)
    ultimately show ?thesis using pp t
      by (intro go[OF eq, where n = "?n"]) (auto simp: count_ok_def fn_ok_def weight_def numbering_def)
  next
    assume pp: "pc ?th = At_Bump1"
    have "counter_inv (Suc ?n) ((map pc (sort_threads st))[i := At_Create1])"
      by (rule counter_bump[OF c]) (use i pp in auto)
    moreover have eq: "sort_step mg created i st = Inr (put_thread i (?th\<lparr>pc := At_Create1\<rparr>) (st\<lparr>thread_num := Suc ?n\<rparr>))"
      using pp t n6 by (auto simp: sort_step_def Let_def midpoint_def count_ok_def)
    ultimately show ?thesis using pp t
      by (intro go[OF eq, where n = "Suc ?n"]) (auto simp: count_ok_def fn_ok_def weight_def numbering_def)
  qed
qed

lemma second_number_step:
  assumes mg: "merge_runs_ok mg" and inv: "sort_inv arr left right own par st" and o: "orderly_inv st"
    and r: "right < length arr" "right < 2 ^ 30" and i: "i < length (sort_threads st)"
    and p: "pc (sort_threads st ! i) = At_Arg2 \<or> pc (sort_threads st ! i) = At_Index2 \<or> pc (sort_threads st ! i) = At_Bump2"
  shows "advances mg created right i st"
proof -
  let ?th = "sort_threads st ! i" and ?n = "thread_num st"
  have e: "pc ?th \<noteq> At_End" using p by auto
  note f = orderly_facts[OF inv o i e] and go = advances_put[OF o i]
  note pt = f(1) and c = f(2) and t = f(3) and n6 = f(4) and b = f(5,6) and h = f(7) and i3 = f(8)
  note plain = counter_plain[OF c, of i]
  show ?thesis using p
  proof (elim disjE)
    assume pp: "pc ?th = At_Arg2"
    have "counter_inv ?n ((map pc (sort_threads st))[i := At_Index2])"
      by (rule plain) (use i pp i3 in \<open>auto simp: numbering_def\<close>)
    moreover have eq: "sort_step mg created i st = Inr (put_thread i (?th\<lparr>
        arg2 := \<lparr>arg_L = mid_of ?th + 1, arg_M = (mid_of ?th + right_of ?th) div 2, arg_R = right_of ?th, arg_id = ?n\<rparr>, pc := At_Index2\<rparr>) st)"
      using pp b h r pt by (auto simp: sort_step_def Let_def midpoint_def count_ok_def)
    ultimately show ?thesis using pp t
      by (intro go[OF eq, where n = "?n"]) (auto simp: count_ok_def fn_ok_def weight_def numbering_def)
  next
    assume pp: "pc ?th = At_Index2"
    have "counter_inv ?n ((map pc (sort_threads st))[i := At_Bump2])"
      by (rule plain) (use i pp i3 in \<open>auto simp: numbering_def\<close>)
    moreover have eq: "sort_step mg created i st = Inr (put_thread i (?th\<lparr>idx := ?n, pc := At_Bump2\<rparr>) st)"
      using pp t by (auto simp: sort_step_def Let_def midpoint_def count_ok_def)
    ultimately show ?thesis using pp t
      by (intro go[OF eq, where n = "?n"]) (auto simp: count_ok_def fn_ok_def weight_def numbering_def)
  next
    assume pp: "pc ?th = At_Bump2"
    have "counter_inv (Suc ?n) ((map pc (sort_threads st))[i := At_Create2])"
      by (rule counter_bump[OF c]) (use i pp in auto)
    moreover have eq: "sort_step mg created i st = Inr (put_thread i (?th\<lparr>pc := At_Create2\<rparr>) (st\<lparr>thread_num := Suc ?n\<rparr>))"
      using pp t n6 by (auto simp: sort_step_def Let_def midpoint_def count_ok_def)
    ultimately show ?thesis using pp t
      by (intro go[OF eq, where n = "Suc ?n"]) (auto simp: count_ok_def fn_ok_def weight_def numbering_def)
  qed
qed

lemma creation_step:
  assumes mg: "merge_runs_ok mg" and inv: "sort_inv arr left right own par st" and o: "orderly_inv st"
    and r: "right < length arr" "right < 2 ^ 30" and i: "i < length (sort_threads st)"
    and ok: "\<forall>n. created n"
    and p: "pc (sort_threads st ! i) = At_Create1 \<or> pc (sort_threads st ! i) = At_Create2"
  shows "advances mg created right i st"
proof -
  let ?th = "sort_threads st ! i" and ?n = "thread_num st"
  have e: "pc ?th \<noteq> At_End" using p by auto
  note f = orderly_facts[OF inv o i e] and go = advances_put[OF o i]
  note pt = f(1) and c = f(2) and t = f(3) and n6 = f(4) and b = f(5,6) and h = f(7) and i3 = f(8)
  note plain = counter_plain[OF c, of i]
  show ?thesis using p
  proof (elim disjE)
    assume pp: "pc ?th = At_Create1"
    let ?th' = "?th\<lparr>thread_id := (thread_id ?th)(idx ?th \<mapsto> length (sort_threads st)), pc := At_Arg2\<rparr>"
    have "count_ok ?n i ?th'" using t pt pp by (auto simp: count_ok_def fn_ok_def)
    moreover have "arg_R (arg1 ?th) \<le> right" using pt pp h b by auto
    ultimately show ?thesis using pp t n6 ok r orderly_create[OF o i, of ?th' "arg1 ?th" right]
      by (auto simp: advances_def sort_step_def create_thread_def THREAD_COUNT_def Let_def count_ok_def)
  next
    assume pp: "pc ?th = At_Create2"
    let ?th' = "?th\<lparr>thread_id := (thread_id ?th)(idx ?th \<mapsto> length (sort_threads st)), pc := At_Join1\<rparr>"
    obtain c where tc: "thread_id ?th = [arg_id (arg1 ?th) \<mapsto> c]" using t pp by (auto simp: count_ok_def)
    then have "thread_id ?th \<noteq> Map.empty" "ran (thread_id ?th) = {c}" by simp_all
    then have "c \<noteq> length (sort_threads st)" using pt pp by (auto simp: first_kid_def Let_def kid_def)
    with tc have "count_ok ?n i ?th'" using t pp n6 by (auto simp: count_ok_def fn_ok_def)
    moreover have "arg_R (arg2 ?th) \<le> right" using pt pp h b by auto
    ultimately show ?thesis using pp t n6 ok r orderly_create[OF o i, of ?th' "arg2 ?th" right]
      by (auto simp: advances_def sort_step_def create_thread_def THREAD_COUNT_def Let_def count_ok_def)
  qed
qed

lemma join_step:
  assumes mg: "merge_runs_ok mg" and inv: "sort_inv arr left right own par st" and o: "orderly_inv st"
    and r: "right < length arr" "right < 2 ^ 30" and i: "i < length (sort_threads st)"
    and p: "pc (sort_threads st ! i) = At_Join1 \<or> pc (sort_threads st ! i) = At_Join2"
  shows "advances mg created right i st"
proof -
  let ?th = "sort_threads st ! i" and ?n = "thread_num st"
  have e: "pc ?th \<noteq> At_End" using p by auto
  note f = orderly_facts[OF inv o i e] and go = advances_put[OF o i]
  note pt = f(1) and c = f(2) and t = f(3) and n6 = f(4) and b = f(5,6) and h = f(7) and i3 = f(8)
  note plain = counter_plain[OF c, of i]
  show ?thesis using p
  proof (elim disjE)
    assume pp: "pc ?th = At_Join1"
    obtain d where d: "arg_id (arg1 ?th) < 6" "thread_id ?th (arg_id (arg1 ?th)) = Some d" "\<not> joined (sort_threads st ! d)"
      "i < d" "d < length (sort_threads st)" using orderly_joins[OF inv o i] pp by metis
    then show ?thesis using pp orderly_join[OF o i d(5), of At_Join2 _ right]
      by (auto simp: advances_def sort_step_def join_thread_def THREAD_COUNT_def Let_def)
  next
    assume pp: "pc ?th = At_Join2"
    obtain d where d: "arg_id (arg2 ?th) < 6" "thread_id ?th (arg_id (arg2 ?th)) = Some d" "\<not> joined (sort_threads st ! d)"
      "i < d" "d < length (sort_threads st)" using orderly_joins[OF inv o i] pp by metis
    then show ?thesis using pp orderly_join[OF o i d(5), of At_Merge _ right]
      by (auto simp: advances_def sort_step_def join_thread_def THREAD_COUNT_def Let_def)
  qed
qed

lemma merging_step:
  assumes mg: "merge_runs_ok mg" and inv: "sort_inv arr left right own par st" and o: "orderly_inv st"
    and r: "right < length arr" "right < 2 ^ 30" and i: "i < length (sort_threads st)"
    and p: "pc (sort_threads st ! i) = At_Merge \<or> pc (sort_threads st ! i) = At_Sort"
  shows "advances mg created right i st"
proof -
  let ?th = "sort_threads st ! i" and ?n = "thread_num st"
  have e: "pc ?th \<noteq> At_End" using p by auto
  note f = orderly_facts[OF inv o i e] and go = advances_put[OF o i]
  note pt = f(1) and c = f(2) and t = f(3) and n6 = f(4) and b = f(5,6) and h = f(7) and i3 = f(8)
  note plain = counter_plain[OF c, of i]
  show ?thesis using p
  proof (elim disjE)
    assume pp: "pc ?th = At_Merge"
    have "counter_inv ?n ((map pc (sort_threads st))[i := At_End])"
      by (rule plain) (use i pp i3 in \<open>auto simp: numbering_def\<close>)
    then have k: "orderly_inv st' \<and> total right (sort_threads st') < total right (sort_threads st)"
      if "st' = put_thread i (?th\<lparr>pc := At_End\<rparr>) (st\<lparr>mem := m\<rparr>)" for st' m
      using that pp t by (intro orderly_put[OF o i, of ?n]) (auto simp: put_thread_def count_ok_def fn_ok_def weight_def)
    obtain st' where s: "sort_step mg created i st = Inr st'" using step_merge[OF mg inv r(1) i pp, of created] by blast
    then obtain m where "st' = put_thread i (?th\<lparr>pc := At_End\<rparr>) (st\<lparr>mem := m\<rparr>)"
      using pp by (auto simp: sort_step_def Let_def res_simps)
    then show ?thesis using s k unfolding advances_def by blast
  next
    assume pp: "pc ?th = At_Sort"
    have i3': "3 \<le> i" using i3 pp by simp
    obtain st' where s: "sort_step mg created i st = Inr st'"
      using step_sort[OF mg inv r(1) i pp, of created] t by (auto simp: count_ok_def split: sum.splits)
    then obtain td m where st': "singleThreadedMergeSort mg (todo ?th) (mem st) = Inr (td, m)"
      "st' = put_thread i (?th\<lparr>todo := td, pc := if td = [] then At_End else At_Sort\<rparr>) (st\<lparr>mem := m\<rparr>)"
      using pp by (auto simp: sort_step_def Let_def res_simps)
    have "counter_inv ?n ((map pc (sort_threads st))[i := if td = [] then At_End else At_Sort])"
      by (cases "td = []"; rule plain) (use i pp i3' in simp_all)
    then have "orderly_inv st' \<and> total right (sort_threads st') < total right (sort_threads st)"
      using st'(2) pp t single_small[OF st'(1)] i3'
      by (intro orderly_put[OF o i, of ?n]) (auto simp: put_thread_def count_ok_def fn_ok_def weight_def)
    then show ?thesis using s unfolding advances_def by blast
  qed
qed

lemma orderly_step:
  assumes mg: "merge_runs_ok mg" and inv: "sort_inv arr left right own par st" and o: "orderly_inv st"
    and r: "right < length arr" "right < 2 ^ 30" and ok: "\<forall>n. created n"
    and can: "can_step i st" and sched: "orderly i st"
  shows "\<exists>st'. sort_step mg created i st = Inr st' \<and> orderly_inv st' \<and> total right (sort_threads st') < total right (sort_threads st)"
proof -
  have i: "i < length (sort_threads st)" and e: "pc (sort_threads st ! i) \<noteq> At_End"
    using can by (auto simp: can_step_def Let_def)
  note s = first_number_step[OF mg inv o r i] second_number_step[OF mg inv o r i] creation_step[OF mg inv o r i ok]
    join_step[OF mg inv o r i] merging_step[OF mg inv o r i]
  have "advances mg created right i st" using e s sched by (cases "pc (sort_threads st ! i)") blast+
  then show ?thesis by (simp add: advances_def)
qed

section \<open>Orderly runs end\<close>

lemma orderly_start: "orderly_inv (sort_call 0 arr left right)" "total right (sort_threads (sort_call 0 arr left right)) = 12 * right + 47"
  by (simp_all add: orderly_inv_def sort_call_def enter_def count_ok_def fn_ok_def small_def total_def weight_def)

lemma orderly_run:
  assumes "sort_run orderly mg created n (sort_call 0 arr left right) st"
    and "merge_runs_ok mg" and "left \<le> right" "right < length arr" "right < 2 ^ 30" "\<forall>n. created n"
  shows "orderly_inv st \<and> n + total right (sort_threads st) \<le> 12 * right + 47 \<and> (\<exists>own par. sort_inv arr left right own par st)"
  using assms
proof (induction n "sort_call 0 arr left right" st rule: sort_run.induct)
  case start
  then show ?case using orderly_start inv_start by (metis add_0 order_refl)
next
  case (step n st1 i st2)
  then obtain own par where inv: "sort_inv arr left right own par st1" by blast
  have "orderly_inv st1" "n + total right (sort_threads st1) \<le> 12 * right + 47" using step by auto
  moreover have "\<exists>own' par'. sort_inv arr left right own' par' st2"
    using inv_step[OF step.prems(1) inv step.prems(3) step.hyps(3,5)] .
  moreover have "orderly_inv st2 \<and> total right (sort_threads st2) < total right (sort_threads st1)"
    using orderly_step[OF step.prems(1) inv calculation(1) step.prems(3,4,5) step.hyps(3,4)] step.hyps(5) by auto
  ultimately show ?case by auto
qed

text \<open>While some thread has not ended, one of them can go on.\<close>

lemma last_waiting:
  assumes "\<not> Q (k::nat)" "k < n"
  obtains i where "i < n" "\<not> Q i" "\<forall>j. i < j \<and> j < n \<longrightarrow> Q j"
proof -
  let ?i = "Max {i. i < n \<and> \<not> Q i}"
  have f: "finite {i. i < n \<and> \<not> Q i}" by simp
  moreover have "k \<in> {i. i < n \<and> \<not> Q i}" using assms by simp
  ultimately have "?i \<in> {i. i < n \<and> \<not> Q i}" by (metis Max_in empty_iff)
  moreover have "Q j" if j: "?i < j" "j < n" for j
  proof (rule ccontr)
    assume "\<not> Q j"
    then have "j \<le> ?i" using j(2) by (intro Max_ge[OF f]) simp
    then show False using j(1) by simp
  qed
  ultimately show ?thesis using that by blast
qed

lemma can_go_on:
  assumes inv: "sort_inv arr left right own par st" and i: "i < length (sort_threads st)" "pc (sort_threads st ! i) \<noteq> At_End"
    and rest: "\<forall>j. i < j \<and> j < length (sort_threads st) \<longrightarrow> pc (sort_threads st ! j) = At_End"
  shows "can_step i st"
proof -
  let ?th = "sort_threads st ! i"
  have nj: "\<not> joined ?th" using sort_invD(4)[OF inv i(1)] i(2) by blast
  note pt = sort_invD(5)[OF inv i(1) nj]
  have ready: "join_ready i n st" if "\<And>d. thread_id ?th n = Some d \<Longrightarrow> joined (sort_threads st ! d) \<or> i < d \<and> d < length (sort_threads st)" for n
    using that rest by (auto simp: join_ready_def split: option.splits)
  show ?thesis
  proof (cases "pc ?th = At_Join1 \<or> pc ?th = At_Join2")
    case True
    have "joined (sort_threads st ! d) \<or> i < d \<and> d < length (sort_threads st)" if d: "d \<in> ran (thread_id ?th)" for d
    proof (cases "pc ?th = At_Join1")
      case True
      then have "both_kids par (sort_threads st) i \<or> lone_kid par (sort_threads st) i" using pt by simp
      then show ?thesis using d by (auto simp: both_kids_def lone_kid_def Let_def kid_def)
    next
      case False
      have k: "joined (sort_threads st ! d) \<or> i < d \<and> d < length (sort_threads st)"
        if one: "one_kid own par (sort_threads st) (mem st) i l r l' r'" for l r l' r'
      proof -
        obtain a b where "kid par (sort_threads st) i a l' r'" "ran (thread_id ?th) \<subseteq> {a, b}" "joined (sort_threads st ! b)"
          using one unfolding one_kid_def Let_def by blast
        then show ?thesis using d by (auto simp: kid_def)
      qed
      have "no_kid par (sort_threads st) i \<longrightarrow> joined (sort_threads st ! d)" using d by (auto simp: no_kid_def)
      then show ?thesis using pt True False k by auto
    qed
    then have "join_ready i n st" for n by (intro ready) (auto simp: ran_def)
    then show ?thesis using True i by (auto simp: can_step_def Let_def)
  qed (use i in \<open>auto simp: can_step_def Let_def split: sort_pc.splits\<close>)
qed

lemma orderly_goes_on:
  assumes inv: "sort_inv arr left right own par st" and k: "pc (sort_threads st ! k) \<noteq> At_End" "k < length (sort_threads st)"
  shows "\<exists>i. can_step i st \<and> orderly i st"
proof (cases "\<exists>th \<in> set (sort_threads st). numbering (pc th)")
  case True
  then obtain i where i: "i < length (sort_threads st)" "numbering (pc (sort_threads st ! i))" by (auto simp: in_set_conv_nth)
  then have "can_step i st \<and> orderly i st" by (auto simp: can_step_def orderly_def numbering_def Let_def)
  then show ?thesis by blast
next
  case False
  obtain i where "i < length (sort_threads st)" "pc (sort_threads st ! i) \<noteq> At_End"
    "\<forall>j. i < j \<and> j < length (sort_threads st) \<longrightarrow> pc (sort_threads st ! j) = At_End"
    using last_waiting[of "\<lambda>i. pc (sort_threads st ! i) = At_End" k] k by blast
  then show ?thesis using can_go_on[OF inv] False by (auto simp: orderly_def)
qed

text \<open>C25: Under the schedules that keep lines 62 to 68 of two threads apart, as a lock would, no step of the
  sort fails, every run of a first call ends after at most \<open>12 * right + 47\<close> steps, and where it can go
  no further the caller has returned, with the sub-array sorted and \<open>thread_num\<close> at 6.\<close>

theorem orderly_sorts:
  assumes "merge_runs_ok mg" and "left \<le> right" and "right < length arr" and "right < 2 ^ 30" and "\<forall>n. created n"
    and "sort_run orderly mg created n (sort_call 0 arr left right) st"
  shows "n \<le> 12 * right + 47 \<and>
    (\<forall>i. can_step i st \<and> orderly i st \<longrightarrow> (\<exists>st'. sort_step mg created i st = Inr st')) \<and>
    ((\<nexists>i. can_step i st \<and> orderly i st) \<longrightarrow> pc (sort_threads st ! 0) = At_End \<and> mem st = sort_at left right arr \<and> thread_num st = 6)"
proof -
  obtain own par where inv: "sort_inv arr left right own par st" and o: "orderly_inv st"
    and n: "n + total right (sort_threads st) \<le> 12 * right + 47"
    using orderly_run[OF assms(6,1-5)] by blast
  have "pc (sort_threads st ! 0) = At_End \<and> mem st = sort_at left right arr \<and> thread_num st = 6"
    if stuck: "\<nexists>i. can_step i st \<and> orderly i st"
  proof -
    have all_end: "pc (sort_threads st ! k) = At_End" if "k < length (sort_threads st)" for k
      using orderly_goes_on[OF inv _ that] stuck by blast
    have "sort_threads st \<noteq> []" "\<not> joined (sort_threads st ! 0)" "left_of (sort_threads st ! 0) = left"
      "right_of (sort_threads st ! 0) = right" using inv by (simp_all add: sort_inv_def Let_def)
    then have e: "pc (sort_threads st ! 0) = At_End" using all_end by simp
    have "sorted (segment left right (mem st))" 
      using sort_invD(5)[OF inv, of 0] e \<open>sort_threads st \<noteq> []\<close> \<open>\<not> joined (sort_threads st ! 0)\<close>
        \<open>left_of (sort_threads st ! 0) = left\<close> \<open>right_of (sort_threads st ! 0) = right\<close> by simp
    then have m: "mem st = sort_at left right arr"
      using sort_invD(6)[OF inv, of 0] assms(2,3) \<open>sort_threads st \<noteq> []\<close>
      by (intro permuted_sorted_is_sort_at) (simp_all add: permuted_def)
    have c: "counter_inv (thread_num st) (map pc (sort_threads st))" using o by (simp add: orderly_inv_def Let_def)
    have "set (map pc (sort_threads st)) \<subseteq> {At_End}" using all_end by (auto simp: in_set_conv_nth)
    with c have "thread_num st = 6" by (cases rule: counter_cases[OF c]) auto
    then show ?thesis using e m by blast
  qed
  then show ?thesis using n orderly_step[OF assms(1) inv o assms(3-5)] by auto
qed

section \<open>Given schedules\<close>

text \<open>The run in which the threads of a list take the steps.\<close>

fun follow :: "(nat \<Rightarrow> sort_state \<Rightarrow> bool) \<Rightarrow> merge_fn \<Rightarrow> (nat \<Rightarrow> bool) \<Rightarrow> nat list \<Rightarrow> sort_state \<Rightarrow> sort_state option" where
  "follow sched mg created [] st = Some st"
| "follow sched mg created (i # is) st =
     (if can_step i st \<and> sched i st
      then (case sort_step mg created i st of Inl _ \<Rightarrow> None | Inr st \<Rightarrow> follow sched mg created is st) else None)"

lemma follow_run:
  "follow sched mg created is st = Some st' \<Longrightarrow> sort_run sched mg created n st0 st \<Longrightarrow> sort_run sched mg created (n + length is) st0 st'"
proof (induction "is" arbitrary: n st)
  case (Cons i "is")
  obtain st1 where "can_step i st" "sched i st" "sort_step mg created i st = Inr st1" "follow sched mg created is st1 = Some st'"
    using Cons.prems(1) by (auto split: if_splits sum.splits)
  then show ?case using Cons.IH[of st1 "Suc n"] sort_run.step[OF Cons.prems(2)] by auto
qed simp

lemma follow_run_start:
  "follow sched mg created is st = Some st' \<Longrightarrow> sort_run sched mg created (length is) st st'"
  using follow_run[OF _ sort_run.start] by fastforce

definition demo_sched :: "nat list" where
  "demo_sched = [0,0,0,0,0,0,0,0,0] @ [1,1,1,1,1,1,1,1,1] @ [2,2,2,2,2,2,2,2,2] @ [3,4,5,6] @ [1,1,1] @ [2,2,2] @ [0,0,0]"

lemma demo_merge_runs: "merge_runs_ok demo_merge"
  by (simp add: merge_runs_ok_def demo_merge_def)

lemma list_update_numeral: "(x # xs)[numeral k := y] = x # xs[pred_numeral k := y]"
  by (simp add: numeral_eq_Suc)

lemma midpoint_small: "l + r < 2 ^ 31 \<Longrightarrow> midpoint l r = Inr ((l + r) div 2)"
  by (simp add: midpoint_def)

lemmas follow_simps = sort_call_def enter_def sort_step_def can_step_def orderly_def any_order_def numbering_def Let_def put_thread_def
  create_thread_def join_thread_def join_ready_def start_thread_def thread_sort_def thread_create2_def no_arg_def THREAD_COUNT_def
  call_merge_def list_update_numeral

lemma demo_follow:
  "\<exists>st. follow orderly demo_merge (\<lambda>_. True) demo_sched (sort_call 0 [2, 1] 0 1) = Some st \<and>
     follow any_order demo_merge (\<lambda>_. True) demo_sched (sort_call 0 [2, 1] 0 1) = Some st \<and>
     (\<forall>th \<in> set (sort_threads st). pc th = At_End) \<and> sort_threads st \<noteq> []"
  by (simp add: demo_sched_def follow_simps midpoint_small demo_merge_def sort_at_def segment_def)

theorem threads_sort_witness:
  "\<exists>n st. sort_run any_order demo_merge (\<lambda>_. True) n (sort_call 0 [2, 1] 0 1) st \<and> mem st = [1, 2]"
proof -
  obtain st where st: "follow any_order demo_merge (\<lambda>_. True) demo_sched (sort_call 0 [2, 1] 0 1) = Some st"
    "pc (sort_threads st ! 0) = At_End" using demo_follow by fastforce
  have "mem st = sort_at 0 1 [2, 1]"
    using threads_sort[OF demo_merge_runs _ _ follow_run_start[OF st(1)] st(2)] by simp
  then show ?thesis using follow_run_start[OF st(1)] by (auto simp: sort_at_def segment_def)
qed

theorem orderly_sorts_witness:
  "\<exists>n st. sort_run orderly demo_merge (\<lambda>_. True) n (sort_call 0 [2, 1] 0 1) st \<and> n \<le> 59 \<and>
     (\<nexists>i. can_step i st \<and> orderly i st) \<and> mem st = [1, 2] \<and> thread_num st = 6"
proof -
  obtain st where st: "follow orderly demo_merge (\<lambda>_. True) demo_sched (sort_call 0 [2, 1] 0 1) = Some st"
    "\<forall>th \<in> set (sort_threads st). pc th = At_End" using demo_follow by blast
  then have "\<nexists>i. can_step i st \<and> orderly i st" by (auto simp: can_step_def Let_def)
  then show ?thesis
    using orderly_sorts[OF demo_merge_runs _ _ _ _ follow_run_start[OF st(1)]] follow_run_start[OF st(1)]
    by (fastforce simp: sort_at_def segment_def)
qed

section \<open>Schedules that fail\<close>

definition race_sched :: "nat list" where
  "race_sched = [0,0,0,0,0,0,0,0,0] @ [1,1] @ [2,2,2,2,2] @ [1,1,1,1,1,1,1]"


text \<open>The counter is not set back: after an orderly sort has left it at 6, a second call in the same
  process numbers its first thread 6 and writes past the end of \<open>thread_id\<close>, in every run and whatever the
  array; it never returns.\<close>

theorem second_call_fails:
  assumes "sort_run any_order mg created n (sort_call 6 arr left right) st"
  shows "n \<le> 4 \<and> can_step 0 st \<and> (\<nexists>i. 0 < i \<and> can_step i st) \<and> (n = 4 \<longrightarrow> sort_step mg created 0 st = Inl Bad_Pointer)"
proof -
  have "\<exists>th. sort_threads st = [th] \<and> (n = 0 \<and> pc th = At_Mode \<and> thread_num st = 6 \<or> n = 1 \<and> pc th = At_Arg1 \<and> thread_num st = 6 \<or>
      n = 2 \<and> pc th = At_Index1 \<and> thread_num st = 6 \<or> n = 3 \<and> pc th = At_Bump1 \<and> idx th = 6 \<or> n = 4 \<and> pc th = At_Create1 \<and> idx th = 6)"
    using assms
  proof (induction n "sort_call 6 arr left right" st rule: sort_run.induct)
    case (step n st1 i st2)
    then have "i = 0" by (auto simp: can_step_def)
    then show ?case using step
      by (auto simp: sort_step_def Let_def put_thread_def res_simps create_thread_def THREAD_COUNT_def)
  qed (simp add: sort_call_def enter_def)
  then show ?thesis by (auto simp: can_step_def sort_step_def create_thread_def THREAD_COUNT_def Let_def)
qed

theorem second_call_fails_witness:
  "\<exists>st. sort_run any_order demo_merge (\<lambda>_. True) 4 (sort_call 6 [2, 1] 0 1) st \<and>
     sort_step demo_merge (\<lambda>_. True) 0 st = Inl Bad_Pointer"
proof -
  have "follow any_order demo_merge (\<lambda>_. True) [0, 0, 0, 0] (sort_call 6 [2, 1] 0 1) \<noteq> None"
    by (simp add: follow_simps midpoint_small)
  then obtain st where "sort_run any_order demo_merge (\<lambda>_. True) 4 (sort_call 6 [2, 1] 0 1) st"
    using follow_run_start[of any_order demo_merge "\<lambda>_. True" "[0, 0, 0, 0]" "sort_call 6 [2, 1] 0 1"]
    by (auto simp: numeral_eq_Suc simp del: follow.simps)
  then show ?thesis using second_call_fails by blast
qed


end
