(* ===== verification/Spec2Isabelle.thy ===== *)
theory Spec2Isabelle
  imports Alarm_Run Mutex_Props Condvar_Props Donation Sched_Props Timer_Arith Fileman_Props Mergesort_Props Manpage Cartman
    User_Stack_Props Syscall_Props Lab1_Alarm_Props Threadsort_Props
begin

text \<open>
  A verification library for the assignments and labs of an operating systems course. The repository
  holds independent C programs: three versions of a teaching kernel (\<open>src/Lab1\<close>, of which only the
  alarm clocks are there, \<open>src/Lab2\<close>, with priority scheduling, donation and an alarm clock, and
  \<open>src/Lab3\<close>, with user processes and system calls), a simulation of CPU schedulers
  (\<open>src/Assignment4/scheduler.c\<close>), a file manager (\<open>src/Assignment5/fileman.c\<close>), two sorts in
  several processes (\<open>src/Assignment1\<close>), a sort in several threads (\<open>src/Assignment2/sort.c\<close>) and
  two programs of cooperating threads (\<open>src/Assignment3\<close>). What the code calls and the repository
  does not hold is a parameter: a function argument or a field of an environment record (\<open>env\<close>,
  \<open>env1\<close>, \<open>env3\<close>), with what the code relies on as a named predicate (\<open>palloc_ok\<close>, \<open>sem_ok\<close>,
  \<open>umem_ok\<close>, \<open>queue_sort_ok\<close>, \<open>merge_ok\<close>, \<open>merge_runs_ok\<close>, \<open>ids_ok\<close>, \<open>threads_ok1\<close>).

  Common ground. \<open>Prelude\<close> has the result type: every failed assertion, bad pointer, corrupted list,
  signed overflow and division by zero is a value \<open>Inl\<close>; it has the rules for sequencing and the
  collections of hints. \<open>Pintos_List\<close> has ordered insertion and sorting of the intrusive lists and
  the locale \<open>less_func\<close> of their comparators, interpreted at every comparator of the kernel.

  Lab 2. \<open>Kernel_State\<close> has \<open>struct thread\<close>, the static variables and the control stacks: a call
  that can be interrupted or can switch threads is cut into control points, and the pending calls of
  every thread are a list of frames. \<open>Thread\<close>, \<open>Semaphore\<close>, \<open>Lock\<close>, \<open>Condvar\<close> and \<open>Timer\<close> translate
  the functions of \<open>thread.c\<close>, \<open>semaphore.c\<close>, \<open>lock.c\<close>, \<open>condvar.c\<close> and the alarm of \<open>timer.c\<close>;
  \<open>Kernel_Step\<close> is the machine: the running thread executes its top frame, a client calls any
  operation, the timer interrupts, and \<open>reachable\<close> is what can happen from the boot on. \<open>Placement\<close>,
  \<open>Kernel_Wf\<close>, \<open>Kernel_Moves\<close>, \<open>Kernel_Inv\<close>, \<open>Kernel_Inv2\<close> and \<open>Kernel_Run\<close> give the structural
  invariant \<open>wf\<close> (who is on which list in which state) and what each operation does to it; \<open>Mutex\<close>,
  \<open>Mutex_Run\<close> and \<open>Mutex_Props\<close> the token argument for locks: possession, pending calls and the
  value of the semaphore add up to one in every reachable state. \<open>Signals\<close> has the same argument for
  the private semaphore of a thread inside \<open>condvar_wait\<close>, and \<open>Condvar_Props\<close> what follows for signals.
  \<open>Traces\<close> plays concrete schedules, which the simplifier executes and which are shown to be runs of the
  machine; \<open>Donation\<close> has the donation of priorities, and the runs in which the kernel fails, on it.
  \<open>Scheduling\<close>, \<open>Waiting\<close> and \<open>Alarm\<close>
  have the behaviour of scheduling, of semaphores and of the alarm; \<open>Alarm_Run\<close> shows that in every
  run no step but the timer interrupt touches a sleeper, so that this clock meets the contract of
  \<open>Alarm_Spec\<close>; \<open>Demo\<close> has concrete kernels. \<open>Timer_Arith\<close> is the arithmetic of \<open>timer.c\<close>: the
  calibration of the delay loop, sleeps and delays; how many ticks pass during a number of loops is
  its parameter.

  Lab 1. \<open>Alarm_Spec\<close> is the contract of an alarm clock as a locale, \<open>alarm_clock\<close>: a tick wakes the
  sleepers that are due, nothing else touches a sleeper, and so each is woken by the tick that is
  due. The clock of Lab 2 interprets it too. \<open>Lab1_Alarm\<close> has the three clocks of the lab (\<open>timer.c\<close>,
  which asks every thread at every tick, \<open>timer_list.c\<close>, which keeps a list of sleepers, and
  \<open>timer_sorted_list.c\<close>, which orders it) with \<open>timer_sleep\<close> cut where interrupts can come in.
  \<open>Lab1_Alarm_Props\<close> interprets the contract by all three: by those with a list for every run, by the
  first for the runs with no interrupt inside \<open>timer_sleep\<close>; it shows what happens to the first in the
  other runs. The calibration, sleeps and delays of the three files are the text of \<open>Lab2/timer.c\<close>.

  Lab 3. \<open>User_Stack\<close> is \<open>push_command\<close> of \<open>process.c\<close> on a memory of bytes with 32-bit addresses,
  and \<open>User_Stack_Props\<close> its round trip with what a C main reads. \<open>Lab3_State\<close> has the state of this
  kernel, \<open>Lab3_Thread\<close> the functions of \<open>thread.c\<close>, \<open>Process\<close> those of \<open>process.c\<close>, \<open>Syscall\<close> the
  handlers of \<open>syscall.c\<close> and the step relation \<open>step3\<close>. \<open>Lab3_Sched\<close> shows that the ready list is
  fair, \<open>Process_Props\<close> what executing, waiting and exiting do together, \<open>Syscall_Props\<close> that every
  step keeps the types of the data, and what opening and writing do.

  Assignments. \<open>Sched_Sim\<close> and \<open>Sched_Props\<close> model the scheduler callbacks of Assignment 4: the
  consistency of the records in every run of the simulator's protocol, and that every tick leaves
  the right thread on the CPU. \<open>Fileman\<close> and \<open>Fileman_Props\<close> are the file manager, with the drawing
  of a directory tree refined to a drawing defined on the tree. \<open>Mergesort\<close> and \<open>Mergesort_Props\<close>
  are the sorts of Assignment 1, under every interleaving of the calls of \<open>merge\<close>. \<open>Threadsort\<close> is
  the sort of Assignment 2, with every read and write of the shared counter \<open>thread_num\<close> a step;
  \<open>Threadsort_Inv\<close> has its invariant, who may write where and what is sorted, and \<open>Threadsort_Props\<close>
  its result, the end of the orderly runs, by a counter invariant and a weight that falls, and the
  schedules that fail. \<open>Manpage\<close> and \<open>Cartman\<close> are the programs of Assignment 3 as interleaved
  threads.

  Bounds. \<open>int\<close> and \<open>int64_t\<close> are integers whose overflow is a fault; unsigned variables are words.
  No fuel is used: the loops are structural or have a measure, and \<open>timer_calibrate\<close>, whose second
  loop ends only when the test bit meets a value, is an option that is shown not to be \<open>None\<close>; a
  wait for the next tick is taken to end, because the timer interrupts. The memory of the process
  that runs an assignment, and the number of system resources it may use, are not bounded.

  Not modelled. The context switch in assembly, the page allocator, interrupt controller and
  context, the console driver, the file system and the loader of the kernels are not in the
  repository. The semaphores and the lock of Lab 3 are not either: the theorems use \<open>sem_ok\<close>.
  Functions that only print statistics are left out. The headers of Lab 1 otherwise only declare
  functions of a file that is not there. The memory model of C is not modelled: a read or write of a
  shared \<open>int\<close> is one step.
\<close>

end
